(* ===== verification/OSiS_Prelude.thy ===== *)
theory OSiS_Prelude
  imports Main "HOL-Library.Word" "HOL-Library.Multiset"
begin

text \<open>
  Shared vocabulary of the development.

  \<^item> The C integer types the sources use, as machine words.
  \<^item> \<open>outcome\<close>: how a C call can end (it returns, it blocks, it ends the process, it runs
    into undefined behaviour such as an out-of-range array access), with its sequencing
    operator.
  \<^item> Checked array accesses \<open>c_load\<close> and \<open>c_store\<close>: an index outside the array is a fault,
    never an unspecified value.
  \<^item> Ring buffers: \<open>ring_list\<close> reads a window of a circular array as a list; the lemmas say
    what writing at the tail and advancing the head do to that list.
  \<^item> Weighted counting over a pool of threads (\<open>weight\<close>), the arithmetic behind every
    semaphore invariant.
\<close>

section \<open>Machine integers\<close>

type_synonym u8 = "8 word"
type_synonym u16 = "16 word"
type_synonym u32 = "32 word"
type_synonym u64 = "64 word"

text \<open>
  A C \<open>int\<close> counter that is only incremented, subtracted and printed. It is kept at its
  width: \<open>+\<close> wraps around in two's complement.
\<close>

type_synonym c_int = "32 word"

section \<open>Outcomes of C calls\<close>

text \<open>
  \<open>Done x\<close>: the call returns \<open>x\<close>. \<open>Blocks\<close>: it waits for another process or thread.
  \<open>Exits\<close>: the code calls \<open>exit\<close>. \<open>Faults\<close>: undefined behaviour (an access outside an
  array, a read of memory never written).
\<close>

datatype 'a outcome = Done 'a | Blocks | Exits | Faults

fun obind :: "'a outcome \<Rightarrow> ('a \<Rightarrow> 'b outcome) \<Rightarrow> 'b outcome" where
  "obind (Done x) f = f x"
| "obind Blocks f = Blocks"
| "obind Exits f = Exits"
| "obind Faults f = Faults"

lemma obind_Done_iff [simp]: "obind m f = Done y \<longleftrightarrow> (\<exists>x. m = Done x \<and> f x = Done y)"
  by (cases m) auto

lemma obind_Faults_iff: "obind m f = Faults \<longleftrightarrow> m = Faults \<or> (\<exists>x. m = Done x \<and> f x = Faults)"
  by (cases m) auto

lemma obind_Blocks_iff: "obind m f = Blocks \<longleftrightarrow> m = Blocks \<or> (\<exists>x. m = Done x \<and> f x = Blocks)"
  by (cases m) auto

lemma obind_assoc: "obind (obind m f) g = obind m (\<lambda>x. obind (f x) g)"
  by (cases m) auto

text \<open>Loops whose body is sequenced with \<open>obind\<close> need to know that the rest runs after it.\<close>

lemma obind_cong [fundef_cong]:
  "m = m' \<Longrightarrow> (\<And>x. m' = Done x \<Longrightarrow> f x = g x) \<Longrightarrow> obind m f = obind m' g"
  by (cases m') auto

section \<open>Checked array accesses\<close>

definition c_load :: "'a list \<Rightarrow> nat \<Rightarrow> 'a outcome" where
  "c_load a i = (if i < length a then Done (a ! i) else Faults)"

definition c_store :: "'a list \<Rightarrow> nat \<Rightarrow> 'a \<Rightarrow> 'a list outcome" where
  "c_store a i v = (if i < length a then Done (a[i := v]) else Faults)"

lemma c_load_in [simp]: "i < length a \<Longrightarrow> c_load a i = Done (a ! i)"
  by (simp add: c_load_def)

lemma c_store_in [simp]: "i < length a \<Longrightarrow> c_store a i v = Done (a[i := v])"
  by (simp add: c_store_def)

lemma c_load_DoneD: "c_load a i = Done v \<Longrightarrow> i < length a \<and> v = a ! i"
  by (auto simp: c_load_def split: if_splits)

lemma c_store_DoneD: "c_store a i v = Done b \<Longrightarrow> i < length a \<and> b = a[i := v]"
  by (auto simp: c_store_def split: if_splits)

section \<open>Ring buffers\<close>

named_theorems ring_simps

text \<open>The \<open>c\<close> entries of the circular array \<open>buf\<close> that start at index \<open>h\<close>, oldest first.\<close>

definition ring_list :: "'a list \<Rightarrow> nat \<Rightarrow> nat \<Rightarrow> 'a list" where
  "ring_list buf h c = map (\<lambda>i. buf ! ((h + i) mod length buf)) [0..<c]"

lemma length_ring_list [simp, ring_simps]: "length (ring_list buf h c) = c"
  by (simp add: ring_list_def)

lemma ring_list_0 [simp, ring_simps]: "ring_list buf h 0 = []"
  by (simp add: ring_list_def)

lemma nth_ring_list [ring_simps]: "i < c \<Longrightarrow> ring_list buf h c ! i = buf ! ((h + i) mod length buf)"
  by (simp add: ring_list_def)

lemma ring_index_le:
  fixes h i j n :: nat
  assumes "j < n" "i \<le> j" "(h + j) mod n = (h + i) mod n"
  shows "i = j"
proof -
  have "n dvd (h + j) - (h + i)"
    using assms by (simp add: mod_eq_dvd_iff_nat)
  then have "n dvd j - i" by simp
  moreover have "j - i < n" using assms by simp
  ultimately show ?thesis using assms(2) by (auto dest: dvd_imp_le)
qed

lemma ring_index_inj:
  fixes h i j n :: nat
  assumes "i < n" "j < n" "(h + i) mod n = (h + j) mod n"
  shows "i = j"
  using assms ring_index_le[of j n i h] ring_index_le[of i n j h] by (cases "i \<le> j") auto

lemma ring_list_update_other:
  assumes "c < length buf"
  shows "ring_list (buf[(h + c) mod length buf := x]) h c = ring_list buf h c"
proof (rule nth_equalityI)
  fix i assume "i < length (ring_list (buf[(h + c) mod length buf := x]) h c)"
  then have i: "i < c" by simp
  have "(h + i) mod length buf \<noteq> (h + c) mod length buf"
    using ring_index_inj[of i "length buf" c h] i assms by auto
  then show "ring_list (buf[(h + c) mod length buf := x]) h c ! i = ring_list buf h c ! i"
    using i by (simp add: nth_ring_list)
qed simp

text \<open>Writing at the tail appends to the window.\<close>

lemma ring_list_push [ring_simps]:
  assumes "c < length buf" and "t = (h + c) mod length buf"
  shows "ring_list (buf[t := x]) h (Suc c) = ring_list buf h c @ [x]"
proof -
  have t: "t < length buf" using assms by (auto intro: mod_less_divisor)
  have "ring_list (buf[t := x]) h (Suc c) =
      ring_list (buf[t := x]) h c @ [buf[t := x] ! t]"
    using assms(2) by (simp add: ring_list_def)
  then show ?thesis
    using t ring_list_update_other[OF assms(1)] assms(2) by simp
qed

text \<open>Advancing the head drops the oldest entry.\<close>

lemma ring_list_Suc:
  "ring_list buf h (Suc c) = buf ! (h mod length buf) # ring_list buf (Suc h mod length buf) c"
  (is "?l = ?r")
proof (rule nth_equalityI)
  fix i assume "i < length ?l"
  then have "i < Suc c" by simp
  then show "?l ! i = ?r ! i"
    by (cases i) (simp_all add: nth_ring_list mod_add_left_eq del: upt_Suc)
qed simp

lemma ring_list_pop [ring_simps]:
  assumes "0 < c"
  shows "ring_list buf (Suc h mod length buf) (c - 1) = tl (ring_list buf h c)"
  using assms by (cases c) (simp_all add: ring_list_Suc)

lemma ring_list_hd [ring_simps]:
  assumes "0 < c" "h < length buf"
  shows "hd (ring_list buf h c) = buf ! h"
  using assms by (cases c) (simp_all add: ring_list_Suc)

text \<open>Copying a window to the front of a fresh array, as the resizing routines do.\<close>

lemma ring_list_front [ring_simps]:
  assumes "length xs \<le> length buf" "take (length xs) buf = xs"
  shows "ring_list buf 0 (length xs) = xs"
proof (rule nth_equalityI)
  fix i assume "i < length (ring_list buf 0 (length xs))"
  then have "i < length xs" by simp
  then show "ring_list buf 0 (length xs) ! i = xs ! i"
    using assms by (metis add_0 mod_less nth_ring_list nth_take order_less_le_trans)
qed simp

text \<open>The tail index of a window, before and after it is advanced.\<close>

lemma ring_tail_step [ring_simps]:
  "Suc ((h + c) mod n) mod n = (h + Suc c) mod n"
  by (simp add: mod_Suc_eq)

lemma ring_head_step [ring_simps]:
  assumes "0 < c"
  shows "(Suc h mod n + (c - 1)) mod n = (h + c) mod n"
  using assms by (cases c) (simp_all add: mod_add_left_eq)

section \<open>Counting over a pool of threads\<close>

definition weight :: "('p \<Rightarrow> nat) \<Rightarrow> 'p list \<Rightarrow> nat" where
  "weight w ps = sum_list (map w ps)"

lemma weight_Nil [simp]: "weight w [] = 0"
  by (simp add: weight_def)

lemma weight_append [simp]: "weight w (ps @ qs) = weight w ps + weight w qs"
  by (simp add: weight_def)

lemma weight_Cons [simp]: "weight w (p # ps) = w p + weight w ps"
  by (simp add: weight_def)

lemma weight_map [simp]: "weight w (map f ps) = weight (\<lambda>p. w (f p)) ps"
  by (simp add: weight_def comp_def)

lemma weight_cong: "(\<And>p. p \<in> set ps \<Longrightarrow> w p = v p) \<Longrightarrow> weight w ps = weight v ps"
  unfolding weight_def by (metis map_cong)

lemma weight_pos: "0 < weight w ps \<longleftrightarrow> (\<exists>p \<in> set ps. 0 < w p)"
  by (induction ps) auto

lemma weight_split:
  assumes "i < length ps"
  shows "weight w ps = weight w (take i ps) + w (ps ! i) + weight w (drop (Suc i) ps)"
proof -
  have "weight w ps = weight w (take i ps @ ps ! i # drop (Suc i) ps)"
    using id_take_nth_drop[OF assms] by simp
  then show ?thesis by simp
qed

lemma weight_update:
  assumes "i < length ps"
  shows "weight w (ps[i := p]) + w (ps ! i) = weight w ps + w p"
  using assms weight_split[of i ps w] by (simp add: upd_conv_take_nth_drop)

lemma weight_ge:
  assumes "i < length ps" "ps ! i = p"
  shows "w p \<le> weight w ps"
  using weight_split[OF assms(1), of w] assms(2) by simp

text \<open>One thread moves from \<open>p\<close> to \<open>p'\<close>: its weight is exchanged.\<close>

lemma weight_step:
  assumes "i < length ps" "ps ! i = p"
  shows "weight w (ps[i := p']) = weight w ps - w p + w p'"
  using weight_update[OF assms(1), of w p'] weight_ge[OF assms, of w] assms(2) by simp

lemma weight_two_le:
  assumes "i < length ps" "j < length ps" "i \<noteq> j"
  shows "w (ps ! i) + w (ps ! j) \<le> weight w ps"
proof -
  have "w (ps ! j) \<le> weight w (drop (Suc i) ps) + weight w (take i ps)"
  proof (cases "j < i")
    case True
    then have "w (take i ps ! j) \<le> weight w (take i ps)"
      using assms by (intro weight_ge[of j]) auto
    then show ?thesis using True by simp
  next
    case False
    then have "w (drop (Suc i) ps ! (j - Suc i)) \<le> weight w (drop (Suc i) ps)"
      using assms by (intro weight_ge[of "j - Suc i"]) auto
    then show ?thesis using False assms by simp
  qed
  then show ?thesis using weight_split[OF assms(1), of w] by simp
qed

section \<open>Pools of threads\<close>

text \<open>Thread \<open>i\<close> of the pool stands at program point \<open>p\<close>.\<close>

definition at_pc :: "'p list \<Rightarrow> nat \<Rightarrow> 'p \<Rightarrow> bool" where
  "at_pc ps i p \<longleftrightarrow> i < length ps \<and> ps ! i = p"

lemma at_pc_weight:
  assumes "at_pc ps i p"
  shows "weight w (ps[i := p']) + w p = weight w ps + w p'"
  using weight_update[of i ps w p'] assms by (simp add: at_pc_def)

lemma at_pc_weight_ge: "at_pc ps i p \<Longrightarrow> w p \<le> weight w ps"
  using weight_ge[of i ps p w] by (simp add: at_pc_def)

lemma at_pc_unique:
  assumes "weight w ps \<le> 1" "at_pc ps i p" "at_pc ps j p'" "w p = 1" "w p' = 1"
  shows "i = j"
  using weight_two_le[of i ps j w] assms by (force simp: at_pc_def)

lemma at_pc_update: "at_pc ps i p \<Longrightarrow> at_pc (ps[i := p']) j q \<longleftrightarrow> (if j = i then q = p' else at_pc ps j q)"
  by (auto simp: at_pc_def nth_list_update)

lemma at_pc_snoc: "at_pc (ps @ [p']) j q \<longleftrightarrow> (if j = length ps then q = p' else at_pc ps j q)"
  by (auto simp: at_pc_def nth_append)

end
