(* ===== verification/Bounded_Fifo.thy ===== *)
theory Bounded_Fifo
  imports OSiS_Prelude
begin

text \<open>
  The contract shared by the three message queues of the repository (lab04/src/queue.c,
  lab05/src/5.1/queue.c, lab05/src/5.2/queue.c), as locales.

  \<^item> \<open>fifo_core\<close>: the critical sections. Under the representation invariant a push that
    finds a free slot appends to the abstract contents, a pop that finds an element removes
    the oldest one, and neither runs into undefined behaviour.
  \<^item> \<open>blocking_fifo\<close>: the whole calls, which in addition wait when the queue is full (push)
    or empty (pop).
  \<^item> \<open>resizable_fifo\<close>: a change of capacity keeps the contents.

  The clients proved here once: a history lemma (what was inserted is what was removed
  followed by what is stored) and the refinement of any sequence of calls by the same
  sequence on an abstract list.
\<close>

section \<open>Sequences of queue calls and their abstract specification\<close>

datatype 'm fifo_op = Push 'm | Pop

fun fifo_run :: "('q \<Rightarrow> 'm \<Rightarrow> 'q outcome) \<Rightarrow> ('q \<Rightarrow> ('m \<times> 'q) outcome) \<Rightarrow>
    'q \<Rightarrow> 'm fifo_op list \<Rightarrow> ('m list \<times> 'q) outcome" where
  "fifo_run push pop q [] = Done ([], q)"
| "fifo_run push pop q (Push m # ops) = obind (push q m) (\<lambda>q'. fifo_run push pop q' ops)"
| "fifo_run push pop q (Pop # ops) =
     obind (pop q) (\<lambda>(m, q'). obind (fifo_run push pop q' ops) (\<lambda>(ms, q''). Done (m # ms, q'')))"

text \<open>The abstract queue: a list of at most \<open>n\<close> messages, which waits at its bounds.\<close>

fun spec_run :: "nat \<Rightarrow> 'm list \<Rightarrow> 'm fifo_op list \<Rightarrow> ('m list \<times> 'm list) outcome" where
  "spec_run n xs [] = Done ([], xs)"
| "spec_run n xs (Push m # ops) =
     (if length xs < n then spec_run n (xs @ [m]) ops else Blocks)"
| "spec_run n [] (Pop # ops) = Blocks"
| "spec_run n (x # xs) (Pop # ops) =
     obind (spec_run n xs ops) (\<lambda>(ms, ys). Done (x # ms, ys))"

fun pushed :: "'m fifo_op list \<Rightarrow> 'm list" where
  "pushed [] = []"
| "pushed (Push m # ops) = m # pushed ops"
| "pushed (Pop # ops) = pushed ops"

text \<open>
  The specification itself is first-in first-out: what was stored before followed by what
  was pushed is what was popped followed by what is left.
\<close>

lemma spec_run_fifo:
  "spec_run n xs ops = Done (ms, ys) \<Longrightarrow> xs @ pushed ops = ms @ ys"
  by (induction n xs ops arbitrary: ms ys rule: spec_run.induct) (auto split: if_splits)

lemma spec_run_bound:
  "spec_run n xs ops = Done (ms, ys) \<Longrightarrow> length xs \<le> n \<Longrightarrow> length ys \<le> n"
  by (induction n xs ops arbitrary: ms ys rule: spec_run.induct) (auto split: if_splits)

lemma spec_run_safe: "spec_run n xs ops \<noteq> Faults \<and> spec_run n xs ops \<noteq> Exits"
proof (induction n xs ops rule: spec_run.induct)
  case (4 n x xs ops)
  then show ?case by (cases "spec_run n xs ops") (auto split: prod.splits)
qed auto

section \<open>The critical sections\<close>

locale fifo_core =
  fixes push :: "'q \<Rightarrow> 'm \<Rightarrow> 'q outcome"
    and pop :: "'q \<Rightarrow> ('m \<times> 'q) outcome"
    and contents :: "'q \<Rightarrow> 'm list"
    and cap :: "'q \<Rightarrow> nat"
    and invar :: "'q \<Rightarrow> bool"
  assumes bound: "invar q \<Longrightarrow> length (contents q) \<le> cap q"
    and push_ok: "invar q \<Longrightarrow> length (contents q) < cap q \<Longrightarrow>
      \<exists>q'. push q m = Done q' \<and> invar q' \<and> contents q' = contents q @ [m] \<and> cap q' = cap q"
    and pop_ok: "invar q \<Longrightarrow> contents q \<noteq> [] \<Longrightarrow>
      \<exists>q'. pop q = Done (hd (contents q), q') \<and> invar q' \<and>
           contents q' = tl (contents q) \<and> cap q' = cap q"
begin

lemma pushD:
  assumes "invar q" "length (contents q) < cap q" "push q m = Done q'"
  shows "invar q'" and "contents q' = contents q @ [m]" and "cap q' = cap q"
  using push_ok[OF assms(1,2), of m] assms(3) by auto

lemma popD:
  assumes "invar q" "contents q \<noteq> []" "pop q = Done (m, q')"
  shows "invar q'" and "contents q = m # contents q'" and "cap q' = cap q"
  using pop_ok[OF assms(1,2)] assms(2,3) by auto

text \<open>
  The history of a queue: \<open>ins\<close> are all the messages ever inserted, \<open>outs\<close> all those ever
  removed.
\<close>

lemma history_push:
  assumes "invar q" "length (contents q) < cap q" "push q m = Done q'"
    and "ins = outs @ contents q"
  shows "ins @ [m] = outs @ contents q'"
  using pushD(2)[OF assms(1-3)] assms(4) by simp

lemma history_pop:
  assumes "invar q" "contents q \<noteq> []" "pop q = Done (m, q')"
    and "ins = outs @ contents q"
  shows "ins = (outs @ [m]) @ contents q'"
  using popD(2)[OF assms(1-3)] assms(4) by simp

end

section \<open>Whole calls, which wait at the bounds\<close>

locale blocking_fifo = fifo_core +
  assumes push_full: "invar q \<Longrightarrow> length (contents q) = cap q \<Longrightarrow> push q m = Blocks"
    and pop_empty: "invar q \<Longrightarrow> contents q = [] \<Longrightarrow> pop q = Blocks"
begin

lemma push_cases:
  assumes "invar q"
  obtains (full) "length (contents q) = cap q" "push q m = Blocks"
    | (room) q' where "length (contents q) < cap q" "push q m = Done q'" "invar q'"
        "contents q' = contents q @ [m]" "cap q' = cap q"
proof (cases "length (contents q) = cap q")
  case True
  then show ?thesis using push_full[OF assms] full by blast
next
  case False
  then have "length (contents q) < cap q" using bound[OF assms] by simp
  then show ?thesis using push_ok[OF assms, of m] room by blast
qed

lemma pop_cases:
  assumes "invar q"
  obtains (empty) "contents q = []" "pop q = Blocks"
    | (some) q' m where "pop q = Done (m, q')" "invar q'" "contents q = m # contents q'"
        "cap q' = cap q"
proof (cases "contents q = []")
  case True
  then show ?thesis using pop_empty[OF assms] empty by blast
next
  case False
  then obtain q' where "pop q = Done (hd (contents q), q')" "invar q'"
    "contents q' = tl (contents q)" "cap q' = cap q"
    using pop_ok[OF assms] by blast
  then show ?thesis using False some[of "hd (contents q)" q'] by simp
qed

text \<open>Refinement: every sequence of calls behaves as on the abstract list.\<close>

lemma run_refines:
  assumes "invar q"
  shows "map_outcome (map_prod id contents) (fifo_run push pop q ops) =
    spec_run (cap q) (contents q) ops"
  using assms
proof (induction ops arbitrary: q)
  case Nil
  then show ?case by simp
next
  case (Cons p ops)
  show ?case
  proof (cases p)
    case (Push m)
    from Cons.prems show ?thesis
      by (rule push_cases[where m = m]) (use Push Cons.IH in auto)
  next
    case Pop
    from Cons.prems show ?thesis
    proof (rule pop_cases)
      fix q' m assume *: "pop q = Done (m, q')" "invar q'" "contents q = m # contents q'"
        "cap q' = cap q"
      show ?thesis
        using Cons.IH[OF *(2), symmetric] * Pop
        by (cases "fifo_run push pop q' ops") auto
    qed (use Pop in simp)
  qed
qed

lemma run_invar:
  "invar q \<Longrightarrow> fifo_run push pop q ops = Done (ms, q') \<Longrightarrow> invar q' \<and> cap q' = cap q"
proof (induction ops arbitrary: q ms)
  case Nil
  then show ?case by simp
next
  case (Cons p ops)
  show ?case
  proof (cases p)
    case (Push m)
    from Cons.prems(1) show ?thesis
      by (rule push_cases[where m = m]) (use Push Cons in auto)
  next
    case Pop
    from Cons.prems(1) show ?thesis
      by (rule pop_cases) (use Pop Cons in auto)
  qed
qed

text \<open>No sequence of calls faults, and the messages come out in the order they went in.\<close>

lemma run_fifo:
  assumes "invar q" "fifo_run push pop q ops = Done (ms, q')"
  shows "contents q @ pushed ops = ms @ contents q'"
  using run_refines[OF assms(1), of ops] assms(2) by (auto intro: spec_run_fifo)

lemma run_safe:
  assumes "invar q"
  shows "fifo_run push pop q ops \<noteq> Faults"
  using run_refines[OF assms, of ops] spec_run_safe[of "cap q" "contents q" ops]
  by (cases "fifo_run push pop q ops") auto

end

section \<open>Changing the capacity\<close>

locale resizable_fifo = fifo_core +
  fixes grow :: "'q \<Rightarrow> 'q outcome"
    and shrink :: "'q \<Rightarrow> 'q option outcome"
  assumes grow_ok: "invar q \<Longrightarrow>
      \<exists>q'. grow q = Done q' \<and> invar q' \<and> contents q' = contents q \<and> cap q' = Suc (cap q)"
    and shrink_ok: "invar q \<Longrightarrow> cap q > 1 \<Longrightarrow> length (contents q) < cap q - 1 \<Longrightarrow>
      \<exists>q'. shrink q = Done (Some q') \<and> invar q' \<and> contents q' = contents q \<and> cap q' = cap q - 1"
    and shrink_refused: "invar q \<Longrightarrow> cap q \<le> 1 \<or> cap q - 1 \<le> length (contents q) \<Longrightarrow>
      shrink q = Done None"
begin

lemma growD:
  assumes "invar q" "grow q = Done q'"
  shows "invar q'" and "contents q' = contents q" and "cap q' = Suc (cap q)"
  using grow_ok[OF assms(1)] assms(2) by auto

lemma shrinkD:
  assumes "invar q" "shrink q = Done (Some q')"
  shows "invar q'" and "contents q' = contents q" and "cap q' = cap q - 1"
    and "length (contents q) < cap q - 1"
proof -
  have "\<not> (cap q \<le> 1 \<or> cap q - 1 \<le> length (contents q))"
    using shrink_refused[OF assms(1)] assms(2) by auto
  then have *: "cap q > 1" "length (contents q) < cap q - 1" by auto
  then show "length (contents q) < cap q - 1" by simp
  show "invar q'" "contents q' = contents q" "cap q' = cap q - 1"
    using shrink_ok[OF assms(1) *] assms(2) by auto
qed

text \<open>Growing and shrinking back is the identity on what the queue stores.\<close>

lemma grow_shrink:
  assumes "invar q" "0 < cap q" "length (contents q) < cap q"
  shows "\<exists>q1 q2. grow q = Done q1 \<and> shrink q1 = Done (Some q2) \<and> contents q2 = contents q \<and> cap q2 = cap q"
proof -
  obtain q1 where q1: "grow q = Done q1" "invar q1" "contents q1 = contents q" "cap q1 = Suc (cap q)"
    using grow_ok[OF assms(1)] by blast
  have "cap q1 > 1" "length (contents q1) < cap q1 - 1"
    using q1 assms by auto
  then obtain q2 where "shrink q1 = Done (Some q2)" "contents q2 = contents q1" "cap q2 = cap q1 - 1"
    using shrink_ok[OF q1(2)] by blast
  then show ?thesis using q1 by auto
qed

end

end
