(* ===== verification/Messages.thy ===== *)
theory Messages
  imports OSiS_Prelude
begin

text \<open>
  The messages of the producer/consumer programs (lab04/src/queue.h, lab05/src/5.1/queue.h,
  lab05/src/5.2/queue.h: the same four fields), how a producer makes one and the checksum
  over it.

  The checksum is a 16-bit sum of the type, the size and the first \<open>size\<close> data bytes. The
  lemmas show that it reads only inside the 260-byte data array and that the sum of the
  largest possible message is exactly 65535, so the 16-bit addition never wraps; a message
  made by a producer carries its own checksum.
\<close>

record message =
  mtype :: u8
  mhash :: u16
  msize :: u8
  mdata :: "u8 list"

abbreviation data_len :: nat where
  "data_len \<equiv> 260"

definition zero_message :: message where
  "zero_message = \<lparr>mtype = 0, mhash = 0, msize = 0, mdata = replicate data_len 0\<rparr>"

section \<open>The checksum\<close>

text \<open>The loop of \<open>calculate_hash\<close>: \<open>n\<close> more bytes from index \<open>i\<close>, 16-bit accumulator \<open>h\<close>.\<close>

fun hash_from :: "u8 list \<Rightarrow> nat \<Rightarrow> nat \<Rightarrow> u16 \<Rightarrow> u16 outcome" where
  "hash_from d i 0 h = Done h"
| "hash_from d i (Suc n) h = obind (c_load d i) (\<lambda>b. hash_from d (Suc i) n (h + ucast b))"

definition calculate_hash :: "message \<Rightarrow> u16 outcome" where
  "calculate_hash msg =
     (let hash = 0;
          hash = hash + ucast (mtype msg);
          hash = hash + ucast (msize msg)
      in hash_from (mdata msg) 0 (unat (msize msg)) hash)"

text \<open>The reference: the same sum over the natural numbers.\<close>

definition byte_sum :: "u8 list \<Rightarrow> nat" where
  "byte_sum bs = sum_list (map unat bs)"

definition hash_ref :: "message \<Rightarrow> nat" where
  "hash_ref msg = unat (mtype msg) + unat (msize msg) +
     byte_sum (take (unat (msize msg)) (mdata msg))"

lemma byte_sum_simps [simp]:
  "byte_sum [] = 0" "byte_sum (b # bs) = unat b + byte_sum bs"
  by (simp_all add: byte_sum_def)

lemma unat_byte_le: "unat (b :: u8) \<le> 255"
  using unsigned_less[of b, where 'a = nat] by simp

lemma unat_ucast_byte [simp]: "unat (ucast (b :: u8) :: u16) = unat b"
  using unat_byte_le[of b] by (simp add: unsigned_ucast_eq take_bit_nat_eq_self)

lemma byte_sum_le: "byte_sum bs \<le> 255 * length bs"
proof (induction bs)
  case (Cons b bs)
  then show ?case using unat_byte_le[of b] by simp
qed simp

lemma unat_add_byte:
  assumes "unat (h :: u16) + unat (b :: u8) < 65536"
  shows "unat (h + ucast b) = unat h + unat b"
  using assms by (simp add: unat_word_ariths)

lemma hash_from_sum:
  assumes "i + n \<le> length d" "unat h + byte_sum (take n (drop i d)) < 65536"
  shows "\<exists>h'. hash_from d i n h = Done h' \<and> unat h' = unat h + byte_sum (take n (drop i d))"
  using assms
proof (induction d i n h rule: hash_from.induct)
  case (1 d i h)
  then show ?case by simp
next
  case (2 d i n h)
  then have i: "i < length d" by simp
  then have split: "take (Suc n) (drop i d) = d ! i # take n (drop (Suc i) d)"
    by (simp add: Cons_nth_drop_Suc[symmetric])
  then have "unat (h + ucast (d ! i)) = unat h + unat (d ! i)"
    using 2(3) by (intro unat_add_byte) simp
  then show ?case using 2(1)[of "d ! i"] 2(2,3) split i by (simp add: add.assoc)
qed

lemma hash_ref_bound: "hash_ref m \<le> 65535"
proof -
  have "byte_sum (take (unat (msize m)) (mdata m)) \<le> 255 * unat (msize m)"
    using byte_sum_le[of "take (unat (msize m)) (mdata m)"] by simp
  then show ?thesis
    using unat_byte_le[of "mtype m"] unat_byte_le[of "msize m"] by (simp add: hash_ref_def)
qed

text \<open>The loop stays inside the array: the size is a byte, the array has 260 entries.\<close>

lemma calculate_hash_exact:
  assumes "length (mdata m) = data_len"
  shows "\<exists>h. calculate_hash m = Done h \<and> unat h = hash_ref m"
proof -
  let ?h = "ucast (mtype m) + ucast (msize m) :: u16"
  have h: "unat ?h = unat (mtype m) + unat (msize m)"
    using unat_add_byte[of "ucast (mtype m)" "msize m"] unat_byte_le[of "mtype m"]
      unat_byte_le[of "msize m"] by simp
  have "0 + unat (msize m) \<le> length (mdata m)"
    using assms unat_byte_le[of "msize m"] by simp
  then show ?thesis
    using hash_from_sum[of 0 "unat (msize m)" "mdata m" ?h] hash_ref_bound[of m] h
    by (simp add: calculate_hash_def hash_ref_def Let_def)
qed

text \<open>
  C3. The checksum reads no byte outside the message, never wraps around in its 16 bits and
  equals the mathematical sum of the type, the size and the first \<open>size\<close> data bytes; the
  largest sum is 65535.
\<close>

theorem calculate_hash_no_wrap:
  assumes "length (mdata m) = data_len"
  shows "\<exists>h. calculate_hash m = Done h \<and>
    unat h = unat (mtype m) + unat (msize m) + (\<Sum>i<unat (msize m). unat (mdata m ! i)) \<and>
    unat (mtype m) + unat (msize m) + (\<Sum>i<unat (msize m). unat (mdata m ! i)) \<le> 65535"
proof -
  have "unat (msize m) \<le> length (mdata m)"
    using assms unat_byte_le[of "msize m"] by simp
  then have "byte_sum (take (unat (msize m)) (mdata m)) = (\<Sum>i<unat (msize m). unat (mdata m ! i))"
    by (simp add: byte_sum_def sum_list_sum_nth atLeast0LessThan min_def)
  then show ?thesis
    using calculate_hash_exact[OF assms] hash_ref_bound[of m] by (simp add: hash_ref_def)
qed

theorem calculate_hash_no_wrap_witness:
  "length (mdata \<lparr>mtype = 255, mhash = 0, msize = 255, mdata = replicate 260 255\<rparr>) = data_len \<and>
   (\<exists>h. calculate_hash \<lparr>mtype = 255, mhash = 0, msize = 255, mdata = replicate 260 255\<rparr> = Done h \<and>
        unat h = 65535)"
  using calculate_hash_no_wrap[of "\<lparr>mtype = 255, mhash = 0, msize = 255, mdata = replicate 260 255\<rparr>"]
  by auto

section \<open>Making a message\<close>

text \<open>
  The message of \<open>producer_task\<close>. \<open>r k\<close> is the result of the \<open>k\<close>-th call of \<open>rand\<close> in the
  loop body; the casts to \<open>uint8_t\<close> are \<open>of_nat\<close>. lab04 draws the size first and clears the
  whole structure with \<open>memset\<close>.
\<close>

definition fill_data :: "(nat \<Rightarrow> nat) \<Rightarrow> nat \<Rightarrow> u8 list \<Rightarrow> u8 list" where
  "fill_data r n d = map (\<lambda>i. of_nat (r i mod 256 + 1)) [0..<n] @ drop n d"

definition set_hash :: "message \<Rightarrow> message outcome" where
  "set_hash msg = obind (calculate_hash msg) (\<lambda>h. Done (msg\<lparr>mhash := h\<rparr>))"

definition produce_message :: "(nat \<Rightarrow> nat) \<Rightarrow> message outcome" where
  "produce_message r =
     (let size = of_nat (r 0 mod 256 + 1) :: u8;
          msg = zero_message;
          msg = msg\<lparr>mtype := of_nat (r 1 mod 256)\<rparr>;
          msg = msg\<lparr>msize := size\<rparr>;
          msg = msg\<lparr>mdata := fill_data (\<lambda>i. r (2 + i)) (unat size) (mdata msg)\<rparr>
      in set_hash msg)"

text \<open>What the consumer checks.\<close>

definition hash_matches :: "message \<Rightarrow> bool" where
  "hash_matches msg \<longleftrightarrow> calculate_hash msg = Done (mhash msg)"

definition message_ok :: "message \<Rightarrow> bool" where
  "message_ok msg \<longleftrightarrow> length (mdata msg) = data_len \<and> hash_matches msg"

lemma length_fill_data [simp]: "n \<le> length d \<Longrightarrow> length (fill_data r n d) = length d"
  by (simp add: fill_data_def)

lemma calculate_hash_mhash [simp]: "calculate_hash (m\<lparr>mhash := h\<rparr>) = calculate_hash m"
  by (simp add: calculate_hash_def)

lemma set_hash_ok:
  assumes "length (mdata m) = data_len"
  shows "\<exists>m'. set_hash m = Done m' \<and> message_ok m'"
  using calculate_hash_exact[OF assms] assms
  by (auto simp: set_hash_def message_ok_def hash_matches_def)

lemma produce_message_ok: "\<exists>m. produce_message r = Done m \<and> message_ok m"
proof -
  have "unat (of_nat (r 0 mod 256 + 1) :: u8) \<le> data_len"
    using unat_byte_le[of "of_nat (r 0 mod 256 + 1)"] by simp
  then show ?thesis
    unfolding produce_message_def Let_def
    by (intro set_hash_ok) (simp add: zero_message_def)
qed

end
