(* ===== verification/SysV_Queue.thy ===== *)
theory SysV_Queue
  imports Bounded_Fifo Messages
begin

text \<open>
  lab04/src/queue.c: the message queue in shared memory, guarded by a System V semaphore set
  (0 counts the free slots, 1 the stored messages, 2 is the lock).

  The semaphore operations, the shared structure and every function of queue.c, run by one
  process at a time. The critical sections are an instance of \<open>fifo_core\<close>, the whole calls of
  \<open>blocking_fifo\<close>. Theory \<open>SysV_System\<close> interleaves the processes.
\<close>

section \<open>System V semaphores\<close>

datatype errno = EINTR | EEXIST | EIDRM | EOTHER

datatype 'a sysres = Ok 'a | Wait | Err errno

type_synonym sembuf = "nat \<times> int"

text \<open>
  \<open>semop\<close> performs all operations of its array in one step, or waits: an operation that
  would make a value negative leaves the whole set unchanged.
\<close>

fun semop :: "nat list \<Rightarrow> sembuf list \<Rightarrow> nat list sysres" where
  "semop s [] = Ok s"
| "semop s ((n, d) # ops) =
     (if length s \<le> n then Err EOTHER
      else if int (s ! n) + d < 0 then Wait
      else semop (s[n := nat (int (s ! n) + d)]) ops)"

text \<open>
  \<open>safe_semop\<close> calls \<open>semop\<close> again as long as it is interrupted. \<open>es\<close> are the errors the
  kernel reports before it performs the operation.
\<close>

fun safe_semop :: "errno list \<Rightarrow> nat list \<Rightarrow> sembuf list \<Rightarrow> nat list sysres" where
  "safe_semop [] s sops = semop s sops"
| "safe_semop (e # es) s sops = (if e = EINTR then safe_semop es s sops else Err e)"

lemma safe_semop_eintr: "set es \<subseteq> {EINTR} \<Longrightarrow> safe_semop es = safe_semop []"
proof -
  assume "set es \<subseteq> {EINTR}"
  then have "safe_semop es s sops = safe_semop [] s sops" for s sops
    by (induction es) auto
  then show ?thesis by blast
qed

lemma safe_semop_never_eintr: "safe_semop es s sops \<noteq> Err EINTR"
proof (induction es)
  case Nil
  have "semop s sops \<noteq> Err EINTR" by (induction s sops rule: semop.induct) auto
  then show ?case by simp
qed auto

section \<open>The shared queue\<close>

definition MAX_QUEUE_SIZE :: nat where
  "MAX_QUEUE_SIZE = 10"

lemma MAX_QUEUE_SIZE_pos [simp]: "0 < MAX_QUEUE_SIZE"
  by (simp add: MAX_QUEUE_SIZE_def)

record queue4 =
  q_buffer :: "message list"
  q_head :: nat
  q_tail :: nat
  q_added :: c_int
  q_removed :: c_int
  q_free :: int

text \<open>The statements between the two \<open>semop\<close> calls.\<close>

definition push_body :: "queue4 \<Rightarrow> message \<Rightarrow> queue4 outcome" where
  "push_body q msg = obind (c_store (q_buffer q) (q_tail q) msg) (\<lambda>b.
     Done (q\<lparr>q_buffer := b,
            q_tail := (q_tail q + 1) mod MAX_QUEUE_SIZE,
            q_added := q_added q + 1,
            q_free := q_free q - 1\<rparr>))"

definition pop_body :: "queue4 \<Rightarrow> (message \<times> queue4) outcome" where
  "pop_body q = obind (c_load (q_buffer q) (q_head q)) (\<lambda>m.
     Done (m, q\<lparr>q_head := (q_head q + 1) mod MAX_QUEUE_SIZE,
               q_removed := q_removed q + 1,
               q_free := q_free q + 1\<rparr>))"

definition push_wait :: "sembuf list" where "push_wait = [(0, -1), (2, -1)]"
definition push_done :: "sembuf list" where "push_done = [(2, 1), (1, 1)]"
definition pop_wait :: "sembuf list" where "pop_wait = [(1, -1), (2, -1)]"
definition pop_done :: "sembuf list" where "pop_done = [(2, 1), (0, 1)]"

text \<open>
  \<open>queue_push\<close> ends the process when \<open>semop\<close> reports an error; \<open>queue_pop\<close> ignores the
  result and goes on. The state is the shared queue and the semaphore set.
\<close>

definition queue_push :: "errno list \<Rightarrow> errno list \<Rightarrow> queue4 \<times> nat list \<Rightarrow> message \<Rightarrow>
    (queue4 \<times> nat list) outcome" where
  "queue_push es1 es2 st msg = (case st of (q, s) \<Rightarrow>
     (case safe_semop es1 s push_wait of
        Err e \<Rightarrow> Exits
      | Wait \<Rightarrow> Blocks
      | Ok s1 \<Rightarrow> obind (push_body q msg) (\<lambda>q'.
          (case safe_semop es2 s1 push_done of
             Err e \<Rightarrow> Exits
           | Wait \<Rightarrow> Blocks
           | Ok s2 \<Rightarrow> Done (q', s2)))))"

definition queue_pop :: "errno list \<Rightarrow> errno list \<Rightarrow> queue4 \<times> nat list \<Rightarrow>
    (message \<times> queue4 \<times> nat list) outcome" where
  "queue_pop es1 es2 st = (case st of (q, s) \<Rightarrow>
     (case safe_semop es1 s pop_wait of
        Wait \<Rightarrow> Blocks
      | r \<Rightarrow> obind (pop_body q) (\<lambda>(m, q').
          (let s1 = (case r of Ok s' \<Rightarrow> s' | _ \<Rightarrow> s)
           in (case safe_semop es2 s1 pop_done of
                 Wait \<Rightarrow> Blocks
               | Ok s2 \<Rightarrow> Done (m, q', s2)
               | Err e \<Rightarrow> Done (m, q', s1))))))"

section \<open>Creating and destroying the queue\<close>

text \<open>
  The kernel objects under the two keys: the shared segment and the semaphore set, if they
  exist. A fresh segment is filled with zero bytes. The record of \<open>failures\<close> says which
  system calls fail for a reason other than \<open>EEXIST\<close>.
\<close>

record ipc =
  shm_seg :: "queue4 option"
  sem_set :: "nat list option"

record failures =
  shmget_fails :: bool
  shmget2_fails :: bool
  shmat_fails :: bool
  semget_fails :: bool
  semctl_fails :: bool

definition zero_queue :: queue4 where
  "zero_queue = \<lparr>q_buffer = replicate MAX_QUEUE_SIZE zero_message, q_head = 0, q_tail = 0,
     q_added = 0, q_removed = 0, q_free = 0\<rparr>"

text \<open>\<open>shmget\<close> with \<open>IPC_CREAT | IPC_EXCL\<close> (lines 21--33): a stale segment is removed first.\<close>

definition obtain_segment :: "failures \<Rightarrow> ipc \<Rightarrow> (ipc \<times> bool) option" where
  "obtain_segment f k =
     (if shmget_fails f then None
      else case shm_seg k of
        None \<Rightarrow> Some (k\<lparr>shm_seg := Some zero_queue\<rparr>, True)
      | Some _ \<Rightarrow>
          (let k' = k\<lparr>shm_seg := None\<rparr>
           in if shmget2_fails f then Some (k', False)
              else Some (k'\<lparr>shm_seg := Some zero_queue\<rparr>, True)))"

definition reset_queue :: "queue4 \<Rightarrow> queue4" where
  "reset_queue q = q\<lparr>q_head := 0, q_tail := 0, q_added := 0, q_removed := 0,
     q_free := int MAX_QUEUE_SIZE\<rparr>"

definition queue_init :: "failures \<Rightarrow> ipc \<Rightarrow> ipc \<times> queue4 option" where
  "queue_init f k = (case obtain_segment f k of
     None \<Rightarrow> (k, None)
   | Some (k1, valid) \<Rightarrow>
       (if \<not> valid \<or> shmat_fails f then (k1, None)
        else case shm_seg k1 of
          None \<Rightarrow> (k1, None)
        | Some q0 \<Rightarrow>
            (case sem_set k1 of
               Some s \<Rightarrow> (k1\<lparr>shm_seg := Some (reset_queue q0)\<rparr>, Some (reset_queue q0))
             | None \<Rightarrow>
                 (if semget_fails f then (k1, None)
                  else let k2 = k1\<lparr>sem_set := Some [0, 0, 0]\<rparr>
                       in if semctl_fails f then (k2, None)
                          else (k2\<lparr>sem_set := Some [MAX_QUEUE_SIZE, 0, 1],
                                  shm_seg := Some (reset_queue q0)\<rparr>,
                                Some (reset_queue q0))))))"

definition queue_destroy :: "ipc \<Rightarrow> ipc" where
  "queue_destroy k = k\<lparr>sem_set := None, shm_seg := None\<rparr>"

section \<open>Representation invariant and the contract\<close>

definition used :: "queue4 \<Rightarrow> nat" where
  "used q = nat (int MAX_QUEUE_SIZE - q_free q)"

definition contents4 :: "queue4 \<Rightarrow> message list" where
  "contents4 q = ring_list (q_buffer q) (q_head q) (used q)"

definition invar4 :: "queue4 \<Rightarrow> bool" where
  "invar4 q \<longleftrightarrow> length (q_buffer q) = MAX_QUEUE_SIZE \<and> q_head q < MAX_QUEUE_SIZE \<and>
     0 \<le> q_free q \<and> q_free q \<le> int MAX_QUEUE_SIZE \<and>
     q_tail q = (q_head q + used q) mod MAX_QUEUE_SIZE \<and>
     q_added q - q_removed q = of_nat (used q)"

lemma length_contents4 [simp]: "length (contents4 q) = used q"
  by (simp add: contents4_def)

lemma used_int: "invar4 q \<Longrightarrow> int (used q) = int MAX_QUEUE_SIZE - q_free q"
  by (simp add: invar4_def used_def)

lemma used_le: "invar4 q \<Longrightarrow> used q \<le> MAX_QUEUE_SIZE"
  using used_int[of q] by (simp add: invar4_def)

lemma push_body_ok:
  assumes "invar4 q" "used q < MAX_QUEUE_SIZE"
  shows "\<exists>q'. push_body q m = Done q' \<and> invar4 q' \<and> contents4 q' = contents4 q @ [m] \<and>
    used q' = Suc (used q)"
proof -
  let ?q' = "q\<lparr>q_buffer := (q_buffer q)[q_tail q := m],
    q_tail := (q_tail q + 1) mod MAX_QUEUE_SIZE, q_added := q_added q + 1, q_free := q_free q - 1\<rparr>"
  have t: "q_tail q = (q_head q + used q) mod length (q_buffer q)"
    and len: "used q < length (q_buffer q)"
    using assms by (simp_all add: invar4_def)
  have u: "used ?q' = Suc (used q)"
    using assms(1) unfolding invar4_def used_def by simp linarith
  have "q_tail q < length (q_buffer q)"
    using t len by (metis mod_less_divisor not_less_zero neq0_conv)
  then have "push_body q m = Done ?q'" by (simp add: push_body_def)
  moreover have "contents4 ?q' = contents4 q @ [m]"
    using ring_list_push[OF len t, of m] u by (simp add: contents4_def)
  moreover have "invar4 ?q'"
    using assms u used_int[OF assms(1)]
    by (simp add: invar4_def ring_simps)
  ultimately show ?thesis using u by blast
qed

lemma pop_body_ok:
  assumes "invar4 q" "0 < used q"
  shows "\<exists>q'. pop_body q = Done (hd (contents4 q), q') \<and> invar4 q' \<and>
    contents4 q' = tl (contents4 q) \<and> used q' = used q - 1"
proof -
  let ?q' = "q\<lparr>q_head := (q_head q + 1) mod MAX_QUEUE_SIZE, q_removed := q_removed q + 1,
    q_free := q_free q + 1\<rparr>"
  have h: "q_head q < length (q_buffer q)" and l: "length (q_buffer q) = MAX_QUEUE_SIZE"
    using assms by (simp_all add: invar4_def)
  have u: "used ?q' = used q - 1"
    using used_int[OF assms(1)] assms(2) by (simp add: used_def)
  have "pop_body q = Done (hd (contents4 q), ?q')"
    using ring_list_hd[OF assms(2) h] h by (simp add: pop_body_def contents4_def)
  moreover have "contents4 ?q' = tl (contents4 q)"
    using ring_list_pop[OF assms(2), of "q_buffer q" "q_head q"] u l by (simp add: contents4_def)
  moreover have "invar4 ?q'"
  proof -
    have "(of_nat (used q - 1) :: c_int) = of_nat (used q) - 1"
      using assms(2) by (simp add: of_nat_diff)
    then show ?thesis
      using assms u used_int[OF assms(1)] ring_head_step[OF assms(2), of "q_head q" MAX_QUEUE_SIZE]
      by (simp add: invar4_def MAX_QUEUE_SIZE_def)
  qed
  ultimately show ?thesis using u by blast
qed

interpretation core4: fifo_core push_body pop_body contents4 "\<lambda>_. MAX_QUEUE_SIZE" invar4
proof unfold_locales
  fix q m assume q: "invar4 q"
  show "length (contents4 q) \<le> MAX_QUEUE_SIZE" using used_le[OF q] by simp
  show "\<exists>q'. push_body q m = Done q' \<and> invar4 q' \<and> contents4 q' = contents4 q @ [m] \<and>
    MAX_QUEUE_SIZE = MAX_QUEUE_SIZE" if "length (contents4 q) < MAX_QUEUE_SIZE"
    using push_body_ok[OF q, of m] that by auto
  show "\<exists>q'. pop_body q = Done (hd (contents4 q), q') \<and> invar4 q' \<and>
      contents4 q' = tl (contents4 q) \<and> MAX_QUEUE_SIZE = MAX_QUEUE_SIZE" if "contents4 q \<noteq> []"
    using pop_body_ok[OF q] that by (metis length_contents4 length_greater_0_conv)
qed

section \<open>The whole calls\<close>

text \<open>Between calls the semaphores mirror the queue: free slots, stored messages, lock free.\<close>

definition sync4 :: "queue4 \<times> nat list \<Rightarrow> bool" where
  "sync4 st \<longleftrightarrow> invar4 (fst st) \<and> snd st = [MAX_QUEUE_SIZE - used (fst st), used (fst st), 1]"

lemmas sem_ops = push_wait_def push_done_def pop_wait_def pop_done_def

lemma semop_push_wait: "semop [a, b, c] push_wait = (if 0 < a \<and> 0 < c then Ok [a - 1, b, c - 1] else Wait)"
  by (auto simp: sem_ops numeral_2_eq_2 nat_diff_distrib)

lemma semop_pop_wait: "semop [a, b, c] pop_wait = (if 0 < b \<and> 0 < c then Ok [a, b - 1, c - 1] else Wait)"
  by (auto simp: sem_ops numeral_2_eq_2 nat_diff_distrib)

lemma semop_push_done: "semop [a, b, c] push_done = Ok [a, Suc b, Suc c]"
  by (simp add: sem_ops numeral_2_eq_2 nat_add_distrib)

lemma semop_pop_done: "semop [a, b, c] pop_done = Ok [Suc a, b, Suc c]"
  by (simp add: sem_ops numeral_2_eq_2 nat_add_distrib)

lemmas semop_simps = semop_push_wait semop_pop_wait semop_push_done semop_pop_done

lemma queue_push_ok:
  assumes "sync4 (q, s)" "used q < MAX_QUEUE_SIZE"
  shows "\<exists>q' s'. queue_push [] [] (q, s) m = Done (q', s') \<and> sync4 (q', s') \<and>
    contents4 q' = contents4 q @ [m]"
proof -
  obtain q' where "push_body q m = Done q'" "invar4 q'" "contents4 q' = contents4 q @ [m]"
    "used q' = Suc (used q)"
    using push_body_ok[of q m] assms by (auto simp: sync4_def)
  then show ?thesis
    using assms by (auto simp: queue_push_def sync4_def semop_simps)
qed

lemma queue_pop_ok:
  assumes "sync4 (q, s)" "0 < used q"
  shows "\<exists>q' s'. queue_pop [] [] (q, s) = Done (hd (contents4 q), q', s') \<and> sync4 (q', s') \<and>
    contents4 q' = tl (contents4 q)"
proof -
  obtain q' where "pop_body q = Done (hd (contents4 q), q')" "invar4 q'"
    "contents4 q' = tl (contents4 q)" "used q' = used q - 1"
    using pop_body_ok[of q] assms by (auto simp: sync4_def)
  then show ?thesis
    using assms used_le[of q] by (auto simp: queue_pop_def sync4_def semop_simps)
qed

interpretation call4: blocking_fifo "queue_push [] []" "queue_pop [] []" "contents4 \<circ> fst"
  "\<lambda>_. MAX_QUEUE_SIZE" sync4
proof unfold_locales
  fix st :: "queue4 \<times> nat list" and m
  assume st: "sync4 st"
  obtain q s where qs [simp]: "st = (q, s)" by force
  show "length ((contents4 \<circ> fst) st) \<le> MAX_QUEUE_SIZE"
    using st used_le[of q] by (simp add: sync4_def)
  show "\<exists>st'. queue_push [] [] st m = Done st' \<and> sync4 st' \<and>
      (contents4 \<circ> fst) st' = (contents4 \<circ> fst) st @ [m] \<and> MAX_QUEUE_SIZE = MAX_QUEUE_SIZE"
    if "length ((contents4 \<circ> fst) st) < MAX_QUEUE_SIZE"
    using queue_push_ok[of q s m] st that by auto
  show "\<exists>st'. queue_pop [] [] st = Done (hd ((contents4 \<circ> fst) st), st') \<and> sync4 st' \<and>
      (contents4 \<circ> fst) st' = tl ((contents4 \<circ> fst) st) \<and> MAX_QUEUE_SIZE = MAX_QUEUE_SIZE"
    if "(contents4 \<circ> fst) st \<noteq> []"
  proof -
    have "0 < used q" using that length_contents4[of q] by (simp flip: length_greater_0_conv)
    then show ?thesis using queue_pop_ok[of q s] st by auto
  qed
  show "queue_push [] [] st m = Blocks" if "length ((contents4 \<circ> fst) st) = MAX_QUEUE_SIZE"
    using st that by (simp add: queue_push_def sync4_def semop_simps)
  show "queue_pop [] [] st = Blocks" if "(contents4 \<circ> fst) st = []"
  proof -
    have "used q = 0" using that length_contents4[of q] by simp
    then show ?thesis using st by (simp add: queue_pop_def sync4_def semop_simps)
  qed
qed

text \<open>Interrupted \<open>semop\<close> calls are invisible: the retry loop gives the plain calls.\<close>

lemma queue_push_eintr:
  "set es1 \<subseteq> {EINTR} \<Longrightarrow> set es2 \<subseteq> {EINTR} \<Longrightarrow> queue_push es1 es2 = queue_push [] []"
  unfolding queue_push_def by (simp only: safe_semop_eintr)

lemma queue_pop_eintr:
  "set es1 \<subseteq> {EINTR} \<Longrightarrow> set es2 \<subseteq> {EINTR} \<Longrightarrow> queue_pop es1 es2 = queue_pop [] []"
  unfolding queue_pop_def by (simp only: safe_semop_eintr)

end
