(* ===== verification/SysV_System.thy ===== *)
theory SysV_System
  imports SysV_Queue
begin

text \<open>
  lab04/src/main.c: producer and consumer processes on the shared queue of \<open>SysV_Queue\<close>.

  A process is the point it has reached in its loop; a step moves one process past one
  \<open>semop\<close> call or one critical section, so the processes interleave wherever the code lets
  them. \<open>s_in\<close> and \<open>s_out\<close> are ghost state: the messages inserted and removed so far. The
  invariant ties the three semaphores to the queue and to where the processes are; mutual
  exclusion, first-in first-out delivery, the consumers' checksum test and deadlock freedom
  follow from it. The last section is about \<open>SIGKILL\<close>, which the program sends to a process
  without regard to the lock it may hold.
\<close>

section \<open>Processes and steps\<close>

datatype proc4 =
    ProdIdle                  \<comment> \<open>before the next message is made\<close>
  | ProdWait message          \<comment> \<open>in \<open>queue_push\<close>, at the first \<open>semop\<close>\<close>
  | ProdCrit message          \<comment> \<open>holds the lock, queue not yet changed\<close>
  | ProdLeave                 \<comment> \<open>queue changed, at the second \<open>semop\<close>\<close>
  | ConsIdle
  | ConsWait
  | ConsCrit
  | ConsLeave message
  | Killed

record sys4 =
  s_q :: queue4
  s_sem :: "nat list"
  s_procs :: "proc4 list"
  s_in :: "message list"
  s_out :: "message list"

definition move :: "nat \<Rightarrow> proc4 \<Rightarrow> sys4 \<Rightarrow> sys4" where
  "move i p s = s\<lparr>s_procs := (s_procs s)[i := p]\<rparr>"

definition at :: "sys4 \<Rightarrow> nat \<Rightarrow> proc4 \<Rightarrow> bool" where
  "at s i p \<longleftrightarrow> i < length (s_procs s) \<and> s_procs s ! i = p"

text \<open>The steps of a process inside \<open>queue_push\<close> or \<open>queue_pop\<close>.\<close>

inductive qstep4 :: "sys4 \<Rightarrow> sys4 \<Rightarrow> bool" where
  push_lock: "at s i (ProdWait m) \<Longrightarrow> semop (s_sem s) push_wait = Ok sem' \<Longrightarrow>
    qstep4 s (move i (ProdCrit m) (s\<lparr>s_sem := sem'\<rparr>))"
| push_store: "at s i (ProdCrit m) \<Longrightarrow> push_body (s_q s) m = Done q' \<Longrightarrow>
    qstep4 s (move i ProdLeave (s\<lparr>s_q := q', s_in := s_in s @ [m]\<rparr>))"
| push_unlock: "at s i ProdLeave \<Longrightarrow> semop (s_sem s) push_done = Ok sem' \<Longrightarrow>
    qstep4 s (move i ProdIdle (s\<lparr>s_sem := sem'\<rparr>))"
| pop_lock: "at s i ConsWait \<Longrightarrow> semop (s_sem s) pop_wait = Ok sem' \<Longrightarrow>
    qstep4 s (move i ConsCrit (s\<lparr>s_sem := sem'\<rparr>))"
| pop_take: "at s i ConsCrit \<Longrightarrow> pop_body (s_q s) = Done (m, q') \<Longrightarrow>
    qstep4 s (move i (ConsLeave m) (s\<lparr>s_q := q', s_out := s_out s @ [m]\<rparr>))"
| pop_unlock: "at s i (ConsLeave m) \<Longrightarrow> semop (s_sem s) pop_done = Ok sem' \<Longrightarrow>
    qstep4 s (move i ConsIdle (s\<lparr>s_sem := sem'\<rparr>))"

text \<open>
  All steps: the queue steps, a process that starts its next call, \<open>fork\<close>, and \<open>SIGKILL\<close>
  to a process that does not hold the lock.
\<close>

inductive step4 :: "sys4 \<Rightarrow> sys4 \<Rightarrow> bool" where
  queue_step: "qstep4 s t \<Longrightarrow> step4 s t"
| fork_producer: "step4 s (s\<lparr>s_procs := s_procs s @ [ProdIdle]\<rparr>)"
| fork_consumer: "step4 s (s\<lparr>s_procs := s_procs s @ [ConsIdle]\<rparr>)"
| produce: "at s i ProdIdle \<Longrightarrow> produce_message r = Done m \<Longrightarrow> step4 s (move i (ProdWait m) s)"
| consume: "at s i ConsIdle \<Longrightarrow> step4 s (move i ConsWait s)"
| kill_outside: "at s i p \<Longrightarrow> p \<in> {ProdIdle, ConsIdle, ConsWait} \<or> (\<exists>m. p = ProdWait m) \<Longrightarrow>
    step4 s (move i Killed s)"

inductive_cases qstep4E: "qstep4 s t"
inductive_cases step4E: "step4 s t"

text \<open>The state after \<open>queue_init\<close> with no leftover kernel objects.\<close>

definition no_failures :: failures where
  "no_failures = \<lparr>shmget_fails = False, shmget2_fails = False, shmat_fails = False,
     semget_fails = False, semctl_fails = False\<rparr>"

definition init4 :: "sys4 \<Rightarrow> bool" where
  "init4 s \<longleftrightarrow> (case queue_init no_failures \<lparr>shm_seg = None, sem_set = None\<rparr> of
     (k, r) \<Rightarrow> r = Some (s_q s) \<and> sem_set k = Some (s_sem s)) \<and>
     s_procs s = [] \<and> s_in s = [] \<and> s_out s = []"

definition reachable4 :: "sys4 \<Rightarrow> bool" where
  "reachable4 s \<longleftrightarrow> (\<exists>s0. init4 s0 \<and> step4\<^sup>*\<^sup>* s0 s)"

section \<open>The invariant\<close>

fun holds_lock :: "proc4 \<Rightarrow> nat" where
  "holds_lock (ProdCrit m) = 1"
| "holds_lock ProdLeave = 1"
| "holds_lock ConsCrit = 1"
| "holds_lock (ConsLeave m) = 1"
| "holds_lock p = 0"

text \<open>Slots taken from semaphore 0 that are not (or no longer) in the queue.\<close>

fun owes_slot :: "proc4 \<Rightarrow> nat" where
  "owes_slot (ProdCrit m) = 1"
| "owes_slot (ConsLeave m) = 1"
| "owes_slot p = 0"

text \<open>Messages in the queue that semaphore 1 does not (or not yet) count.\<close>

fun owes_msg :: "proc4 \<Rightarrow> nat" where
  "owes_msg ProdLeave = 1"
| "owes_msg ConsCrit = 1"
| "owes_msg p = 0"

fun carries_ok :: "proc4 \<Rightarrow> bool" where
  "carries_ok (ProdWait m) = message_ok m"
| "carries_ok (ProdCrit m) = message_ok m"
| "carries_ok p = True"

definition counts4 :: "sys4 \<Rightarrow> bool" where
  "counts4 s \<longleftrightarrow> (\<exists>a b c. s_sem s = [a, b, c] \<and>
     a + weight owes_slot (s_procs s) + used (s_q s) = MAX_QUEUE_SIZE \<and>
     b + weight owes_msg (s_procs s) = used (s_q s) \<and>
     c + weight holds_lock (s_procs s) = 1)"

definition data4 :: "sys4 \<Rightarrow> bool" where
  "data4 s \<longleftrightarrow> invar4 (s_q s) \<and> s_in s = s_out s @ contents4 (s_q s) \<and>
     list_all message_ok (s_in s) \<and> list_all carries_ok (s_procs s)"

definition inv4 :: "sys4 \<Rightarrow> bool" where
  "inv4 s \<longleftrightarrow> counts4 s \<and> data4 s"

lemmas owes_simps = holds_lock.simps owes_slot.simps owes_msg.simps

text \<open>What a process that stands in a critical section knows about the queue.\<close>

lemma crit_room:
  assumes "counts4 s" "at s i (ProdCrit m)"
  shows "used (s_q s) < MAX_QUEUE_SIZE"
proof -
  have "1 \<le> weight owes_slot (s_procs s)"
    using assms(2) weight_ge[of i "s_procs s" "ProdCrit m" owes_slot] by (simp add: at_def)
  then show ?thesis using assms(1) by (auto simp: counts4_def)
qed

lemma crit_some:
  assumes "counts4 s" "at s i ConsCrit"
  shows "0 < used (s_q s)"
proof -
  have "1 \<le> weight owes_msg (s_procs s)"
    using assms(2) weight_ge[of i "s_procs s" ConsCrit owes_msg] by (simp add: at_def)
  then show ?thesis using assms(1) by (auto simp: counts4_def)
qed

lemma carries_move:
  "list_all carries_ok ps \<Longrightarrow> carries_ok p \<Longrightarrow> list_all carries_ok (ps[i := p])"
  by (auto simp: list_all_iff dest: set_update_subset_insert[THEN subsetD])

lemma list_all_at: "list_all P (s_procs s) \<Longrightarrow> at s i p \<Longrightarrow> P p"
  by (auto simp: at_def list_all_length)

lemma move_simps [simp]:
  "s_q (move i p s) = s_q s" "s_sem (move i p s) = s_sem s" "s_in (move i p s) = s_in s"
  "s_out (move i p s) = s_out s" "s_procs (move i p s) = (s_procs s)[i := p]"
  by (simp_all add: move_def)

lemma weight_at:
  assumes "at s i p"
  shows "weight w ((s_procs s)[i := p']) + w p = weight w (s_procs s) + w p'"
  using weight_update[of i "s_procs s" w p'] assms by (simp add: at_def)

lemma counts4_I:
  assumes "s_sem s = [a, b, c]"
    "a + weight owes_slot (s_procs s) + used (s_q s) = MAX_QUEUE_SIZE"
    "b + weight owes_msg (s_procs s) = used (s_q s)"
    "c + weight holds_lock (s_procs s) = 1"
  shows "counts4 s"
  using assms by (auto simp: counts4_def)

lemma counts4_E:
  assumes "counts4 s"
  obtains a b c where "s_sem s = [a, b, c]"
    "a + weight owes_slot (s_procs s) + used (s_q s) = MAX_QUEUE_SIZE"
    "b + weight owes_msg (s_procs s) = used (s_q s)"
    "c + weight holds_lock (s_procs s) = 1"
  using assms by (auto simp: counts4_def)

lemmas weights_at = weight_at[where w = owes_slot] weight_at[where w = owes_msg]
  weight_at[where w = holds_lock]

lemma qstep4_counts:
  assumes "qstep4 s t" "counts4 s" "invar4 (s_q s)"
  shows "counts4 t"
proof -
  obtain a b c where abc: "s_sem s = [a, b, c]"
    "a + weight owes_slot (s_procs s) + used (s_q s) = MAX_QUEUE_SIZE"
    "b + weight owes_msg (s_procs s) = used (s_q s)"
    "c + weight holds_lock (s_procs s) = 1"
    using assms(2) by (rule counts4_E)
  show ?thesis
    using assms(1)
  proof (cases rule: qstep4.cases)
    case (push_lock i m sem')
    then show ?thesis
      using abc weights_at[OF push_lock(2), of "ProdCrit m"]
      by (intro counts4_I[of _ "a - 1" b "c - 1"]) (auto simp: semop_simps split: if_splits)
  next
    case (push_store i m q')
    have "used q' = Suc (used (s_q s))"
      using push_body_ok[OF assms(3) crit_room[OF assms(2) push_store(2)], of m] push_store(3) by auto
    then show ?thesis
      using abc weights_at[OF push_store(2), of ProdLeave] push_store(1)
      by (intro counts4_I[of _ a b c]) simp_all
  next
    case (push_unlock i sem')
    then show ?thesis
      using abc weights_at[OF push_unlock(2), of ProdIdle]
      by (intro counts4_I[of _ a "Suc b" "Suc c"]) (auto simp: semop_simps)
  next
    case (pop_lock i sem')
    then show ?thesis
      using abc weights_at[OF pop_lock(2), of ConsCrit]
      by (intro counts4_I[of _ a "b - 1" "c - 1"]) (auto simp: semop_simps split: if_splits)
  next
    case (pop_take i m q')
    have "0 < used (s_q s)" "used q' = used (s_q s) - 1"
      using pop_body_ok[OF assms(3)] crit_some[OF assms(2) pop_take(2)] pop_take(3) by auto
    then show ?thesis
      using abc weights_at[OF pop_take(2), of "ConsLeave m"] pop_take(1)
      by (intro counts4_I[of _ a b c]) simp_all
  next
    case (pop_unlock i m sem')
    then show ?thesis
      using abc weights_at[OF pop_unlock(2), of ConsIdle]
      by (intro counts4_I[of _ "Suc a" b "Suc c"]) (auto simp: semop_simps)
  qed
qed

lemma qstep4_data:
  assumes "qstep4 s t" "counts4 s" "data4 s"
  shows "data4 t"
  using assms(1)
proof (cases rule: qstep4.cases)
  case (push_lock i m sem')
  then show ?thesis
    using assms(3) list_all_at[of carries_ok s i "ProdWait m"] by (auto simp: data4_def carries_move)
next
  case (push_store i m q')
  have room: "length (contents4 (s_q s)) < MAX_QUEUE_SIZE"
    using crit_room[OF assms(2) push_store(2)] by simp
  have inv: "invar4 (s_q s)" using assms(3) by (simp add: data4_def)
  have "message_ok m"
    using assms(3) list_all_at[of carries_ok s i "ProdCrit m"] push_store(2) by (simp add: data4_def)
  then show ?thesis
    using push_store assms(3) core4.pushD(1,2)[OF inv room push_store(3)]
      core4.history_push[OF inv room push_store(3), of "s_in s" "s_out s"]
    by (auto simp: data4_def carries_move)
next
  case (pop_take i m q')
  have inv: "invar4 (s_q s)" using assms(3) by (simp add: data4_def)
  have "contents4 (s_q s) \<noteq> []"
    using crit_some[OF assms(2) pop_take(2)] by (simp flip: length_greater_0_conv)
  note pop = inv this pop_take(3)
  show ?thesis
    using pop_take assms(3) core4.popD(1)[OF pop] core4.history_pop[OF pop, of "s_in s" "s_out s"]
    by (auto simp: data4_def carries_move)
qed (use assms(3) in \<open>auto simp: data4_def carries_move\<close>)

lemma other_step4_counts:
  assumes "step4 s t" "\<not> qstep4 s t" "counts4 s"
  shows "counts4 t"
proof -
  obtain a b c where abc: "s_sem s = [a, b, c]"
    "a + weight owes_slot (s_procs s) + used (s_q s) = MAX_QUEUE_SIZE"
    "b + weight owes_msg (s_procs s) = used (s_q s)"
    "c + weight holds_lock (s_procs s) = 1"
    using assms(3) by (rule counts4_E)
  from assms(1) show ?thesis
  proof (cases rule: step4.cases)
    case (produce i r m)
    then show ?thesis
      using abc weights_at[OF produce(2), of "ProdWait m"] by (intro counts4_I[of _ a b c]) simp_all
  next
    case (consume i)
    then show ?thesis
      using abc weights_at[OF consume(2), of ConsWait] by (intro counts4_I[of _ a b c]) simp_all
  next
    case (kill_outside i p)
    then show ?thesis
      using abc weights_at[OF kill_outside(2), of Killed] by (intro counts4_I[of _ a b c]) auto
  qed (use abc assms(2) in \<open>auto intro!: counts4_I[of _ a b c]\<close>)
qed

lemma other_step4_data:
  assumes "step4 s t" "\<not> qstep4 s t" "data4 s"
  shows "data4 t"
  using assms(1)
proof (cases rule: step4.cases)
  case (produce i r m)
  then have "message_ok m" using produce_message_ok[of r] by auto
  then show ?thesis using produce assms(3) by (auto simp: data4_def carries_move)
qed (use assms(2,3) in \<open>auto simp: data4_def carries_move\<close>)

lemma step4_inv: "step4 s t \<Longrightarrow> inv4 s \<Longrightarrow> inv4 t"
  unfolding inv4_def
  using qstep4_counts qstep4_data other_step4_counts other_step4_data by (metis data4_def)

lemma queue_init_fresh:
  "queue_init no_failures \<lparr>shm_seg = None, sem_set = None\<rparr> =
    (\<lparr>shm_seg = Some (reset_queue zero_queue), sem_set = Some [MAX_QUEUE_SIZE, 0, 1]\<rparr>,
     Some (reset_queue zero_queue))"
  by (simp add: queue_init_def obtain_segment_def no_failures_def Let_def)

lemma reset_zero_queue:
  "invar4 (reset_queue zero_queue)" "used (reset_queue zero_queue) = 0"
  "contents4 (reset_queue zero_queue) = []"
  by (simp_all add: reset_queue_def zero_queue_def invar4_def used_def contents4_def)

lemma init4_iff: "init4 s \<longleftrightarrow> s_q s = reset_queue zero_queue \<and> s_sem s = [MAX_QUEUE_SIZE, 0, 1] \<and>
    s_procs s = [] \<and> s_in s = [] \<and> s_out s = []"
  by (auto simp: init4_def queue_init_fresh)

lemma init4_inv: "init4 s \<Longrightarrow> inv4 s"
  by (simp add: init4_iff inv4_def counts4_def data4_def reset_zero_queue)

lemma reachable4_inv:
  assumes "reachable4 s"
  shows "inv4 s"
proof -
  obtain s0 where "init4 s0" "step4\<^sup>*\<^sup>* s0 s" using assms by (auto simp: reachable4_def)
  from this(2) show ?thesis
    by (induction rule: rtranclp_induct) (use \<open>init4 s0\<close> init4_inv step4_inv in auto)
qed

section \<open>Properties of every reachable state\<close>

lemma in_critical_sections:
  assumes "inv4 s"
  shows "at s i (ProdCrit m) \<Longrightarrow> \<exists>q'. push_body (s_q s) m = Done q'"
    and "at s i ConsCrit \<Longrightarrow> \<exists>m q'. pop_body (s_q s) = Done (m, q')"
proof -
  have c: "counts4 s" and d: "invar4 (s_q s)" using assms by (simp_all add: inv4_def data4_def)
  show "\<exists>q'. push_body (s_q s) m = Done q'" if "at s i (ProdCrit m)"
    using push_body_ok[OF d crit_room[OF c that]] by blast
  show "\<exists>m q'. pop_body (s_q s) = Done (m, q')" if "at s i ConsCrit"
    using pop_body_ok[OF d crit_some[OF c that]] by blast
qed

lemma lock_unique:
  assumes "counts4 s" "at s i p" "at s j p'" "holds_lock p = 1" "holds_lock p' = 1"
  shows "i = j"
proof (rule ccontr)
  assume "i \<noteq> j"
  then have "holds_lock p + holds_lock p' \<le> weight holds_lock (s_procs s)"
    using weight_two_le[of i "s_procs s" j holds_lock] assms(2,3) by (simp add: at_def)
  then show False using assms(1,4,5) by (auto simp: counts4_def)
qed

text \<open>A process that holds the lock can always go on.\<close>

lemma holder_steps:
  assumes "inv4 s" "at s k p" "holds_lock p = 1"
  shows "\<exists>t. qstep4 s t"
proof -
  obtain a b c where sem: "s_sem s = [a, b, c]"
    using assms(1) by (auto simp: inv4_def elim: counts4_E)
  show ?thesis
  proof (cases p)
    case (ProdCrit m)
    then show ?thesis using in_critical_sections(1)[OF assms(1)] assms(2) push_store by blast
  next
    case ProdLeave
    then show ?thesis using push_unlock assms(2) sem semop_push_done by metis
  next
    case ConsCrit
    then show ?thesis using in_critical_sections(2)[OF assms(1)] assms(2) pop_take by blast
  next
    case (ConsLeave m)
    then show ?thesis using pop_unlock assms(2) sem semop_pop_done by metis
  qed (use assms(3) in auto)
qed

text \<open>
  A concrete run: one producer is forked, makes a message and enters its critical section.
\<close>

definition start4 :: sys4 where
  "start4 = \<lparr>s_q = reset_queue zero_queue, s_sem = [MAX_QUEUE_SIZE, 0, 1], s_procs = [],
     s_in = [], s_out = []\<rparr>"

lemma init4_start4: "init4 start4"
  by (simp add: init4_iff start4_def)

lemma reachable4_start: "reachable4 start4"
  using init4_start4 by (auto simp: reachable4_def)

lemma reachable4_step: "reachable4 s \<Longrightarrow> step4 s t \<Longrightarrow> reachable4 t"
  unfolding reachable4_def by (meson rtranclp.rtrancl_into_rtrancl)

lemma run_to_crit:
  "\<exists>s m. reachable4 s \<and> at s 0 (ProdCrit m) \<and> at s 1 ConsIdle \<and> length (s_procs s) = 2 \<and>
     s_q s = reset_queue zero_queue \<and> s_in s = []"
proof -
  obtain m where m: "produce_message (\<lambda>_. 0) = Done m" using produce_message_ok by blast
  let ?s1 = "start4\<lparr>s_procs := [ProdIdle]\<rparr>"
  let ?s2 = "start4\<lparr>s_procs := [ProdIdle, ConsIdle]\<rparr>"
  let ?s3 = "move 0 (ProdWait m) ?s2"
  let ?s4 = "move 0 (ProdCrit m) (?s3\<lparr>s_sem := [MAX_QUEUE_SIZE - 1, 0, 0]\<rparr>)"
  have "step4 start4 ?s1" using fork_producer[of start4] by (simp add: start4_def)
  then have r1: "reachable4 ?s1" by (rule reachable4_step[OF reachable4_start])
  have "step4 ?s1 ?s2" using fork_consumer[of ?s1] by simp
  then have r2: "reachable4 ?s2" by (rule reachable4_step[OF r1])
  have "step4 ?s2 ?s3" using m by (intro produce) (simp_all add: at_def)
  then have r3: "reachable4 ?s3" by (rule reachable4_step[OF r2])
  have "step4 ?s3 ?s4"
    by (intro queue_step push_lock) (simp_all add: at_def start4_def semop_simps)
  then have "reachable4 ?s4" by (rule reachable4_step[OF r3])
  then show ?thesis by (intro exI[of _ ?s4] exI[of _ m]) (simp add: at_def start4_def)
qed

section \<open>The theorems about the program\<close>

text \<open>
  C2. At no reachable state do two processes stand between their lock and unlock \<open>semop\<close>
  calls: the critical sections of \<open>queue_push\<close> and \<open>queue_pop\<close> exclude each other.
\<close>

theorem sysv_mutual_exclusion:
  assumes "reachable4 s" "at s i p" "at s j p'" "holds_lock p = 1" "holds_lock p' = 1"
  shows "i = j"
  using lock_unique[OF _ assms(2-5)] reachable4_inv[OF assms(1)] by (simp add: inv4_def)

theorem sysv_mutual_exclusion_witness:
  "\<exists>s m. reachable4 s \<and> at s 0 (ProdCrit m) \<and> (\<forall>j p'. at s j p' \<and> holds_lock p' = 1 \<longrightarrow> 0 = j)"
proof -
  obtain s m where s: "reachable4 s" "at s 0 (ProdCrit m)" using run_to_crit by blast
  have "\<forall>j p'. at s j p' \<and> holds_lock p' = 1 \<longrightarrow> 0 = j"
    using sysv_mutual_exclusion[OF s] by auto
  then show ?thesis using s by blast
qed



text \<open>
  C4. A message that a consumer takes out of the queue always passes the checksum test of
  \<open>consumer_task\<close>, and no process ever stores or loads outside the ring: the two critical
  sections run to their end in every reachable state.
\<close>

theorem sysv_consumer_hash_matches:
  assumes "reachable4 s"
  shows "(\<forall>m \<in> set (s_out s). hash_matches m) \<and>
    (\<forall>i m. at s i (ProdCrit m) \<longrightarrow> (\<exists>q'. push_body (s_q s) m = Done q')) \<and>
    (\<forall>i. at s i ConsCrit \<longrightarrow> (\<exists>m q'. pop_body (s_q s) = Done (m, q')))"
  using reachable4_inv[OF assms] in_critical_sections[of s]
  by (auto simp: inv4_def data4_def list_all_iff message_ok_def)

theorem sysv_consumer_hash_matches_witness:
  "\<exists>s m q'. reachable4 s \<and> at s 0 (ProdCrit m) \<and> push_body (s_q s) m = Done q'"
proof -
  obtain s m where s: "reachable4 s" "at s 0 (ProdCrit m)" using run_to_crit by blast
  then show ?thesis using sysv_consumer_hash_matches[OF s(1)] by blast
qed


text \<open>A state with a producer and a consumer that both wait, for the witness.\<close>

lemma run_to_wait: "\<exists>s m. reachable4 s \<and> at s 0 (ProdWait m) \<and> at s 1 ConsWait"
proof -
  obtain m where m: "produce_message (\<lambda>_. 0) = Done m" using produce_message_ok by blast
  let ?s1 = "start4\<lparr>s_procs := [ProdIdle]\<rparr>"
  let ?s2 = "start4\<lparr>s_procs := [ProdIdle, ConsIdle]\<rparr>"
  let ?s3 = "move 0 (ProdWait m) ?s2"
  let ?s4 = "move 1 ConsWait ?s3"
  have r1: "reachable4 ?s1"
    using reachable4_step[OF reachable4_start fork_producer] by (simp add: start4_def)
  have r2: "reachable4 ?s2" using reachable4_step[OF r1 fork_consumer] by simp
  have r3: "reachable4 ?s3" using m by (intro reachable4_step[OF r2] produce) (simp_all add: at_def)
  have "reachable4 ?s4" by (intro reachable4_step[OF r3] consume) (simp add: at_def)
  then show ?thesis by (intro exI[of _ ?s4] exI[of _ m]) (simp add: at_def)
qed


section \<open>Killing a process that holds the lock\<close>

text \<open>
  \<open>remove_last_producer\<close> and \<open>remove_last_consumer\<close> send \<open>SIGKILL\<close>. The semaphore operations
  carry no \<open>SEM_UNDO\<close>, so the kernel does not give back what the process had taken.
\<close>

definition kill_proc :: "nat \<Rightarrow> sys4 \<Rightarrow> sys4" where
  "kill_proc i s = move i Killed s"

text \<open>The lock is taken and no process can give it back.\<close>

definition wedged :: "sys4 \<Rightarrow> bool" where
  "wedged s \<longleftrightarrow> (\<exists>a b. s_sem s = [a, b, 0]) \<and> list_all (\<lambda>p. holds_lock p = 0) (s_procs s)"

lemma wedged_no_qstep: "wedged s \<Longrightarrow> \<not> qstep4 s t"
  by (auto simp: wedged_def semop_simps dest: list_all_at elim!: qstep4.cases)

lemma list_all_update: "list_all P xs \<Longrightarrow> P x \<Longrightarrow> list_all P (xs[i := x])"
  by (auto simp: list_all_iff dest: set_update_subset_insert[THEN subsetD])

lemma wedged_step: "step4 s t \<Longrightarrow> wedged s \<Longrightarrow> wedged t \<and> s_q t = s_q s \<and> s_in t = s_in s \<and> s_out t = s_out s"
  by (erule step4.cases) (auto simp: wedged_no_qstep wedged_def list_all_update)

lemma kill_wedges:
  assumes "counts4 s" "at s i p" "holds_lock p = 1"
  shows "wedged (kill_proc i s)"
proof -
  obtain a b c where abc: "s_sem s = [a, b, c]" "c + weight holds_lock (s_procs s) = 1"
    using assms(1) by (auto elim: counts4_E)
  have "1 \<le> weight holds_lock (s_procs s)"
    using weight_ge[of i "s_procs s" p holds_lock] assms(2,3) by (simp add: at_def)
  then have c: "c = 0" using abc(2) by simp
  have "weight holds_lock ((s_procs s)[i := Killed]) = 0"
    using weight_at[OF assms(2), of holds_lock Killed] abc(2) c assms(3) by simp
  then show ?thesis
    using abc(1) c by (auto simp: wedged_def kill_proc_def weight_def list_all_iff)
qed

text \<open>
  A process killed while it holds the lock stops the program for good: from then on no
  process ever gets past a \<open>semop\<close> of the queue, whatever else happens, and the queue and
  the messages delivered stay as they are.
\<close>

theorem sysv_kill_in_critical_section_wedges:
  assumes "reachable4 s" "at s i p" "holds_lock p = 1" "step4\<^sup>*\<^sup>* (kill_proc i s) t"
  shows "(\<nexists>u. qstep4 t u) \<and> s_q t = s_q s \<and> s_in t = s_in s \<and> s_out t = s_out s"
proof -
  have w: "wedged (kill_proc i s)"
    using kill_wedges assms(1-3) reachable4_inv by (auto simp: inv4_def)
  from assms(4) have "wedged t \<and> s_q t = s_q s \<and> s_in t = s_in s \<and> s_out t = s_out s"
    by (induction rule: rtranclp_induct) (use w wedged_step in \<open>auto simp: kill_proc_def\<close>)
  then show ?thesis using wedged_no_qstep by blast
qed

theorem sysv_kill_in_critical_section_wedges_witness:
  "\<exists>s m. reachable4 s \<and> at s 0 (ProdCrit m) \<and>
     (\<nexists>u. qstep4 (move 1 ConsWait (kill_proc 0 s)) u)"
proof -
  obtain s m where s: "reachable4 s" "at s 0 (ProdCrit m)" "at s 1 ConsIdle" "length (s_procs s) = 2"
    using run_to_crit by blast
  have "at (kill_proc 0 s) 1 ConsIdle" using s(3) by (simp add: at_def kill_proc_def)
  then have "step4\<^sup>*\<^sup>* (kill_proc 0 s) (move 1 ConsWait (kill_proc 0 s))"
    by (intro r_into_rtranclp consume)
  then show ?thesis
    using sysv_kill_in_critical_section_wedges[OF s(1,2)] s by auto
qed

section \<open>Starting over semaphores of an earlier run\<close>

text \<open>
  \<open>queue_init\<close> replaces a leftover shared segment but keeps a leftover semaphore set with
  whatever values it has. The queue it returns is empty, so the semaphores agree with it only
  if the earlier run had left them in their initial state.
\<close>

theorem queue_init_keeps_stale_semaphores:
  assumes "sem_set k = Some sem"
  shows "\<exists>k' q. queue_init no_failures k = (k', Some q) \<and> sem_set k' = Some sem \<and>
    contents4 q = [] \<and> (sync4 (q, sem) \<longleftrightarrow> sem = [MAX_QUEUE_SIZE, 0, 1])"
proof -
  obtain k' where "queue_init no_failures k = (k', Some (reset_queue zero_queue))" "sem_set k' = Some sem"
    using assms by (cases "shm_seg k") (auto simp: queue_init_def obtain_segment_def no_failures_def)
  then show ?thesis
    by (intro exI[of _ k'] exI[of _ "reset_queue zero_queue"]) (simp add: reset_zero_queue sync4_def)
qed

theorem queue_init_keeps_stale_semaphores_witness:
  "\<exists>k' q. queue_init no_failures \<lparr>shm_seg = None, sem_set = Some [10, 0, 0]\<rparr> = (k', Some q) \<and>
     sem_set k' = Some [10, 0, 0] \<and> \<not> sync4 (q, [10, 0, 0])"
  using queue_init_keeps_stale_semaphores[of "\<lparr>shm_seg = None, sem_set = Some [10, 0, 0]\<rparr>" "[10, 0, 0]"]
  by auto

end
