(* ===== verification/SysV_Main.thy ===== *)
theory SysV_Main
  imports SysV_Queue
begin

text \<open>
  lab04/src/main.c: the command loop that starts and stops producer and consumer processes.

  The state is the two process tables with their counters; \<open>forked\<close> and \<open>reaped\<close> are ghost
  lists of the processes ever started and of those killed and waited for. The theorem says
  that every run of the loop stays inside the tables and that the program leaves no child
  behind when it ends.
\<close>

definition MAX_PROCS :: nat where
  "MAX_PROCS = 4"

record main4 =
  running :: bool
  prod_count :: nat
  cons_count :: nat
  producers :: "int list"
  consumers :: "int list"
  forked :: "int list"
  reaped :: "int list"

definition main4_init :: main4 where
  "main4_init = \<lparr>running = True, prod_count = 0, cons_count = 0,
     producers = replicate MAX_PROCS 0, consumers = replicate MAX_PROCS 0,
     forked = [], reaped = []\<rparr>"

text \<open>\<open>pid\<close> is what \<open>fork\<close> returns to the parent: \<open>-1\<close> when it fails.\<close>

definition create_producer :: "int \<Rightarrow> main4 \<Rightarrow> main4 outcome" where
  "create_producer pid t =
     (if prod_count t \<ge> MAX_PROCS then Done t
      else if pid = -1 then Done t
      else obind (c_store (producers t) (prod_count t) pid) (\<lambda>ps.
        Done (t\<lparr>producers := ps, prod_count := prod_count t + 1, forked := forked t @ [pid]\<rparr>)))"

definition create_consumer :: "int \<Rightarrow> main4 \<Rightarrow> main4 outcome" where
  "create_consumer pid t =
     (if cons_count t \<ge> MAX_PROCS then Done t
      else if pid = -1 then Done t
      else obind (c_store (consumers t) (cons_count t) pid) (\<lambda>ps.
        Done (t\<lparr>consumers := ps, cons_count := cons_count t + 1, forked := forked t @ [pid]\<rparr>)))"

text \<open>\<open>kill\<close> with \<open>SIGKILL\<close> and \<open>waitpid\<close>: the process is gone when they return.\<close>

definition remove_last_producer :: "main4 \<Rightarrow> main4 outcome" where
  "remove_last_producer t =
     (if prod_count t = 0 then Done t
      else let n = prod_count t - 1
           in obind (c_load (producers t) n) (\<lambda>pid.
                Done (t\<lparr>prod_count := n, reaped := reaped t @ [pid]\<rparr>)))"

definition remove_last_consumer :: "main4 \<Rightarrow> main4 outcome" where
  "remove_last_consumer t =
     (if cons_count t = 0 then Done t
      else let n = cons_count t - 1
           in obind (c_load (consumers t) n) (\<lambda>pid.
                Done (t\<lparr>cons_count := n, reaped := reaped t @ [pid]\<rparr>)))"

text \<open>The two \<open>while\<close> loops of \<open>remove_all_procs\<close>.\<close>

function remove_producers :: "main4 \<Rightarrow> main4 outcome" where
  "remove_producers t =
     (if prod_count t = 0 then Done t else obind (remove_last_producer t) remove_producers)"
  by pat_completeness auto
termination
  by (relation "measure prod_count") (auto simp: remove_last_producer_def Let_def)

function remove_consumers :: "main4 \<Rightarrow> main4 outcome" where
  "remove_consumers t =
     (if cons_count t = 0 then Done t else obind (remove_last_consumer t) remove_consumers)"
  by pat_completeness auto
termination
  by (relation "measure cons_count") (auto simp: remove_last_consumer_def Let_def)

declare remove_producers.simps [simp del] remove_consumers.simps [simp del]

definition remove_all_procs :: "main4 \<Rightarrow> main4 outcome" where
  "remove_all_procs t = obind (remove_producers t) remove_consumers"

text \<open>What \<open>print_status\<close> shows: used and free slots, the counters, the two process counts.\<close>

definition print_status :: "queue4 \<Rightarrow> main4 \<Rightarrow> int \<times> int \<times> c_int \<times> c_int \<times> nat \<times> nat" where
  "print_status q t = (int MAX_QUEUE_SIZE - q_free q, q_free q, q_added q, q_removed q,
     prod_count t, cons_count t)"

text \<open>
  The command loop. An input is a command character with the process id \<open>fork\<close> would return,
  or \<open>SIGINT\<close>, whose handler clears \<open>running\<close>. The handler is installed with \<open>signal\<close>, so a waiting
  \<open>scanf\<close> is restarted and the flag is tested only after the next command. Unknown characters
  are ignored. When the input ends or \<open>running\<close> is 0, all processes are removed.
\<close>

datatype input4 = Cmd char int | SigInt

definition command4 :: "char \<Rightarrow> int \<Rightarrow> main4 \<Rightarrow> main4 outcome" where
  "command4 cmd pid t =
     (if cmd = CHR ''p'' then create_producer pid t
      else if cmd = CHR ''c'' then create_consumer pid t
      else if cmd = CHR ''P'' then remove_last_producer t
      else if cmd = CHR ''C'' then remove_last_consumer t
      else if cmd = CHR ''k'' then remove_all_procs t
      else if cmd = CHR ''q'' then Done (t\<lparr>running := False\<rparr>)
      else Done t)"

text \<open>From the \<open>scanf\<close> on.\<close>

fun read4 :: "input4 list \<Rightarrow> main4 \<Rightarrow> main4 outcome" where
  "read4 [] t = remove_all_procs t"
| "read4 (SigInt # is) t = read4 is (t\<lparr>running := False\<rparr>)"
| "read4 (Cmd c pid # is) t =
     obind (command4 c pid t) (\<lambda>t'. if running t' then read4 is t' else remove_all_procs t')"

definition main_loop4 :: "input4 list \<Rightarrow> main4 \<Rightarrow> main4 outcome" where
  "main_loop4 is t = (if running t then read4 is t else remove_all_procs t)"

text \<open>
  \<open>while (wait(NULL) > 0)\<close>: it returns at once if every child has been waited for; a child that is left
  runs for ever, and so does the loop.
\<close>

definition wait_all :: "main4 \<Rightarrow> main4 outcome" where
  "wait_all t = (if mset (forked t) = mset (reaped t) then Done t else Blocks)"

text \<open>The whole \<open>main\<close>: exit status, the kernel objects, the tables.\<close>

definition program4 :: "failures \<Rightarrow> ipc \<Rightarrow> input4 list \<Rightarrow> (int \<times> ipc \<times> main4) outcome" where
  "program4 f k is =
     (case queue_init f k of
        (k', None) \<Rightarrow> Done (1, k', main4_init)
      | (k', Some q) \<Rightarrow> obind (main_loop4 is main4_init) (\<lambda>t. obind (wait_all t) (\<lambda>t. Done (0, queue_destroy k', t))))"

section \<open>The tables\<close>

definition live :: "main4 \<Rightarrow> int multiset" where
  "live t = mset (take (prod_count t) (producers t)) + mset (take (cons_count t) (consumers t))"

definition table4 :: "main4 \<Rightarrow> bool" where
  "table4 t \<longleftrightarrow> length (producers t) = MAX_PROCS \<and> length (consumers t) = MAX_PROCS \<and>
     prod_count t \<le> MAX_PROCS \<and> cons_count t \<le> MAX_PROCS \<and>
     mset (forked t) = mset (reaped t) + live t"

lemma take_snoc_update: "n < length xs \<Longrightarrow> take (Suc n) (xs[n := x]) = take n xs @ [x]"
  by (simp add: take_Suc_conv_app_nth)

lemma mset_take_pred: "0 < n \<Longrightarrow> n \<le> length xs \<Longrightarrow>
    mset (take n xs) = add_mset (xs ! (n - 1)) (mset (take (n - 1) xs))"
  by (cases n) (simp_all add: take_Suc_conv_app_nth)

lemma create_producer_ok: "table4 t \<Longrightarrow> \<exists>t'. create_producer pid t = Done t' \<and> table4 t'"
  by (auto simp: create_producer_def table4_def live_def take_snoc_update)

lemma create_consumer_ok: "table4 t \<Longrightarrow> \<exists>t'. create_consumer pid t = Done t' \<and> table4 t'"
  by (auto simp: create_consumer_def table4_def live_def take_snoc_update)

lemma remove_last_producer_ok:
  "table4 t \<Longrightarrow> \<exists>t'. remove_last_producer t = Done t' \<and> table4 t' \<and>
     prod_count t' = prod_count t - 1 \<and> cons_count t' = cons_count t"
  by (auto simp: remove_last_producer_def table4_def live_def Let_def mset_take_pred)

lemma remove_last_consumer_ok:
  "table4 t \<Longrightarrow> \<exists>t'. remove_last_consumer t = Done t' \<and> table4 t' \<and>
     cons_count t' = cons_count t - 1 \<and> prod_count t' = prod_count t"
  by (auto simp: remove_last_consumer_def table4_def live_def Let_def mset_take_pred)

lemma remove_producers_ok:
  "table4 t \<Longrightarrow> \<exists>t'. remove_producers t = Done t' \<and> table4 t' \<and> prod_count t' = 0"
proof (induction t rule: remove_producers.induct)
  case (1 t)
  obtain u where "remove_last_producer t = Done u" "table4 u"
    using remove_last_producer_ok[OF "1.prems"] by blast
  then show ?case using 1 by (auto simp: remove_producers.simps[of t])
qed

lemma remove_consumers_ok:
  "table4 t \<Longrightarrow> prod_count t = 0 \<Longrightarrow>
     \<exists>t'. remove_consumers t = Done t' \<and> table4 t' \<and> prod_count t' = 0 \<and> cons_count t' = 0"
proof (induction t rule: remove_consumers.induct)
  case (1 t)
  obtain u where "remove_last_consumer t = Done u" "table4 u" "prod_count u = 0"
    using remove_last_consumer_ok[OF "1.prems"(1)] "1.prems"(2) by auto
  then show ?case using 1 by (auto simp: remove_consumers.simps[of t])
qed

lemma remove_all_procs_ok:
  "table4 t \<Longrightarrow> \<exists>t'. remove_all_procs t = Done t' \<and> table4 t' \<and> prod_count t' = 0 \<and> cons_count t' = 0"
  using remove_producers_ok remove_consumers_ok by (fastforce simp: remove_all_procs_def)

lemma table4_running [simp]: "table4 (t\<lparr>running := b\<rparr>) = table4 t"
  by (simp add: table4_def live_def)

lemma command4_ok:
  assumes "table4 t"
  shows "\<exists>t'. command4 cmd pid t = Done t' \<and> table4 t'"
  using create_producer_ok[OF assms, of pid] create_consumer_ok[OF assms, of pid]
    remove_last_producer_ok[OF assms] remove_last_consumer_ok[OF assms]
    remove_all_procs_ok[OF assms] assms
  by (auto simp: command4_def)

lemma read4_ok:
  "table4 t \<Longrightarrow> \<exists>t'. read4 is t = Done t' \<and> table4 t' \<and> prod_count t' = 0 \<and> cons_count t' = 0"
proof (induction "is" t rule: read4.induct)
  case (1 t)
  then show ?case using remove_all_procs_ok by simp
next
  case (2 "is" t)
  then show ?case by simp
next
  case (3 c pid "is" t)
  obtain u where u: "command4 c pid t = Done u" "table4 u" using command4_ok[OF "3.prems"] by blast
  then show ?case using 3 remove_all_procs_ok[OF u(2)] by auto
qed

lemma main_loop4_ok:
  "table4 t \<Longrightarrow> \<exists>t'. main_loop4 is t = Done t' \<and> table4 t' \<and> prod_count t' = 0 \<and> cons_count t' = 0"
  using read4_ok remove_all_procs_ok by (simp add: main_loop4_def)

lemma table4_init: "table4 main4_init"
  by (simp add: table4_def live_def main4_init_def)

text \<open>
  Whatever commands, failing forks and interrupts arrive, the command loop of lab04 never
  indexes outside its process tables, and when it ends it has killed and reaped exactly the
  processes it ever started.
\<close>

theorem main_loop4_reaps_all:
  "\<exists>t. main_loop4 is main4_init = Done t \<and> prod_count t = 0 \<and> cons_count t = 0 \<and>
     mset (reaped t) = mset (forked t)"
proof -
  obtain t where "main_loop4 is main4_init = Done t" "table4 t" "prod_count t = 0" "cons_count t = 0"
    using main_loop4_ok[OF table4_init] by blast
  then show ?thesis by (auto simp: table4_def live_def)
qed


text \<open>
  An interrupt takes effect one command late: the command typed next is still carried out, even if it
  starts a process, and only then the loop ends.
\<close>

lemma command4_stopped: "command4 c pid t = Done t' \<Longrightarrow> \<not> running t \<Longrightarrow> table4 t \<Longrightarrow> \<not> running t'"
proof -
  have rp: "remove_producers u = Done u' \<Longrightarrow> running u' = running u" for u u'
  proof (induction u rule: remove_producers.induct)
    case (1 u)
    then show ?case by (subst (asm) (2) remove_producers.simps) (auto simp: remove_last_producer_def Let_def split: if_splits)
  qed
  have rc: "remove_consumers u = Done u' \<Longrightarrow> running u' = running u" for u u'
  proof (induction u rule: remove_consumers.induct)
    case (1 u)
    then show ?case by (subst (asm) (2) remove_consumers.simps) (auto simp: remove_last_consumer_def Let_def split: if_splits)
  qed
  assume "command4 c pid t = Done t'" "\<not> running t" "table4 t"
  then show ?thesis
    by (auto simp: command4_def create_producer_def create_consumer_def remove_last_producer_def remove_last_consumer_def
        remove_all_procs_def Let_def split: if_splits dest!: rp rc)
qed

theorem sigint_runs_one_more_command:
  assumes "table4 t"
  shows "read4 (SigInt # Cmd c pid # is) t = obind (command4 c pid (t\<lparr>running := False\<rparr>)) remove_all_procs"
proof -
  obtain u where u: "command4 c pid (t\<lparr>running := False\<rparr>) = Done u" using command4_ok[of "t\<lparr>running := False\<rparr>"] assms by auto
  then have "\<not> running u" using command4_stopped[OF u] assms by simp
  then show ?thesis using u by simp
qed

theorem sigint_runs_one_more_command_witness:
  "\<exists>t. read4 [SigInt, Cmd CHR ''p'' 17] main4_init = Done t \<and> forked t = [17] \<and> reaped t = [17]"
  using sigint_runs_one_more_command[OF table4_init, of "CHR ''p''" 17 "[]"]
  by (simp add: command4_def create_producer_def main4_init_def MAX_PROCS_def c_store_def remove_all_procs_def
      remove_producers.simps remove_consumers.simps remove_last_producer_def c_load_def)

end
