(* ===== verification/Dyn_Ring.thy ===== *)
theory Dyn_Ring
  imports Bounded_Fifo
begin

text \<open>
  The resizable ring of message pointers of lab05. The statements that touch it are the same
  in 5.1/queue.c and 5.2/queue.c; only the synchronisation around them differs. A cell is
  \<open>None\<close> until a pointer has been stored into it (\<open>malloc\<close> leaves it uninitialised), so
  reading such a cell is a fault, as are an index outside the buffer, a remainder by a zero
  capacity and a count that would drop below zero.

  The ring is an instance of \<open>fifo_core\<close> and \<open>resizable_fifo\<close>: push and pop are first-in
  first-out, growing and shrinking keep the stored pointers and their order.
\<close>

section \<open>The structure and its critical sections\<close>

record 'm dring =
  d_buffer :: "'m option list"
  d_cap :: nat
  d_head :: nat
  d_tail :: nat
  d_count :: nat
  d_added :: c_int
  d_removed :: c_int

definition INITIAL_QUEUE_CAPACITY :: nat where
  "INITIAL_QUEUE_CAPACITY = 4"

definition ring_init :: "'m dring" where
  "ring_init = \<lparr>d_buffer = replicate INITIAL_QUEUE_CAPACITY None, d_cap = INITIAL_QUEUE_CAPACITY,
     d_head = 0, d_tail = 0, d_count = 0, d_added = 0, d_removed = 0\<rparr>"

definition c_mod :: "nat \<Rightarrow> nat \<Rightarrow> nat outcome" where
  "c_mod a n = (if n = 0 then Faults else Done (a mod n))"

definition load_ptr :: "'m option list \<Rightarrow> nat \<Rightarrow> 'm outcome" where
  "load_ptr buf i = obind (c_load buf i) (\<lambda>c. case c of None \<Rightarrow> Faults | Some m \<Rightarrow> Done m)"

definition push_crit :: "'m dring \<Rightarrow> 'm \<Rightarrow> 'm dring outcome" where
  "push_crit q msg =
     obind (c_store (d_buffer q) (d_tail q) (Some msg)) (\<lambda>b.
     obind (c_mod (d_tail q + 1) (d_cap q)) (\<lambda>t.
     Done (q\<lparr>d_buffer := b, d_tail := t, d_count := d_count q + 1, d_added := d_added q + 1\<rparr>)))"

definition pop_crit :: "'m dring \<Rightarrow> ('m \<times> 'm dring) outcome" where
  "pop_crit q =
     obind (load_ptr (d_buffer q) (d_head q)) (\<lambda>msg.
     obind (c_mod (d_head q + 1) (d_cap q)) (\<lambda>h.
     if d_count q = 0 then Faults
     else Done (msg, q\<lparr>d_head := h, d_count := d_count q - 1, d_removed := d_removed q + 1\<rparr>)))"

text \<open>The copy loop of the resizing routines: \<open>newbuf[i] = buffer[(head + i) % oldcap]\<close>.\<close>

fun copy_loop :: "'m dring \<Rightarrow> nat \<Rightarrow> nat \<Rightarrow> 'm option list \<Rightarrow> 'm option list outcome" where
  "copy_loop q i 0 newbuf = Done newbuf"
| "copy_loop q i (Suc n) newbuf =
     obind (c_mod (d_head q + i) (d_cap q)) (\<lambda>k.
     obind (c_load (d_buffer q) k) (\<lambda>c.
     obind (c_store newbuf i c) (\<lambda>newbuf'. copy_loop q (Suc i) n newbuf')))"

definition resize_to :: "nat \<Rightarrow> 'm dring \<Rightarrow> 'm dring outcome" where
  "resize_to newcap q =
     obind (copy_loop q 0 (d_count q) (replicate newcap None)) (\<lambda>newbuf.
     Done (q\<lparr>d_buffer := newbuf, d_cap := newcap, d_head := 0, d_tail := d_count q\<rparr>))"

definition grow_ring :: "'m dring \<Rightarrow> 'm dring outcome" where
  "grow_ring q = (let oldcap = d_cap q; newcap = oldcap + 1 in resize_to newcap q)"

text \<open>The two checks before shrinking; \<open>None\<close> is the early return with a message.\<close>

definition shrink_allowed :: "'m dring \<Rightarrow> bool" where
  "shrink_allowed q \<longleftrightarrow> \<not> d_cap q \<le> 1 \<and> \<not> d_count q \<ge> d_cap q - 1"

definition shrink_ring :: "'m dring \<Rightarrow> 'm dring option outcome" where
  "shrink_ring q =
     (if \<not> shrink_allowed q then Done None
      else obind (resize_to (d_cap q - 1) q) (\<lambda>q'. Done (Some q')))"

text \<open>The loop of \<open>queue_destroy\<close>: the pointers it frees, in order, and the emptied ring.\<close>

fun drain_loop :: "nat \<Rightarrow> 'm dring \<Rightarrow> ('m list \<times> 'm dring) outcome" where
  "drain_loop 0 q = Done ([], q)"
| "drain_loop (Suc n) q =
     obind (load_ptr (d_buffer q) (d_head q)) (\<lambda>msg.
     obind (c_mod (d_head q + 1) (d_cap q)) (\<lambda>h.
     obind (drain_loop n (q\<lparr>d_head := h, d_count := d_count q - 1\<rparr>)) (\<lambda>(ms, q').
     Done (msg # ms, q'))))"

definition drain :: "'m dring \<Rightarrow> ('m list \<times> 'm dring) outcome" where
  "drain q = drain_loop (d_count q) q"

section \<open>Contents and representation invariant\<close>

definition window :: "'m dring \<Rightarrow> 'm option list" where
  "window q = ring_list (d_buffer q) (d_head q) (d_count q)"

definition ring_contents :: "'m dring \<Rightarrow> 'm list" where
  "ring_contents q = map the (window q)"

text \<open>The part of the invariant that \<open>queue_destroy\<close> keeps: it does not count removals.\<close>

definition ring_shape :: "'m dring \<Rightarrow> bool" where
  "ring_shape q \<longleftrightarrow> length (d_buffer q) = d_cap q \<and> 0 < d_cap q \<and> d_head q < d_cap q \<and>
     d_count q \<le> d_cap q \<and> None \<notin> set (window q)"

definition ring_invar :: "'m dring \<Rightarrow> bool" where
  "ring_invar q \<longleftrightarrow> ring_shape q \<and> d_tail q = (d_head q + d_count q) mod d_cap q \<and>
     d_added q - d_removed q = of_nat (d_count q)"

lemma length_ring_contents [simp]: "length (ring_contents q) = d_count q"
  by (simp add: ring_contents_def window_def)

lemma length_window [simp]: "length (window q) = d_count q"
  by (simp add: window_def)

lemma c_mod_pos [simp]: "0 < n \<Longrightarrow> c_mod a n = Done (a mod n)"
  by (simp add: c_mod_def)

lemma window_Some: "ring_shape q \<Longrightarrow> window q = map Some (ring_contents q)"
  unfolding ring_contents_def ring_shape_def
  by (metis (no_types, lifting) comp_def list.map_comp map_idI option.collapse)

lemma ring_init_invar: "ring_invar ring_init"
  by (simp add: ring_invar_def ring_shape_def ring_init_def window_def INITIAL_QUEUE_CAPACITY_def)

lemma ring_init_contents [simp]: "ring_contents ring_init = []"
  by (simp add: ring_contents_def ring_init_def window_def)

text \<open>The oldest pointer is where \<open>head\<close> points, and advancing the head drops it.\<close>

lemma shape_head:
  assumes "ring_shape q" "0 < d_count q"
  shows "load_ptr (d_buffer q) (d_head q) = Done (hd (ring_contents q))"
    and "ring_list (d_buffer q) (Suc (d_head q) mod d_cap q) (d_count q - 1) = tl (window q)"
proof -
  have h: "d_head q < length (d_buffer q)" and l: "length (d_buffer q) = d_cap q"
    using assms(1) by (simp_all add: ring_shape_def)
  have "hd (window q) = d_buffer q ! d_head q"
    using ring_list_hd[OF assms(2) h] by (simp add: window_def)
  moreover have "hd (window q) = Some (hd (ring_contents q))"
    using window_Some[OF assms(1)] assms(2) by (metis length_ring_contents length_greater_0_conv list.map_sel(1))
  ultimately have "d_buffer q ! d_head q = Some (hd (ring_contents q))" by simp
  then show "load_ptr (d_buffer q) (d_head q) = Done (hd (ring_contents q))"
    using h by (simp add: load_ptr_def)
  show "ring_list (d_buffer q) (Suc (d_head q) mod d_cap q) (d_count q - 1) = tl (window q)"
    using ring_list_pop[OF assms(2), of "d_buffer q" "d_head q"] l by (simp add: window_def)
qed

lemma shape_advance:
  assumes "ring_shape q" "0 < d_count q"
  shows "ring_shape (q\<lparr>d_head := Suc (d_head q) mod d_cap q, d_count := d_count q - 1\<rparr>)"
    and "ring_contents (q\<lparr>d_head := Suc (d_head q) mod d_cap q, d_count := d_count q - 1\<rparr>) =
      tl (ring_contents q)"
proof -
  have w: "window (q\<lparr>d_head := Suc (d_head q) mod d_cap q, d_count := d_count q - 1\<rparr>) = tl (window q)"
    using shape_head(2)[OF assms] by (simp add: window_def)
  then show "ring_contents (q\<lparr>d_head := Suc (d_head q) mod d_cap q, d_count := d_count q - 1\<rparr>) =
      tl (ring_contents q)"
    by (simp add: ring_contents_def map_tl)
  have "None \<notin> set (tl (window q))"
    using assms(1) unfolding ring_shape_def by (cases "window q") auto
  then show "ring_shape (q\<lparr>d_head := Suc (d_head q) mod d_cap q, d_count := d_count q - 1\<rparr>)"
    using assms w by (auto simp: ring_shape_def)
qed

section \<open>Push, pop and drain\<close>

lemma push_crit_ok:
  assumes "ring_invar q" "d_count q < d_cap q"
  shows "\<exists>q'. push_crit q m = Done q' \<and> ring_invar q' \<and> ring_contents q' = ring_contents q @ [m] \<and>
    d_cap q' = d_cap q \<and> d_count q' = Suc (d_count q)"
proof -
  let ?q' = "q\<lparr>d_buffer := (d_buffer q)[d_tail q := Some m], d_tail := Suc (d_tail q) mod d_cap q,
    d_count := Suc (d_count q), d_added := d_added q + 1\<rparr>"
  have sh: "ring_shape q" and t: "d_tail q = (d_head q + d_count q) mod length (d_buffer q)"
    and l: "length (d_buffer q) = d_cap q"
    using assms by (simp_all add: ring_invar_def ring_shape_def)
  have len: "d_count q < length (d_buffer q)" using assms(2) l by simp
  have "d_tail q < length (d_buffer q)" using t len by (metis mod_less_divisor not_less_zero neq0_conv)
  then have "push_crit q m = Done ?q'"
    using assms(2) by (simp add: push_crit_def)
  moreover have w: "window ?q' = window q @ [Some m]"
    using ring_list_push[OF len t, of "Some m"] by (simp add: window_def)
  moreover have "ring_invar ?q'"
    using assms w by (simp add: ring_invar_def ring_shape_def ring_simps)
  ultimately show ?thesis
    by (intro exI[of _ ?q']) (simp add: ring_contents_def)
qed

lemma pop_crit_ok:
  assumes "ring_invar q" "0 < d_count q"
  shows "\<exists>q'. pop_crit q = Done (hd (ring_contents q), q') \<and> ring_invar q' \<and>
    ring_contents q' = tl (ring_contents q) \<and> d_cap q' = d_cap q \<and> d_count q' = d_count q - 1"
proof -
  let ?q0 = "q\<lparr>d_head := Suc (d_head q) mod d_cap q, d_count := d_count q - 1\<rparr>"
  let ?q' = "?q0\<lparr>d_removed := d_removed q + 1\<rparr>"
  have sh: "ring_shape q" using assms(1) by (simp add: ring_invar_def)
  have same: "ring_shape ?q' = ring_shape ?q0" "ring_contents ?q' = ring_contents ?q0"
    by (simp_all add: ring_shape_def ring_contents_def window_def)
  have "pop_crit q = Done (hd (ring_contents q), ?q')"
    using shape_head(1)[OF sh assms(2)] sh assms(2) by (simp add: pop_crit_def ring_shape_def)
  moreover have "ring_invar ?q'"
  proof -
    have "(of_nat (d_count q - 1) :: c_int) = of_nat (d_count q) - 1"
      using assms(2) by (simp add: of_nat_diff)
    then show ?thesis
      using assms shape_advance(1)[OF sh assms(2)] same ring_head_step[OF assms(2), of "d_head q" "d_cap q"]
      by (simp add: ring_invar_def algebra_simps)
  qed
  ultimately show ?thesis
    using shape_advance(2)[OF sh assms(2)] same(2) by (intro exI[of _ ?q']) simp
qed

lemma drain_loop_ok:
  assumes "ring_shape q" "d_count q = n"
  shows "\<exists>q'. drain_loop n q = Done (ring_contents q, q') \<and> d_count q' = 0"
  using assms
proof (induction n arbitrary: q)
  case 0
  then show ?case by (simp add: ring_contents_def window_def)
next
  case (Suc n)
  let ?q = "q\<lparr>d_head := Suc (d_head q) mod d_cap q, d_count := d_count q - 1\<rparr>"
  have pos: "0 < d_count q" "0 < d_cap q" using Suc.prems by (auto simp: ring_shape_def)
  have "ring_contents q \<noteq> []" using pos(1) by (simp flip: length_greater_0_conv)
  moreover obtain q' where "drain_loop n ?q = Done (ring_contents ?q, q')" "d_count q' = 0"
    using Suc.IH[OF shape_advance(1)[OF Suc.prems(1) pos(1)]] Suc.prems(2) by auto
  ultimately show ?case
    using shape_head(1)[OF Suc.prems(1) pos(1)] shape_advance(2)[OF Suc.prems(1) pos(1)] pos Suc.prems(2)
    by simp
qed

section \<open>Resizing\<close>

lemma copy_loop_ok:
  assumes "ring_shape q" "i + n = d_count q" "d_count q \<le> length newbuf"
    and "take i newbuf = take i (window q)"
  shows "\<exists>nb. copy_loop q i n newbuf = Done nb \<and> length nb = length newbuf \<and>
    take (d_count q) nb = window q"
  using assms(2-)
proof (induction n arbitrary: i newbuf)
  case 0
  then show ?case by simp
next
  case (Suc n)
  let ?k = "(d_head q + i) mod d_cap q"
  have i: "i < d_count q" "i < length newbuf" using Suc.prems by auto
  have k: "?k < length (d_buffer q)" using assms(1) by (simp add: ring_shape_def)
  have "d_buffer q ! ?k = window q ! i"
    using i assms(1) by (simp add: window_def nth_ring_list ring_shape_def)
  then have "take (Suc i) (newbuf[i := d_buffer q ! ?k]) = take (Suc i) (window q)"
    using i Suc.prems(3) by (simp add: take_Suc_conv_app_nth)
  then obtain nb where "copy_loop q (Suc i) n (newbuf[i := d_buffer q ! ?k]) = Done nb"
    "length nb = length newbuf" "take (d_count q) nb = window q"
    using Suc.IH[of "Suc i" "newbuf[i := d_buffer q ! ?k]"] Suc.prems by auto
  then show ?case using i k assms(1) by (simp add: ring_shape_def)
qed

lemma resize_to_ok:
  assumes "ring_invar q" "d_count q < newcap"
  shows "\<exists>q'. resize_to newcap q = Done q' \<and> ring_invar q' \<and> ring_contents q' = ring_contents q \<and>
    d_cap q' = newcap \<and> d_count q' = d_count q"
proof -
  have sh: "ring_shape q" using assms(1) by (simp add: ring_invar_def)
  obtain nb where nb: "copy_loop q 0 (d_count q) (replicate newcap None) = Done nb"
    "length nb = newcap" "take (d_count q) nb = window q"
    using copy_loop_ok[OF sh, of 0 "d_count q" "replicate newcap None"] assms(2) by auto
  let ?q' = "q\<lparr>d_buffer := nb, d_cap := newcap, d_head := 0, d_tail := d_count q\<rparr>"
  have w: "window ?q' = window q"
    using ring_list_front[of "window q" nb] nb assms(2) by (simp add: window_def)
  then have "ring_invar ?q'"
    using assms nb(2) by (simp add: ring_invar_def ring_shape_def)
  then show ?thesis
    using nb(1) w by (intro exI[of _ ?q']) (simp add: resize_to_def ring_contents_def)
qed

interpretation ring5: resizable_fifo push_crit pop_crit ring_contents d_cap ring_invar grow_ring shrink_ring
proof unfold_locales
  fix q :: "'m dring" and m assume q: "ring_invar q"
  show "length (ring_contents q) \<le> d_cap q" using q by (simp add: ring_invar_def ring_shape_def)
  show "\<exists>q'. push_crit q m = Done q' \<and> ring_invar q' \<and> ring_contents q' = ring_contents q @ [m] \<and>
    d_cap q' = d_cap q" if "length (ring_contents q) < d_cap q"
    using push_crit_ok[OF q, of m] that by auto
  show "\<exists>q'. pop_crit q = Done (hd (ring_contents q), q') \<and> ring_invar q' \<and>
    ring_contents q' = tl (ring_contents q) \<and> d_cap q' = d_cap q" if "ring_contents q \<noteq> []"
    using pop_crit_ok[OF q] that by (metis length_ring_contents length_greater_0_conv)
  show "\<exists>q'. grow_ring q = Done q' \<and> ring_invar q' \<and> ring_contents q' = ring_contents q \<and>
    d_cap q' = Suc (d_cap q)"
    using resize_to_ok[OF q, of "Suc (d_cap q)"] q by (auto simp: grow_ring_def ring_invar_def ring_shape_def)
  show "\<exists>q'. shrink_ring q = Done (Some q') \<and> ring_invar q' \<and> ring_contents q' = ring_contents q \<and>
    d_cap q' = d_cap q - 1" if "1 < d_cap q" "length (ring_contents q) < d_cap q - 1"
    using resize_to_ok[OF q, of "d_cap q - 1"] that by (auto simp: shrink_ring_def shrink_allowed_def)
  show "shrink_ring q = Done None" if "d_cap q \<le> 1 \<or> d_cap q - 1 \<le> length (ring_contents q)"
    using that by (auto simp: shrink_ring_def shrink_allowed_def)
qed

end
