(* ===== verification/Sem_Queue.thy ===== *)
theory Sem_Queue
  imports Dyn_Ring Messages
begin

text \<open>
  lab05/src/5.1/queue.c: the resizable queue guarded by a mutex and two POSIX semaphores
  (\<open>sem_empty\<close> counts the free slots, \<open>sem_full\<close> the stored messages). Every function of the
  file, run by one thread at a time; \<open>Blocks\<close> is a \<open>sem_wait\<close> on zero or a
  \<open>pthread_mutex_lock\<close> on a held mutex. Theory \<open>Sem_System\<close> interleaves the threads.
\<close>

section \<open>The structure and the synchronisation primitives\<close>

record 'm semq =
  sq_ring :: "'m dring"
  sq_locked :: bool
  sq_empty :: nat
  sq_full :: nat

definition mutex_lock :: "'m semq \<Rightarrow> 'm semq outcome" where
  "mutex_lock q = (if sq_locked q then Blocks else Done (q\<lparr>sq_locked := True\<rparr>))"

definition mutex_unlock :: "'m semq \<Rightarrow> 'm semq" where
  "mutex_unlock q = q\<lparr>sq_locked := False\<rparr>"

definition sem_wait_empty :: "'m semq \<Rightarrow> 'm semq outcome" where
  "sem_wait_empty q = (if sq_empty q = 0 then Blocks else Done (q\<lparr>sq_empty := sq_empty q - 1\<rparr>))"

definition sem_wait_full :: "'m semq \<Rightarrow> 'm semq outcome" where
  "sem_wait_full q = (if sq_full q = 0 then Blocks else Done (q\<lparr>sq_full := sq_full q - 1\<rparr>))"

definition sem_post_empty :: "'m semq \<Rightarrow> 'm semq" where
  "sem_post_empty q = q\<lparr>sq_empty := sq_empty q + 1\<rparr>"

definition sem_post_full :: "'m semq \<Rightarrow> 'm semq" where
  "sem_post_full q = q\<lparr>sq_full := sq_full q + 1\<rparr>"

lemmas sem_prims = mutex_lock_def mutex_unlock_def sem_wait_empty_def sem_wait_full_def
  sem_post_empty_def sem_post_full_def

section \<open>The functions of queue.c\<close>

definition queue_init_sem :: "'m semq" where
  "queue_init_sem = \<lparr>sq_ring = ring_init, sq_locked = False, sq_empty = INITIAL_QUEUE_CAPACITY, sq_full = 0\<rparr>"

text \<open>\<open>running\<close> is the global flag; the result is the C return value (0 or -1) and the queue.\<close>

definition queue_push_sem :: "bool \<Rightarrow> 'm semq \<Rightarrow> 'm \<Rightarrow> (int \<times> 'm semq) outcome" where
  "queue_push_sem running q msg =
     obind (sem_wait_empty q) (\<lambda>q.
     obind (mutex_lock q) (\<lambda>q.
     if \<not> running then Done (-1, sem_post_empty (mutex_unlock q))
     else obind (push_crit (sq_ring q) msg) (\<lambda>r.
       Done (0, sem_post_full (mutex_unlock (q\<lparr>sq_ring := r\<rparr>))))))"

text \<open>\<open>None\<close> is the null pointer.\<close>

definition queue_pop_sem :: "bool \<Rightarrow> 'm semq \<Rightarrow> ('m option \<times> 'm semq) outcome" where
  "queue_pop_sem running q =
     obind (sem_wait_full q) (\<lambda>q.
     obind (mutex_lock q) (\<lambda>q.
     if \<not> running \<and> d_count (sq_ring q) = 0 then Done (None, sem_post_full (mutex_unlock q))
     else obind (pop_crit (sq_ring q)) (\<lambda>(msg, r).
       Done (Some msg, sem_post_empty (mutex_unlock (q\<lparr>sq_ring := r\<rparr>))))))"

definition queue_resize_increase_sem :: "'m semq \<Rightarrow> 'm semq outcome" where
  "queue_resize_increase_sem q =
     obind (mutex_lock q) (\<lambda>q.
     obind (grow_ring (sq_ring q)) (\<lambda>r.
     Done (sem_post_empty (mutex_unlock (q\<lparr>sq_ring := r\<rparr>)))))"

text \<open>The boolean says whether the capacity was changed.\<close>

definition queue_resize_decrease_sem :: "'m semq \<Rightarrow> (bool \<times> 'm semq) outcome" where
  "queue_resize_decrease_sem q =
     obind (mutex_lock q) (\<lambda>q.
     if d_cap (sq_ring q) \<le> 1 then Done (False, mutex_unlock q)
     else if d_count (sq_ring q) \<ge> d_cap (sq_ring q) - 1 then Done (False, mutex_unlock q)
     else obind (sem_wait_empty q) (\<lambda>q.
       obind (resize_to (d_cap (sq_ring q) - 1) (sq_ring q)) (\<lambda>r.
       Done (True, mutex_unlock (q\<lparr>sq_ring := r\<rparr>)))))"

definition MAX_THREADS :: nat where
  "MAX_THREADS = 12"

fun post_all :: "nat \<Rightarrow> 'm semq \<Rightarrow> 'm semq" where
  "post_all 0 q = q"
| "post_all (Suc n) q = post_all n (sem_post_full (sem_post_empty q))"

text \<open>\<open>queue_destroy\<close>: the messages it frees; the structure itself is freed too.\<close>

definition queue_destroy_sem :: "'m semq \<Rightarrow> 'm list outcome" where
  "queue_destroy_sem q =
     (let q = post_all MAX_THREADS q
      in obind (mutex_lock q) (\<lambda>q.
         obind (drain (sq_ring q)) (\<lambda>(freed, r). Done freed)))"

text \<open>The checksum of 5.1/queue.c, with an \<open>int\<close> loop index.\<close>

definition calculate_hash_sem :: "message \<Rightarrow> u16 outcome" where
  "calculate_hash_sem msg =
     (let h = 0;
          h = h + ucast (mtype msg);
          h = h + ucast (msize msg)
      in hash_from (mdata msg) 0 (unat (msize msg)) h)"

lemma calculate_hash_sem_eq: "calculate_hash_sem = calculate_hash"
  by (intro ext) (simp add: calculate_hash_sem_def calculate_hash_def)

section \<open>The contract\<close>

definition sem_sync :: "'m semq \<Rightarrow> bool" where
  "sem_sync q \<longleftrightarrow> ring_invar (sq_ring q) \<and> \<not> sq_locked q \<and> sq_full q = d_count (sq_ring q) \<and>
     sq_empty q + d_count (sq_ring q) = d_cap (sq_ring q)"

lemma queue_init_sem_sync: "sem_sync queue_init_sem"
  using ring_init_invar by (simp add: sem_sync_def queue_init_sem_def ring_init_def)

text \<open>The calls of a running program, with the return value dropped.\<close>

definition push_running :: "'m semq \<Rightarrow> 'm \<Rightarrow> 'm semq outcome" where
  "push_running q m = obind (queue_push_sem True q m) (\<lambda>(r, q'). Done q')"

definition pop_running :: "'m semq \<Rightarrow> ('m \<times> 'm semq) outcome" where
  "pop_running q = obind (queue_pop_sem True q) (\<lambda>(m, q'). case m of None \<Rightarrow> Faults | Some p \<Rightarrow> Done (p, q'))"

lemma queue_push_sem_ok:
  assumes "sem_sync q" "d_count (sq_ring q) < d_cap (sq_ring q)"
  shows "\<exists>q'. queue_push_sem True q m = Done (0, q') \<and> sem_sync q' \<and>
    ring_contents (sq_ring q') = ring_contents (sq_ring q) @ [m] \<and> d_cap (sq_ring q') = d_cap (sq_ring q)"
proof -
  obtain r where "push_crit (sq_ring q) m = Done r" "ring_invar r"
    "ring_contents r = ring_contents (sq_ring q) @ [m]" "d_cap r = d_cap (sq_ring q)"
    "d_count r = Suc (d_count (sq_ring q))"
    using push_crit_ok[of "sq_ring q" m] assms by (auto simp: sem_sync_def)
  then show ?thesis using assms by (auto simp: queue_push_sem_def sem_sync_def sem_prims)
qed

lemma queue_pop_sem_ok:
  assumes "sem_sync q" "0 < d_count (sq_ring q)"
  shows "\<exists>q'. queue_pop_sem b q = Done (Some (hd (ring_contents (sq_ring q))), q') \<and> sem_sync q' \<and>
    ring_contents (sq_ring q') = tl (ring_contents (sq_ring q)) \<and> d_cap (sq_ring q') = d_cap (sq_ring q)"
proof -
  obtain r where "pop_crit (sq_ring q) = Done (hd (ring_contents (sq_ring q)), r)" "ring_invar r"
    "ring_contents r = tl (ring_contents (sq_ring q))" "d_cap r = d_cap (sq_ring q)"
    "d_count r = d_count (sq_ring q) - 1"
    using pop_crit_ok[of "sq_ring q"] assms by (auto simp: sem_sync_def)
  then show ?thesis using assms by (auto simp: queue_pop_sem_def sem_sync_def sem_prims)
qed

interpretation call51: blocking_fifo push_running pop_running "\<lambda>q. ring_contents (sq_ring q)"
  "\<lambda>q. d_cap (sq_ring q)" sem_sync
proof unfold_locales
  fix q :: "'m semq" and m assume q: "sem_sync q"
  show "length (ring_contents (sq_ring q)) \<le> d_cap (sq_ring q)"
    using q by (simp add: sem_sync_def)
  show "\<exists>q'. push_running q m = Done q' \<and> sem_sync q' \<and>
      ring_contents (sq_ring q') = ring_contents (sq_ring q) @ [m] \<and> d_cap (sq_ring q') = d_cap (sq_ring q)"
    if "length (ring_contents (sq_ring q)) < d_cap (sq_ring q)"
    using queue_push_sem_ok[OF q, of m] that by (auto simp: push_running_def)
  show "\<exists>q'. pop_running q = Done (hd (ring_contents (sq_ring q)), q') \<and> sem_sync q' \<and>
      ring_contents (sq_ring q') = tl (ring_contents (sq_ring q)) \<and> d_cap (sq_ring q') = d_cap (sq_ring q)"
    if "ring_contents (sq_ring q) \<noteq> []"
  proof -
    have "0 < d_count (sq_ring q)" using that by (metis length_ring_contents length_greater_0_conv)
    then show ?thesis using queue_pop_sem_ok[OF q, of True] by (auto simp: pop_running_def)
  qed
  show "push_running q m = Blocks" if "length (ring_contents (sq_ring q)) = d_cap (sq_ring q)"
    using q that by (simp add: push_running_def queue_push_sem_def sem_sync_def sem_prims)
  show "pop_running q = Blocks" if "ring_contents (sq_ring q) = []"
  proof -
    have "d_count (sq_ring q) = 0" using that by (metis length_ring_contents list.size(3))
    then show ?thesis using q by (simp add: pop_running_def queue_pop_sem_def sem_sync_def sem_prims)
  qed
qed

text \<open>
  C6. Any sequence of \<open>queue_push\<close> and \<open>queue_pop\<close> calls on a running 5.1 queue behaves as the
  abstract bounded queue: the same calls succeed or wait, the same messages come out, and no
  call runs into undefined behaviour.
\<close>

theorem sem_queue_refines_bounded_fifo:
  assumes "sem_sync q"
  shows "map_outcome (map_prod id (\<lambda>q. ring_contents (sq_ring q))) (fifo_run push_running pop_running q ops) =
    spec_run (d_cap (sq_ring q)) (ring_contents (sq_ring q)) ops"
  using call51.run_refines[OF assms] .

theorem sem_queue_refines_bounded_fifo_witness:
  "map_outcome (map_prod id (\<lambda>q. ring_contents (sq_ring q)))
     (fifo_run push_running pop_running queue_init_sem [Push (1::nat), Push 2, Pop, Push 3]) = Done ([1], [2, 3])"
proof -
  have "spec_run 4 [] [Push (1::nat), Push 2, Pop, Push 3] = Done ([1], [2, 3])" by simp
  then show ?thesis
    using sem_queue_refines_bounded_fifo[OF queue_init_sem_sync, of "[Push (1::nat), Push 2, Pop, Push 3]"]
    by (simp add: queue_init_sem_def ring_init_def INITIAL_QUEUE_CAPACITY_def ring_contents_def window_def)
qed

text \<open>
  Resizing the 5.1 queue changes the capacity by one and keeps the stored messages and
  their order; a decrease is refused, with nothing changed, exactly when the capacity is one
  or the messages would fill the smaller ring.
\<close>

theorem sem_queue_resize:
  assumes "sem_sync q"
  shows "(\<exists>q'. queue_resize_increase_sem q = Done q' \<and> sem_sync q' \<and>
      ring_contents (sq_ring q') = ring_contents (sq_ring q) \<and> d_cap (sq_ring q') = d_cap (sq_ring q) + 1) \<and>
    (if d_cap (sq_ring q) \<le> 1 \<or> length (ring_contents (sq_ring q)) \<ge> d_cap (sq_ring q) - 1
     then queue_resize_decrease_sem q = Done (False, q)
     else \<exists>q'. queue_resize_decrease_sem q = Done (True, q') \<and> sem_sync q' \<and>
      ring_contents (sq_ring q') = ring_contents (sq_ring q) \<and> d_cap (sq_ring q') = d_cap (sq_ring q) - 1)"
proof (rule conjI)
  let ?r = "sq_ring q"
  have inv: "ring_invar ?r" and ul: "\<not> sq_locked q" using assms by (simp_all add: sem_sync_def)
  obtain r where "grow_ring ?r = Done r" "ring_invar r" "ring_contents r = ring_contents ?r" "d_cap r = Suc (d_cap ?r)"
    using ring5.grow_ok[OF inv] by blast
  moreover from this(3) have "d_count r = d_count ?r" by (metis length_ring_contents)
  ultimately show "\<exists>q'. queue_resize_increase_sem q = Done q' \<and> sem_sync q' \<and>
      ring_contents (sq_ring q') = ring_contents ?r \<and> d_cap (sq_ring q') = d_cap ?r + 1"
    using assms by (auto simp: queue_resize_increase_sem_def sem_sync_def sem_prims)
  show "if d_cap ?r \<le> 1 \<or> length (ring_contents ?r) \<ge> d_cap ?r - 1
     then queue_resize_decrease_sem q = Done (False, q)
     else \<exists>q'. queue_resize_decrease_sem q = Done (True, q') \<and> sem_sync q' \<and>
      ring_contents (sq_ring q') = ring_contents ?r \<and> d_cap (sq_ring q') = d_cap ?r - 1"
  proof (cases "d_cap ?r \<le> 1 \<or> d_count ?r \<ge> d_cap ?r - 1")
    case True
    then show ?thesis using ul by (auto simp: queue_resize_decrease_sem_def sem_prims)
  next
    case False
    then obtain r where "resize_to (d_cap ?r - 1) ?r = Done r" "ring_invar r"
      "ring_contents r = ring_contents ?r" "d_cap r = d_cap ?r - 1" "d_count r = d_count ?r"
      using resize_to_ok[OF inv, of "d_cap ?r - 1"] by auto
    then show ?thesis
      using False assms by (auto simp: queue_resize_decrease_sem_def sem_sync_def sem_prims)
  qed
qed

theorem sem_queue_resize_witness:
  "queue_resize_decrease_sem (queue_init_sem :: nat semq) \<noteq> Done (False, queue_init_sem) \<and>
   (\<exists>q'. queue_resize_increase_sem (queue_init_sem :: nat semq) = Done q' \<and> d_cap (sq_ring q') = 5)"
  using sem_queue_resize[of "queue_init_sem :: nat semq"] queue_init_sem_sync[where 'a = nat]
  by (auto simp: queue_init_sem_def ring_init_def INITIAL_QUEUE_CAPACITY_def)

text \<open>\<open>queue_destroy\<close> frees exactly the stored messages, oldest first, and never faults.\<close>

lemma post_all_simps [simp]: "sq_ring (post_all n q) = sq_ring q" "sq_locked (post_all n q) = sq_locked q"
  by (induction n arbitrary: q) (simp_all add: sem_prims)

lemma queue_destroy_sem_frees:
  assumes "ring_invar (sq_ring q)" "\<not> sq_locked q"
  shows "queue_destroy_sem q = Done (ring_contents (sq_ring q))"
proof -
  have "ring_shape (sq_ring q)" using assms(1) by (simp add: ring_invar_def)
  then obtain r where "drain (sq_ring q) = Done (ring_contents (sq_ring q), r)"
    using drain_loop_ok by (auto simp: drain_def)
  then show ?thesis using assms(2) by (simp add: queue_destroy_sem_def sem_prims Let_def)
qed

end
