(* ===== verification/Sem_System.thy ===== *)
theory Sem_System
  imports Sem_Queue
begin

text \<open>
  lab05/src/5.1/main.c: producer, consumer and main threads on the queue of \<open>Sem_Queue\<close>.

  A thread is the point it has reached inside \<open>producer_task\<close>, \<open>consumer_task\<close> or the resizing
  calls of the main thread; one step is one synchronisation call or one critical section. A
  message is its heap address: \<open>t_live\<close> are the addresses allocated and not yet freed.
  \<open>t_in\<close> and \<open>t_out\<close> are ghost state.

  The invariant relates both semaphores, the mutex and the capacity to where the threads are.
  It gives mutual exclusion, first-in first-out delivery, in-range accesses while the ring is
  being resized, and that consumers neither use freed messages nor free one twice. Two
  theorems exhibit what it does not give: a reachable deadlock of the decreasing resize, and a
  reachable read of a freed message by a producer.
\<close>

section \<open>Threads and steps\<close>

datatype thr5 =
    PIdle | PWait nat | PLock nat | PCrit nat | PFail nat | PPost nat | PPrint nat
  | CIdle | CWait | CLock | CCrit | CFail | CNull | CPost nat | CUse nat
  | MIdle | GLock | GCrit | GPost | SLock | SCheck | SWait | SResize
  | Gone

record sys5 =
  t_q :: "nat semq"
  t_run :: bool
  t_thr :: "thr5 list"
  t_live :: "nat set"
  t_in :: "nat list"
  t_out :: "nat list"

abbreviation pc5 :: "sys5 \<Rightarrow> nat \<Rightarrow> thr5 \<Rightarrow> bool" where
  "pc5 s i p \<equiv> at_pc (t_thr s) i p"

abbreviation goto5 :: "nat \<Rightarrow> thr5 \<Rightarrow> sys5 \<Rightarrow> sys5" where
  "goto5 i p s \<equiv> s\<lparr>t_thr := (t_thr s)[i := p]\<rparr>"

text \<open>
  The producer loop: \<open>malloc\<close>, \<open>queue_push\<close>, then \<open>printf\<close> reads the message. Cancellation
  (\<open>remove_last_producer\<close>) is deferred and disabled inside \<open>queue_push\<close>, so it takes effect
  only at the \<open>printf\<close> or the \<open>sleep\<close>; a cancelled thread is \<open>Gone\<close>.
\<close>

inductive prod_step :: "sys5 \<Rightarrow> sys5 \<Rightarrow> bool" where
  p_alloc: "pc5 s i PIdle \<Longrightarrow> m \<notin> t_live s \<Longrightarrow>
    prod_step s (goto5 i (PWait m) (s\<lparr>t_live := insert m (t_live s)\<rparr>))"
| p_wait: "pc5 s i (PWait m) \<Longrightarrow> sem_wait_empty (t_q s) = Done q \<Longrightarrow>
    prod_step s (goto5 i (PLock m) (s\<lparr>t_q := q\<rparr>))"
| p_lock: "pc5 s i (PLock m) \<Longrightarrow> mutex_lock (t_q s) = Done q \<Longrightarrow>
    prod_step s (goto5 i (PCrit m) (s\<lparr>t_q := q\<rparr>))"
| p_store: "pc5 s i (PCrit m) \<Longrightarrow> t_run s \<Longrightarrow> push_crit (sq_ring (t_q s)) m = Done r \<Longrightarrow>
    prod_step s (goto5 i (PPost m)
      (s\<lparr>t_q := mutex_unlock ((t_q s)\<lparr>sq_ring := r\<rparr>), t_in := t_in s @ [m]\<rparr>))"
| p_refuse: "pc5 s i (PCrit m) \<Longrightarrow> \<not> t_run s \<Longrightarrow>
    prod_step s (goto5 i (PFail m) (s\<lparr>t_q := mutex_unlock (t_q s)\<rparr>))"
| p_unwait: "pc5 s i (PFail m) \<Longrightarrow>
    prod_step s (goto5 i (PPrint m) (s\<lparr>t_q := sem_post_empty (t_q s)\<rparr>))"
| p_post: "pc5 s i (PPost m) \<Longrightarrow>
    prod_step s (goto5 i (PPrint m) (s\<lparr>t_q := sem_post_full (t_q s)\<rparr>))"
| p_print: "pc5 s i (PPrint m) \<Longrightarrow> prod_step s (goto5 i PIdle s)"
| p_cancel: "pc5 s i p \<Longrightarrow> p = PIdle \<or> p = PPrint m \<Longrightarrow> prod_step s (goto5 i Gone s)"

text \<open>
  The consumer loop: \<open>queue_pop\<close>, the checksum test on the message, \<open>free\<close>. A consumer
  cancelled at its \<open>printf\<close> leaks the message. \<open>CNull\<close> is the use of a null pointer.
\<close>

inductive cons_step :: "sys5 \<Rightarrow> sys5 \<Rightarrow> bool" where
  c_start: "pc5 s i CIdle \<Longrightarrow> cons_step s (goto5 i CWait s)"
| c_wait: "pc5 s i CWait \<Longrightarrow> sem_wait_full (t_q s) = Done q \<Longrightarrow>
    cons_step s (goto5 i CLock (s\<lparr>t_q := q\<rparr>))"
| c_lock: "pc5 s i CLock \<Longrightarrow> mutex_lock (t_q s) = Done q \<Longrightarrow>
    cons_step s (goto5 i CCrit (s\<lparr>t_q := q\<rparr>))"
| c_take: "pc5 s i CCrit \<Longrightarrow> t_run s \<or> d_count (sq_ring (t_q s)) \<noteq> 0 \<Longrightarrow>
    pop_crit (sq_ring (t_q s)) = Done (m, r) \<Longrightarrow>
    cons_step s (goto5 i (CPost m)
      (s\<lparr>t_q := mutex_unlock ((t_q s)\<lparr>sq_ring := r\<rparr>), t_out := t_out s @ [m]\<rparr>))"
| c_none: "pc5 s i CCrit \<Longrightarrow> \<not> t_run s \<Longrightarrow> d_count (sq_ring (t_q s)) = 0 \<Longrightarrow>
    cons_step s (goto5 i CFail (s\<lparr>t_q := mutex_unlock (t_q s)\<rparr>))"
| c_unwait: "pc5 s i CFail \<Longrightarrow>
    cons_step s (goto5 i CNull (s\<lparr>t_q := sem_post_full (t_q s)\<rparr>))"
| c_post: "pc5 s i (CPost m) \<Longrightarrow>
    cons_step s (goto5 i (CUse m) (s\<lparr>t_q := sem_post_empty (t_q s)\<rparr>))"
| c_free: "pc5 s i (CUse m) \<Longrightarrow>
    cons_step s (goto5 i CIdle (s\<lparr>t_live := t_live s - {m}\<rparr>))"
| c_cancel: "pc5 s i p \<Longrightarrow> p = CIdle \<or> p = CUse m \<Longrightarrow> cons_step s (goto5 i Gone s)"

text \<open>The main thread in \<open>queue_resize_increase\<close> (G) and \<open>queue_resize_decrease\<close> (S).\<close>

inductive main_step :: "sys5 \<Rightarrow> sys5 \<Rightarrow> bool" where
  g_start: "pc5 s i MIdle \<Longrightarrow> main_step s (goto5 i GLock s)"
| g_lock: "pc5 s i GLock \<Longrightarrow> mutex_lock (t_q s) = Done q \<Longrightarrow>
    main_step s (goto5 i GCrit (s\<lparr>t_q := q\<rparr>))"
| g_resize: "pc5 s i GCrit \<Longrightarrow> grow_ring (sq_ring (t_q s)) = Done r \<Longrightarrow>
    main_step s (goto5 i GPost (s\<lparr>t_q := mutex_unlock ((t_q s)\<lparr>sq_ring := r\<rparr>)\<rparr>))"
| g_post: "pc5 s i GPost \<Longrightarrow>
    main_step s (goto5 i MIdle (s\<lparr>t_q := sem_post_empty (t_q s)\<rparr>))"
| s_start: "pc5 s i MIdle \<Longrightarrow> main_step s (goto5 i SLock s)"
| s_lock: "pc5 s i SLock \<Longrightarrow> mutex_lock (t_q s) = Done q \<Longrightarrow>
    main_step s (goto5 i SCheck (s\<lparr>t_q := q\<rparr>))"
| s_refuse: "pc5 s i SCheck \<Longrightarrow> \<not> shrink_allowed (sq_ring (t_q s)) \<Longrightarrow>
    main_step s (goto5 i MIdle (s\<lparr>t_q := mutex_unlock (t_q s)\<rparr>))"
| s_check: "pc5 s i SCheck \<Longrightarrow> shrink_allowed (sq_ring (t_q s)) \<Longrightarrow>
    main_step s (goto5 i SWait s)"
| s_wait: "pc5 s i SWait \<Longrightarrow> sem_wait_empty (t_q s) = Done q \<Longrightarrow>
    main_step s (goto5 i SResize (s\<lparr>t_q := q\<rparr>))"
| s_resize: "pc5 s i SResize \<Longrightarrow>
    resize_to (d_cap (sq_ring (t_q s)) - 1) (sq_ring (t_q s)) = Done r \<Longrightarrow>
    main_step s (goto5 i MIdle (s\<lparr>t_q := mutex_unlock ((t_q s)\<lparr>sq_ring := r\<rparr>)\<rparr>))"

text \<open>
  All steps; \<open>stop\<close> is the \<open>SIGINT\<close> handler or the command \<open>q\<close>. The main thread, thread 0,
  creates threads between two resizes, up to \<open>MAX_PRODS\<close> of each kind.
\<close>

definition MAX_PRODS :: nat where
  "MAX_PRODS = 6"

fun producing :: "thr5 \<Rightarrow> nat" where
  "producing PIdle = 1" | "producing (PWait m) = 1" | "producing (PLock m) = 1"
| "producing (PCrit m) = 1" | "producing (PFail m) = 1" | "producing (PPost m) = 1"
| "producing (PPrint m) = 1" | "producing p = 0"

fun consuming :: "thr5 \<Rightarrow> nat" where
  "consuming CIdle = 1" | "consuming CWait = 1" | "consuming CLock = 1" | "consuming CCrit = 1"
| "consuming CFail = 1" | "consuming CNull = 1" | "consuming (CPost m) = 1"
| "consuming (CUse m) = 1" | "consuming p = 0"

inductive step5 :: "sys5 \<Rightarrow> sys5 \<Rightarrow> bool" where
  prod: "prod_step s t \<Longrightarrow> step5 s t"
| cons: "cons_step s t \<Longrightarrow> step5 s t"
| main: "main_step s t \<Longrightarrow> step5 s t"
| stop: "step5 s (s\<lparr>t_run := False\<rparr>)"
| spawn_producer: "pc5 s 0 MIdle \<Longrightarrow> weight producing (t_thr s) < MAX_PRODS \<Longrightarrow>
    step5 s (s\<lparr>t_thr := t_thr s @ [PIdle]\<rparr>)"
| spawn_consumer: "pc5 s 0 MIdle \<Longrightarrow> weight consuming (t_thr s) < MAX_PRODS \<Longrightarrow>
    step5 s (s\<lparr>t_thr := t_thr s @ [CIdle]\<rparr>)"

definition start5 :: sys5 where
  "start5 = \<lparr>t_q = queue_init_sem, t_run = True, t_thr = [MIdle], t_live = {}, t_in = [], t_out = []\<rparr>"

definition reachable5 :: "sys5 \<Rightarrow> bool" where
  "reachable5 s \<longleftrightarrow> step5\<^sup>*\<^sup>* start5 s"

section \<open>The invariant\<close>

fun locks :: "thr5 \<Rightarrow> nat" where
  "locks (PCrit m) = 1" | "locks CCrit = 1" | "locks GCrit = 1" | "locks SCheck = 1"
| "locks SWait = 1" | "locks SResize = 1" | "locks p = 0"

fun slots :: "thr5 \<Rightarrow> nat" where
  "slots (PLock m) = 1" | "slots (PCrit m) = 1" | "slots (PFail m) = 1" | "slots (CPost m) = 1"
| "slots GPost = 1" | "slots SResize = 1" | "slots p = 0"

fun msgs :: "thr5 \<Rightarrow> nat" where
  "msgs (PPost m) = 1" | "msgs CLock = 1" | "msgs CCrit = 1" | "msgs CFail = 1" | "msgs p = 0"

fun owns :: "nat \<Rightarrow> thr5 \<Rightarrow> nat" where
  "owns a (PWait m) = of_bool (a = m)" | "owns a (PLock m) = of_bool (a = m)"
| "owns a (PCrit m) = of_bool (a = m)" | "owns a (CPost m) = of_bool (a = m)"
| "owns a (CUse m) = of_bool (a = m)" | "owns a p = 0"

definition counts5 :: "sys5 \<Rightarrow> bool" where
  "counts5 s \<longleftrightarrow>
     sq_empty (t_q s) + weight slots (t_thr s) + d_count (sq_ring (t_q s)) = d_cap (sq_ring (t_q s)) \<and>
     sq_full (t_q s) + weight msgs (t_thr s) = d_count (sq_ring (t_q s)) \<and>
     weight locks (t_thr s) = (if sq_locked (t_q s) then 1 else 0)"

definition shrink5 :: "sys5 \<Rightarrow> bool" where
  "shrink5 s \<longleftrightarrow> (\<forall>i p. pc5 s i p \<longrightarrow> p = SWait \<or> p = SResize \<longrightarrow> shrink_allowed (sq_ring (t_q s)))"

definition data5 :: "sys5 \<Rightarrow> bool" where
  "data5 s \<longleftrightarrow> ring_invar (sq_ring (t_q s)) \<and> t_in s = t_out s @ ring_contents (sq_ring (t_q s))"

text \<open>Every address has at most one owner, a queue cell or a thread, and only if it is live.\<close>

definition heap5 :: "sys5 \<Rightarrow> bool" where
  "heap5 s \<longleftrightarrow> (\<forall>a. count_list (ring_contents (sq_ring (t_q s))) a + weight (owns a) (t_thr s) \<le>
     of_bool (a \<in> t_live s))"

definition inv5 :: "sys5 \<Rightarrow> bool" where
  "inv5 s \<longleftrightarrow> counts5 s \<and> shrink5 s \<and> data5 s \<and> heap5 s"

lemmas sync_weights = at_pc_weight[where w = slots] at_pc_weight[where w = msgs] at_pc_weight[where w = locks]

subsection \<open>What the critical sections do in a state that satisfies the invariant\<close>

lemma room5:
  assumes "counts5 s" "pc5 s i (PCrit m)"
  shows "d_count (sq_ring (t_q s)) < d_cap (sq_ring (t_q s))"
  using assms at_pc_weight_ge[OF assms(2), of slots] by (simp add: counts5_def)

lemma some5:
  assumes "counts5 s" "pc5 s i CCrit"
  shows "0 < d_count (sq_ring (t_q s))"
  using assms at_pc_weight_ge[OF assms(2), of msgs] by (simp add: counts5_def)

lemma push5:
  assumes "counts5 s" "data5 s" "pc5 s i (PCrit m)"
  shows "\<exists>r. push_crit (sq_ring (t_q s)) m = Done r \<and> ring_invar r \<and>
    ring_contents r = ring_contents (sq_ring (t_q s)) @ [m] \<and> d_cap r = d_cap (sq_ring (t_q s)) \<and>
    d_count r = Suc (d_count (sq_ring (t_q s)))"
  using push_crit_ok[OF _ room5[OF assms(1,3)]] assms(2) by (simp add: data5_def)

lemma push5D:
  assumes "counts5 s" "data5 s" "pc5 s i (PCrit m)" "push_crit (sq_ring (t_q s)) m = Done r"
  shows "ring_invar r" "ring_contents r = ring_contents (sq_ring (t_q s)) @ [m]"
    "d_cap r = d_cap (sq_ring (t_q s))" "d_count r = Suc (d_count (sq_ring (t_q s)))"
  using push5[OF assms(1-3)] assms(4) by auto

lemma pop5:
  assumes "counts5 s" "data5 s" "pc5 s i CCrit"
  shows "\<exists>m r. pop_crit (sq_ring (t_q s)) = Done (m, r) \<and> ring_invar r \<and>
    ring_contents (sq_ring (t_q s)) = m # ring_contents r \<and> d_cap r = d_cap (sq_ring (t_q s)) \<and>
    Suc (d_count r) = d_count (sq_ring (t_q s))"
proof -
  let ?q = "sq_ring (t_q s)"
  have pos: "0 < d_count ?q" by (rule some5[OF assms(1,3)])
  then have "ring_contents ?q \<noteq> []" by (simp flip: length_greater_0_conv)
  then show ?thesis using pop_crit_ok[of ?q] pos assms(2) by (auto simp: data5_def)
qed

lemma pop5D:
  assumes "counts5 s" "data5 s" "pc5 s i CCrit" "pop_crit (sq_ring (t_q s)) = Done (m, r)"
  shows "ring_invar r" "ring_contents (sq_ring (t_q s)) = m # ring_contents r"
    "d_cap r = d_cap (sq_ring (t_q s))" "Suc (d_count r) = d_count (sq_ring (t_q s))"
  using pop5[OF assms(1-3)] assms(4) by auto

lemma grow5:
  assumes "data5 s"
  shows "\<exists>r. grow_ring (sq_ring (t_q s)) = Done r \<and> ring_invar r \<and>
    ring_contents r = ring_contents (sq_ring (t_q s)) \<and> d_cap r = Suc (d_cap (sq_ring (t_q s))) \<and>
    d_count r = d_count (sq_ring (t_q s))"
  using ring5.grow_ok[of "sq_ring (t_q s)"] assms by (metis data5_def length_ring_contents)

lemma grow5D:
  assumes "data5 s" "grow_ring (sq_ring (t_q s)) = Done r"
  shows "ring_invar r" "ring_contents r = ring_contents (sq_ring (t_q s))"
    "d_cap r = Suc (d_cap (sq_ring (t_q s)))" "d_count r = d_count (sq_ring (t_q s))"
  using grow5[OF assms(1)] assms(2) by auto

lemma shrink5_resize:
  assumes "shrink5 s" "data5 s" "pc5 s i SResize"
  shows "\<exists>r. resize_to (d_cap (sq_ring (t_q s)) - 1) (sq_ring (t_q s)) = Done r \<and> ring_invar r \<and>
    ring_contents r = ring_contents (sq_ring (t_q s)) \<and> Suc (d_cap r) = d_cap (sq_ring (t_q s)) \<and>
    d_count r = d_count (sq_ring (t_q s))"
proof -
  have "shrink_allowed (sq_ring (t_q s))" using assms(1,3) by (auto simp: shrink5_def)
  then show ?thesis
    using resize_to_ok[of "sq_ring (t_q s)" "d_cap (sq_ring (t_q s)) - 1"] assms(2)
    by (auto simp: data5_def shrink_allowed_def)
qed

lemma shrink5D:
  assumes "shrink5 s" "data5 s" "pc5 s i SResize"
    "resize_to (d_cap (sq_ring (t_q s)) - 1) (sq_ring (t_q s)) = Done r"
  shows "ring_invar r" "ring_contents r = ring_contents (sq_ring (t_q s))"
    "Suc (d_cap r) = d_cap (sq_ring (t_q s))" "d_count r = d_count (sq_ring (t_q s))"
  using shrink5_resize[OF assms(1-3)] assms(4) by auto

lemma lock_unique5:
  assumes "counts5 s" "pc5 s i p" "pc5 s j p'" "locks p = 1" "locks p' = 1"
  shows "i = j"
  using at_pc_unique[OF _ assms(2-5)] assms(1) by (simp add: counts5_def)

subsection \<open>Semaphores and mutex\<close>

text \<open>One thread moves from \<open>p\<close> to \<open>p'\<close>: the counters have to change by the difference of what the two owe.\<close>

lemma counts5_move:
  assumes "counts5 s" "pc5 s i p" "t_thr t = (t_thr s)[i := p']"
    and "sq_empty (t_q t) + slots p' + d_count (sq_ring (t_q t)) + d_cap (sq_ring (t_q s)) =
      sq_empty (t_q s) + slots p + d_count (sq_ring (t_q s)) + d_cap (sq_ring (t_q t))"
    and "sq_full (t_q t) + msgs p' + d_count (sq_ring (t_q s)) = sq_full (t_q s) + msgs p + d_count (sq_ring (t_q t))"
    and "(if sq_locked (t_q t) then 1 else 0) + locks p = (if sq_locked (t_q s) then 1 else 0) + locks p'"
  shows "counts5 t"
  using assms(1,3-) sync_weights[OF assms(2), of p'] by (simp add: counts5_def)

lemma locked5:
  assumes "counts5 s" "pc5 s i p" "locks p = 1"
  shows "sq_locked (t_q s)"
  using at_pc_weight_ge[OF assms(2), of locks] assms(1,3) by (simp add: counts5_def split: if_splits)

lemma prod_counts:
  assumes "prod_step s t" "counts5 s" "data5 s"
  shows "counts5 t"
  using assms(1)
proof (cases rule: prod_step.cases)
  case (p_alloc i m)
  then show ?thesis by (intro counts5_move[OF assms(2) p_alloc(2)]) auto
next
  case (p_wait i m q)
  then show ?thesis by (intro counts5_move[OF assms(2) p_wait(2)]) (auto simp: sem_prims split: if_splits)
next
  case (p_lock i m q)
  then show ?thesis by (intro counts5_move[OF assms(2) p_lock(2)]) (auto simp: sem_prims split: if_splits)
next
  case (p_store i m r)
  then show ?thesis
    using push5D(3,4)[OF assms(2,3) p_store(2,4)] locked5[OF assms(2) p_store(2)]
    by (intro counts5_move[OF assms(2) p_store(2)]) (auto simp: sem_prims)
next
  case (p_refuse i m)
  then show ?thesis
    using locked5[OF assms(2) p_refuse(2)]
    by (intro counts5_move[OF assms(2) p_refuse(2)]) (auto simp: sem_prims)
next
  case (p_unwait i m)
  then show ?thesis by (intro counts5_move[OF assms(2) p_unwait(2)]) (auto simp: sem_prims)
next
  case (p_post i m)
  then show ?thesis by (intro counts5_move[OF assms(2) p_post(2)]) (auto simp: sem_prims)
next
  case (p_print i m)
  then show ?thesis by (intro counts5_move[OF assms(2) p_print(2)]) auto
next
  case (p_cancel i p m)
  then show ?thesis by (intro counts5_move[OF assms(2) p_cancel(2), of _ Gone]) auto
qed

lemma cons_counts:
  assumes "cons_step s t" "counts5 s" "data5 s"
  shows "counts5 t"
  using assms(1)
proof (cases rule: cons_step.cases)
  case (c_start i)
  then show ?thesis by (intro counts5_move[OF assms(2) c_start(2)]) auto
next
  case (c_wait i q)
  then show ?thesis by (intro counts5_move[OF assms(2) c_wait(2)]) (auto simp: sem_prims split: if_splits)
next
  case (c_lock i q)
  then show ?thesis by (intro counts5_move[OF assms(2) c_lock(2)]) (auto simp: sem_prims split: if_splits)
next
  case (c_take i m r)
  then show ?thesis
    using pop5D(3,4)[OF assms(2,3) c_take(2,4)] locked5[OF assms(2) c_take(2)]
    by (intro counts5_move[OF assms(2) c_take(2)]) (auto simp: sem_prims)
next
  case (c_none i)
  then show ?thesis
    using locked5[OF assms(2) c_none(2)]
    by (intro counts5_move[OF assms(2) c_none(2)]) (auto simp: sem_prims)
next
  case (c_unwait i)
  then show ?thesis by (intro counts5_move[OF assms(2) c_unwait(2)]) (auto simp: sem_prims)
next
  case (c_post i m)
  then show ?thesis by (intro counts5_move[OF assms(2) c_post(2)]) (auto simp: sem_prims)
next
  case (c_free i m)
  then show ?thesis by (intro counts5_move[OF assms(2) c_free(2)]) auto
next
  case (c_cancel i p m)
  then show ?thesis by (intro counts5_move[OF assms(2) c_cancel(2), of _ Gone]) auto
qed

lemma main_counts:
  assumes "main_step s t" "counts5 s" "data5 s" "shrink5 s"
  shows "counts5 t"
  using assms(1)
proof (cases rule: main_step.cases)
  case (g_start i)
  then show ?thesis by (intro counts5_move[OF assms(2) g_start(2)]) auto
next
  case (g_lock i q)
  then show ?thesis by (intro counts5_move[OF assms(2) g_lock(2)]) (auto simp: sem_prims split: if_splits)
next
  case (g_resize i r)
  then show ?thesis
    using grow5D(3,4)[OF assms(3) g_resize(3)] locked5[OF assms(2) g_resize(2)]
    by (intro counts5_move[OF assms(2) g_resize(2)]) (auto simp: sem_prims)
next
  case (g_post i)
  then show ?thesis by (intro counts5_move[OF assms(2) g_post(2)]) (auto simp: sem_prims)
next
  case (s_start i)
  then show ?thesis by (intro counts5_move[OF assms(2) s_start(2)]) auto
next
  case (s_lock i q)
  then show ?thesis by (intro counts5_move[OF assms(2) s_lock(2)]) (auto simp: sem_prims split: if_splits)
next
  case (s_refuse i)
  then show ?thesis
    using locked5[OF assms(2) s_refuse(2)]
    by (intro counts5_move[OF assms(2) s_refuse(2)]) (auto simp: sem_prims)
next
  case (s_check i)
  then show ?thesis by (intro counts5_move[OF assms(2) s_check(2)]) auto
next
  case (s_wait i q)
  then show ?thesis by (intro counts5_move[OF assms(2) s_wait(2)]) (auto simp: sem_prims split: if_splits)
next
  case (s_resize i r)
  then show ?thesis
    using shrink5D(3,4)[OF assms(4,3) s_resize(2,3)] locked5[OF assms(2) s_resize(2)]
    by (intro counts5_move[OF assms(2) s_resize(2)]) (auto simp: sem_prims)
qed

subsection \<open>The check of a decreasing resize stays valid while the mutex is held\<close>

lemma shrink5_same:
  assumes "shrink5 s" "pc5 s i p" "t_thr t = (t_thr s)[i := p']" "sq_ring (t_q t) = sq_ring (t_q s)"
    and "p' = SWait \<or> p' = SResize \<Longrightarrow> shrink_allowed (sq_ring (t_q s))"
  shows "shrink5 t"
  using assms by (auto simp: shrink5_def at_pc_update split: if_splits)

lemma shrink5_holder:
  assumes "counts5 s" "pc5 s i p" "locks p = 1" "t_thr t = (t_thr s)[i := p']"
    and "p' \<noteq> SWait" "p' \<noteq> SResize"
  shows "shrink5 t"
proof -
  have "pc5 s j p'' \<Longrightarrow> p'' = SWait \<or> p'' = SResize \<Longrightarrow> i = j" for j p''
    using lock_unique5[OF assms(1,2) _ assms(3)] by auto
  then show ?thesis using assms(2,4-) by (auto simp: shrink5_def at_pc_update split: if_splits)
qed

lemma ring_frame [simp]:
  "sq_ring (mutex_unlock q) = sq_ring q" "sq_ring (sem_post_empty q) = sq_ring q"
  "sq_ring (sem_post_full q) = sq_ring q"
  by (simp_all add: sem_prims)

lemma ring_frame_Done:
  "mutex_lock q = Done q' \<Longrightarrow> sq_ring q' = sq_ring q" "sem_wait_empty q = Done q' \<Longrightarrow> sq_ring q' = sq_ring q"
  "sem_wait_full q = Done q' \<Longrightarrow> sq_ring q' = sq_ring q"
  by (auto simp: sem_prims split: if_splits)

lemma prod_shrink:
  assumes "prod_step s t" "counts5 s" "shrink5 s"
  shows "shrink5 t"
  using assms(1)
proof (cases rule: prod_step.cases)
  case (p_store i m r)
  then show ?thesis by (intro shrink5_holder[OF assms(2) p_store(2)]) auto
qed ((rule shrink5_same[OF assms(3)], assumption, (simp add: ring_frame_Done; fail)+)[1])+

lemma cons_shrink:
  assumes "cons_step s t" "counts5 s" "shrink5 s"
  shows "shrink5 t"
  using assms(1)
proof (cases rule: cons_step.cases)
  case (c_take i m r)
  then show ?thesis by (intro shrink5_holder[OF assms(2) c_take(2)]) auto
qed ((rule shrink5_same[OF assms(3)], assumption, (simp add: ring_frame_Done; fail)+)[1])+

lemma main_shrink:
  assumes "main_step s t" "counts5 s" "shrink5 s"
  shows "shrink5 t"
  using assms(1)
proof (cases rule: main_step.cases)
  case (g_resize i r)
  then show ?thesis by (intro shrink5_holder[OF assms(2) g_resize(2)]) auto
next
  case (s_resize i r)
  then show ?thesis by (intro shrink5_holder[OF assms(2) s_resize(2)]) auto
next
  case (s_wait i q)
  then have "shrink_allowed (sq_ring (t_q s))" using assms(3) by (auto simp: shrink5_def)
  then show ?thesis using s_wait by (intro shrink5_same[OF assms(3) s_wait(2)]) (simp_all add: ring_frame_Done)
qed ((rule shrink5_same[OF assms(3)], assumption, (simp add: ring_frame_Done; fail)+)[1])+

subsection \<open>Delivery and ownership\<close>

lemma heap5_move:
  assumes "heap5 s" "pc5 s i p" "t_thr t = (t_thr s)[i := p']"
    and "\<And>a. count_list (ring_contents (sq_ring (t_q t))) a + owns a p' + of_bool (a \<in> t_live s) \<le>
      count_list (ring_contents (sq_ring (t_q s))) a + owns a p + of_bool (a \<in> t_live t)"
  shows "heap5 t"
  unfolding heap5_def
proof
  fix a
  have "count_list (ring_contents (sq_ring (t_q s))) a + weight (owns a) (t_thr s) \<le> of_bool (a \<in> t_live s)"
    using assms(1) by (simp add: heap5_def)
  then show "count_list (ring_contents (sq_ring (t_q t))) a + weight (owns a) (t_thr t) \<le> of_bool (a \<in> t_live t)"
    using assms(4)[of a] at_pc_weight[OF assms(2), of "owns a" p'] assms(3) by simp
qed

lemma prod_data:
  assumes "prod_step s t" "counts5 s" "data5 s" "heap5 s"
  shows "data5 t" and "heap5 t"
proof -
  from assms(1) show "data5 t"
  proof (cases rule: prod_step.cases)
    case (p_store i m r)
    then show ?thesis
      using push5D(1,2)[OF assms(2,3) p_store(2,4)] assms(3) by (simp add: data5_def)
  qed (use assms(3) in \<open>simp_all add: data5_def ring_frame_Done\<close>)
  from assms(1) show "heap5 t"
  proof (cases rule: prod_step.cases)
    case (p_store i m r)
    then show ?thesis
      using push5D(2)[OF assms(2,3) p_store(2,4)] by (intro heap5_move[OF assms(4) p_store(2)]) auto
  qed ((rule heap5_move[OF assms(4)], assumption, (simp add: ring_frame_Done of_bool_def; fail)+)[1])+
qed

lemma cons_data:
  assumes "cons_step s t" "counts5 s" "data5 s" "heap5 s"
  shows "data5 t" and "heap5 t"
proof -
  from assms(1) show "data5 t"
  proof (cases rule: cons_step.cases)
    case (c_take i m r)
    then show ?thesis
      using pop5D(1,2)[OF assms(2,3) c_take(2,4)] assms(3) by (simp add: data5_def)
  qed (use assms(3) in \<open>simp_all add: data5_def ring_frame_Done\<close>)
  from assms(1) show "heap5 t"
  proof (cases rule: cons_step.cases)
    case (c_take i m r)
    then show ?thesis
      using pop5D(2)[OF assms(2,3) c_take(2,4)] by (intro heap5_move[OF assms(4) c_take(2)]) auto
  qed ((rule heap5_move[OF assms(4)], assumption, (simp add: ring_frame_Done of_bool_def; fail)+)[1])+
qed

lemma main_data:
  assumes "main_step s t" "counts5 s" "shrink5 s" "data5 s" "heap5 s"
  shows "data5 t" and "heap5 t"
proof -
  from assms(1) show "data5 t"
  proof (cases rule: main_step.cases)
    case (g_resize i r)
    then show ?thesis using grow5D(1,2)[OF assms(4) g_resize(3)] assms(4) by (simp add: data5_def)
  next
    case (s_resize i r)
    then show ?thesis using shrink5D(1,2)[OF assms(3,4) s_resize(2,3)] assms(4) by (simp add: data5_def)
  qed (use assms(4) in \<open>simp_all add: data5_def ring_frame_Done\<close>)
  from assms(1) show "heap5 t"
  proof (cases rule: main_step.cases)
    case (g_resize i r)
    then show ?thesis
      using grow5D(2)[OF assms(4) g_resize(3)] by (intro heap5_move[OF assms(5) g_resize(2)]) auto
  next
    case (s_resize i r)
    then show ?thesis
      using shrink5D(2)[OF assms(3,4) s_resize(2,3)] by (intro heap5_move[OF assms(5) s_resize(2)]) auto
  qed ((rule heap5_move[OF assms(5)], assumption, (simp add: ring_frame_Done of_bool_def; fail)+)[1])+
qed

lemma step5_inv:
  assumes "step5 s t" "inv5 s"
  shows "inv5 t"
proof -
  have inv: "counts5 s" "shrink5 s" "data5 s" "heap5 s" using assms(2) by (simp_all add: inv5_def)
  from assms(1) show ?thesis
  proof (cases rule: step5.cases)
    case prod
    then show ?thesis using prod_counts prod_shrink prod_data inv by (simp add: inv5_def)
  next
    case cons
    then show ?thesis using cons_counts cons_shrink cons_data inv by (simp add: inv5_def)
  next
    case main
    then show ?thesis using main_counts main_shrink main_data inv by (simp add: inv5_def)
  qed (use inv in \<open>auto simp: inv5_def counts5_def shrink5_def data5_def heap5_def at_pc_snoc\<close>)
qed

lemma start5_inv: "inv5 start5"
  using queue_init_sem_sync[where 'a = nat]
  by (auto simp: inv5_def start5_def counts5_def shrink5_def data5_def heap5_def sem_sync_def
      queue_init_sem_def at_pc_def)

lemma reachable5_inv: "reachable5 s \<Longrightarrow> inv5 s"
  unfolding reachable5_def by (induction rule: rtranclp_induct) (auto intro: start5_inv step5_inv)

lemma reachable5_step: "reachable5 s \<Longrightarrow> step5 s t \<Longrightarrow> reachable5 t"
  by (simp add: reachable5_def)

section \<open>Safety\<close>

text \<open>
  C7. In 5.1 at most one thread is between \<open>pthread_mutex_lock\<close> and \<open>pthread_mutex_unlock\<close>,
  whatever producers, consumers, resizes, cancellations and the stop do, and what the consumers
  received followed by what is stored is exactly what the producers stored, in order.
\<close>

theorem sem_threads_fifo:
  assumes "reachable5 s"
  shows "(\<forall>i j p p'. pc5 s i p \<and> pc5 s j p' \<and> locks p = 1 \<and> locks p' = 1 \<longrightarrow> i = j) \<and>
    t_in s = t_out s @ ring_contents (sq_ring (t_q s)) \<and> d_count (sq_ring (t_q s)) \<le> d_cap (sq_ring (t_q s))"
proof (intro conjI)
  have inv: "counts5 s" "data5 s" using reachable5_inv[OF assms] by (simp_all add: inv5_def)
  show "\<forall>i j p p'. pc5 s i p \<and> pc5 s j p' \<and> locks p = 1 \<and> locks p' = 1 \<longrightarrow> i = j"
    using lock_unique5[OF inv(1)] by blast
  show "t_in s = t_out s @ ring_contents (sq_ring (t_q s))" using inv(2) by (simp add: data5_def)
  show "d_count (sq_ring (t_q s)) \<le> d_cap (sq_ring (t_q s))" using inv(1) by (simp add: counts5_def)
qed

lemma reachable5_start: "reachable5 start5"
  by (simp add: reachable5_def)

text \<open>
  C8. No critical section of 5.1 leaves the buffer: in every reachable state the store of a
  producer, the load of a consumer and both copy loops succeed, the resizes keep the stored
  messages, and a consumer in its critical section always finds a message, so the branch that
  returns the null pointer, which \<open>consumer_task\<close> would dereference, is never taken.
\<close>

theorem sem_critical_sections_safe:
  assumes "reachable5 s"
  shows "(pc5 s i (PCrit m) \<longrightarrow> (\<exists>r. push_crit (sq_ring (t_q s)) m = Done r)) \<and>
    (pc5 s i CCrit \<longrightarrow> 0 < d_count (sq_ring (t_q s)) \<and> (\<exists>a r. pop_crit (sq_ring (t_q s)) = Done (a, r))) \<and>
    (\<exists>r. grow_ring (sq_ring (t_q s)) = Done r \<and> ring_contents r = ring_contents (sq_ring (t_q s))) \<and>
    (pc5 s i SResize \<longrightarrow> (\<exists>r. resize_to (d_cap (sq_ring (t_q s)) - 1) (sq_ring (t_q s)) = Done r \<and>
      ring_contents r = ring_contents (sq_ring (t_q s))))"
proof (intro conjI)
  have inv: "counts5 s" "data5 s" "shrink5 s" using reachable5_inv[OF assms] by (simp_all add: inv5_def)
  show "pc5 s i (PCrit m) \<longrightarrow> (\<exists>r. push_crit (sq_ring (t_q s)) m = Done r)" using push5[OF inv(1,2)] by blast
  show "pc5 s i CCrit \<longrightarrow> 0 < d_count (sq_ring (t_q s)) \<and> (\<exists>a r. pop_crit (sq_ring (t_q s)) = Done (a, r))"
    using pop5[OF inv(1,2)] some5[OF inv(1)] by blast
  show "\<exists>r. grow_ring (sq_ring (t_q s)) = Done r \<and> ring_contents r = ring_contents (sq_ring (t_q s))"
    using grow5[OF inv(2)] by blast
  show "pc5 s i SResize \<longrightarrow> (\<exists>r. resize_to (d_cap (sq_ring (t_q s)) - 1) (sq_ring (t_q s)) = Done r \<and>
      ring_contents r = ring_contents (sq_ring (t_q s)))"
    using shrink5_resize[OF inv(3,2)] by blast
qed

text \<open>
  C9. The message a consumer of 5.1 reads, checks and frees is allocated, is no longer stored in
  the queue and is held by no other consumer and by no producer that still has to store it:
  consumers neither read freed memory nor free a message twice.
\<close>

theorem sem_consumer_owns_message:
  assumes "reachable5 s" "pc5 s i (CUse m)"
  shows "m \<in> t_live s \<and> m \<notin> set (ring_contents (sq_ring (t_q s))) \<and>
    (\<forall>j p. pc5 s j p \<and> owns m p = 1 \<longrightarrow> j = i)"
proof (intro conjI allI)
  have le: "count_list (ring_contents (sq_ring (t_q s))) m + weight (owns m) (t_thr s) \<le> of_bool (m \<in> t_live s)"
    using reachable5_inv[OF assms(1)] by (simp add: inv5_def heap5_def)
  have ge: "1 \<le> weight (owns m) (t_thr s)" using at_pc_weight_ge[OF assms(2), of "owns m"] by simp
  show "m \<in> t_live s" using le ge by (cases "m \<in> t_live s") auto
  have "count_list (ring_contents (sq_ring (t_q s))) m = 0" using le ge by (cases "m \<in> t_live s") auto
  then show "m \<notin> set (ring_contents (sq_ring (t_q s)))" by (simp add: count_list_0_iff)
  show "pc5 s j p \<and> owns m p = 1 \<longrightarrow> j = i" for j p
    using at_pc_unique[of "owns m" "t_thr s" j p i "CUse m"] assms(2) le by (cases "m \<in> t_live s") auto
qed

subsection \<open>One message from a producer to a consumer\<close>

abbreviation st5 :: "nat semq \<Rightarrow> thr5 list \<Rightarrow> nat set \<Rightarrow> nat list \<Rightarrow> nat list \<Rightarrow> sys5" where
  "st5 q ps live i out \<equiv> \<lparr>t_q = q, t_run = True, t_thr = ps, t_live = live, t_in = i, t_out = out\<rparr>"

abbreviation q5 :: "nat dring \<Rightarrow> bool \<Rightarrow> nat \<Rightarrow> nat \<Rightarrow> nat semq" where
  "q5 r l e f \<equiv> \<lparr>sq_ring = r, sq_locked = l, sq_empty = e, sq_full = f\<rparr>"

lemma ring_one:
  obtains r r' where "push_crit ring_init a = Done r" and "d_count r = Suc 0" and "pop_crit r = Done (a, r')"
proof -
  have init: "d_count ring_init < d_cap ring_init" "d_count ring_init = 0"
    by (simp_all add: ring_init_def INITIAL_QUEUE_CAPACITY_def)
  obtain r where r: "push_crit ring_init a = Done r" "ring_invar r" "ring_contents r = [a]" "d_count r = Suc 0"
    using push_crit_ok[OF ring_init_invar init(1), of a] init(2) by auto
  then obtain r' where "pop_crit r = Done (a, r')" using pop_crit_ok[of r] by auto
  with r that show ?thesis by blast
qed

lemmas steps5 = at_pc_def sem_prims numeral_2_eq_2 weight_def MAX_PRODS_def

lemma stored5:
  obtains r r' where "reachable5 (st5 (q5 r True 3 0) [MIdle, PPrint 0, CCrit] {0} [0] [])"
    and "d_count r = Suc 0" and "pop_crit r = Done (0, r')"
proof -
  obtain r r' :: "nat dring" where r: "push_crit ring_init 0 = Done r" "d_count r = Suc 0" "pop_crit r = Done (0, r')"
    by (rule ring_one)
  have "reachable5 (st5 (q5 ring_init False 4 0) [MIdle, PIdle] {} [] [])"
    using reachable5_step[OF reachable5_start step5.spawn_producer]
    by (simp add: steps5 start5_def queue_init_sem_def INITIAL_QUEUE_CAPACITY_def)
  note reachable5_step[OF this step5.spawn_consumer]
  then have "reachable5 (st5 (q5 ring_init False 4 0) [MIdle, PIdle, CIdle] {} [] [])" by (simp add: steps5)
  note reachable5_step[OF this step5.prod[OF prod_step.p_alloc[of _ 1 0]]]
  then have "reachable5 (st5 (q5 ring_init False 4 0) [MIdle, PWait 0, CIdle] {0} [] [])" by (simp add: steps5)
  note reachable5_step[OF this step5.prod[OF prod_step.p_wait[of _ 1 0 "q5 ring_init False 3 0"]]]
  then have "reachable5 (st5 (q5 ring_init False 3 0) [MIdle, PLock 0, CIdle] {0} [] [])" by (simp add: steps5)
  note reachable5_step[OF this step5.prod[OF prod_step.p_lock[of _ 1 0 "q5 ring_init True 3 0"]]]
  then have "reachable5 (st5 (q5 ring_init True 3 0) [MIdle, PCrit 0, CIdle] {0} [] [])" by (simp add: steps5)
  note reachable5_step[OF this step5.prod[OF prod_step.p_store[of _ 1 0 r]]]
  then have "reachable5 (st5 (q5 r False 3 0) [MIdle, PPost 0, CIdle] {0} [0] [])" by (simp add: steps5 r)
  note reachable5_step[OF this step5.prod[OF prod_step.p_post[of _ 1 0]]]
  then have "reachable5 (st5 (q5 r False 3 1) [MIdle, PPrint 0, CIdle] {0} [0] [])" by (simp add: steps5)
  note reachable5_step[OF this step5.cons[OF cons_step.c_start[of _ 2]]]
  then have "reachable5 (st5 (q5 r False 3 1) [MIdle, PPrint 0, CWait] {0} [0] [])" by (simp add: steps5)
  note reachable5_step[OF this step5.cons[OF cons_step.c_wait[of _ 2 "q5 r False 3 0"]]]
  then have "reachable5 (st5 (q5 r False 3 0) [MIdle, PPrint 0, CLock] {0} [0] [])" by (simp add: steps5)
  note reachable5_step[OF this step5.cons[OF cons_step.c_lock[of _ 2 "q5 r True 3 0"]]]
  then have "reachable5 (st5 (q5 r True 3 0) [MIdle, PPrint 0, CCrit] {0} [0] [])" by (simp add: steps5)
  then show thesis using r(2,3) by (rule that)
qed

lemma handover5:
  obtains q i out where "reachable5 (st5 q [MIdle, PPrint 0, CUse 0] {0} i out)"
proof -
  obtain r r' where "reachable5 (st5 (q5 r True 3 0) [MIdle, PPrint 0, CCrit] {0} [0] [])" and r: "d_count r = Suc 0" "pop_crit r = Done (0, r')"
    by (rule stored5)
  from reachable5_step[OF this(1) step5.cons[OF cons_step.c_take[of _ 2 0 r']]]
  have "reachable5 (st5 (q5 r' False 3 0) [MIdle, PPrint 0, CPost 0] {0} [0] [0])" by (simp add: steps5 r)
  note reachable5_step[OF this step5.cons[OF cons_step.c_post[of _ 2 0]]]
  then have "reachable5 (st5 (q5 r' False 4 0) [MIdle, PPrint 0, CUse 0] {0} [0] [0])" by (simp add: steps5)
  then show thesis by (rule that)
qed

theorem sem_threads_fifo_witness:
  "\<exists>s. reachable5 s \<and> t_in s = [0] \<and> t_out s = [] \<and> ring_contents (sq_ring (t_q s)) = [0] \<and> pc5 s 2 CCrit"
proof -
  obtain r where r: "reachable5 (st5 (q5 r True 3 0) [MIdle, PPrint 0, CCrit] {0} [0] [])" (is "reachable5 ?s") by (rule stored5)
  have "t_in ?s = t_out ?s @ ring_contents (sq_ring (t_q ?s))" using sem_threads_fifo[OF r] by blast
  then have "ring_contents r = [0]" by simp
  then show ?thesis using r by (intro exI[of _ ?s]) (simp add: at_pc_def)
qed

theorem sem_critical_sections_safe_witness:
  "\<exists>s. reachable5 s \<and> pc5 s 2 CCrit \<and> (\<exists>a r. pop_crit (sq_ring (t_q s)) = Done (a, r))"
proof -
  obtain r where r: "reachable5 (st5 (q5 r True 3 0) [MIdle, PPrint 0, CCrit] {0} [0] [])" by (rule stored5)
  have c: "pc5 (st5 (q5 r True 3 0) [MIdle, PPrint 0, CCrit] {0} [0] []) 2 CCrit" by (simp add: at_pc_def)
  then show ?thesis using sem_critical_sections_safe[OF r, of 2] r by blast
qed

theorem sem_consumer_owns_message_witness:
  "\<exists>s. reachable5 s \<and> pc5 s 2 (CUse 0) \<and> 0 \<in> t_live s"
proof -
  obtain q i out where r: "reachable5 (st5 q [MIdle, PPrint 0, CUse 0] {0} i out)" by (rule handover5)
  have "pc5 (st5 q [MIdle, PPrint 0, CUse 0] {0} i out) 2 (CUse 0)" by (simp add: at_pc_def)
  from sem_consumer_owns_message[OF r this] r this show ?thesis by blast
qed

section \<open>What the program does not guarantee\<close>

text \<open>
  A producer of 5.1 can read a freed message: \<open>producer_task\<close> prints the fields of a message
  after \<open>queue_push\<close> handed it over, and a consumer may have freed it by then.
\<close>

theorem sem_producer_reads_freed_message:
  "\<exists>s i m. reachable5 s \<and> pc5 s i (PPrint m) \<and> m \<notin> t_live s"
proof -
  obtain q i out where "reachable5 (st5 q [MIdle, PPrint 0, CUse 0] {0} i out)" by (rule handover5)
  note reachable5_step[OF this step5.cons[OF cons_step.c_free[of _ 2 0]]]
  then have "reachable5 (st5 q [MIdle, PPrint 0, CIdle] {} i out)" by (simp add: at_pc_def numeral_2_eq_2)
  moreover have "pc5 (st5 q [MIdle, PPrint 0, CIdle] {} i out) 1 (PPrint 0)" by (simp add: at_pc_def)
  ultimately show ?thesis by (intro exI conjI) (assumption | simp)+
qed

text \<open>
  A decreasing resize waits for a free slot while it holds the mutex. If every free slot has
  been claimed by a producer that now waits for the mutex, nobody can move.
\<close>

fun gives_slot :: "thr5 \<Rightarrow> bool" where
  "gives_slot (PFail m) = True" | "gives_slot (CPost m) = True" | "gives_slot GPost = True"
| "gives_slot p = False"

definition wedged5 :: "sys5 \<Rightarrow> bool" where
  "wedged5 s \<longleftrightarrow> pc5 s 0 SWait \<and> sq_locked (t_q s) \<and> sq_empty (t_q s) = 0 \<and>
     (\<forall>i p. pc5 s i p \<longrightarrow> i \<noteq> 0 \<longrightarrow> locks p = 0 \<and> \<not> gives_slot p)"

lemma wedged5_pc:
  assumes "wedged5 s" "pc5 s i p" "p \<noteq> SWait"
  shows "i \<noteq> 0 \<and> locks p = 0 \<and> \<not> gives_slot p"
  using assms by (cases "i = 0") (auto simp: wedged5_def at_pc_def)

lemma wedged5_move:
  assumes "wedged5 s" "pc5 s i p" "p \<noteq> SWait" "t_thr t = (t_thr s)[i := p']" "locks p' = 0" "\<not> gives_slot p'"
    and "sq_locked (t_q t) = sq_locked (t_q s)" "sq_empty (t_q t) = sq_empty (t_q s)"
  shows "wedged5 t"
  using assms wedged5_pc[OF assms(1-3)] by (auto simp: wedged5_def at_pc_update split: if_splits)

lemma wedged5_blocks:
  assumes "wedged5 s"
  shows "mutex_lock (t_q s) = Blocks" "sem_wait_empty (t_q s) = Blocks" "\<not> pc5 s 0 MIdle"
  using assms by (auto simp: wedged5_def sem_prims at_pc_def)

text \<open>A step either moves a thread that neither holds the mutex nor is about to return a slot, or is impossible.\<close>

lemma wedged5_stays:
  assumes "step5 s t" "wedged5 s"
  shows "wedged5 t"
  using assms(1)
proof (cases rule: step5.cases)
  case prod
  then show ?thesis
    by (cases rule: prod_step.cases)
      ((rule wedged5_move[OF assms(2)], assumption, (auto simp: sem_prims; fail)+ |
        (frule wedged5_pc[OF assms(2)]; force simp: wedged5_blocks[OF assms(2)]))[1])+
next
  case cons
  then show ?thesis
    by (cases rule: cons_step.cases)
      ((rule wedged5_move[OF assms(2)], assumption, (auto simp: sem_prims split: if_splits; fail)+ |
        (frule wedged5_pc[OF assms(2)]; force simp: wedged5_blocks[OF assms(2)]))[1])+
next
  case main
  then show ?thesis
    by (cases rule: main_step.cases)
      ((rule wedged5_move[OF assms(2)], assumption, (auto simp: sem_prims; fail)+ |
        (frule wedged5_pc[OF assms(2)]; force simp: wedged5_blocks[OF assms(2)]) |
        (simp add: wedged5_blocks[OF assms(2)]; fail))[1])+
qed (use assms(2) wedged5_blocks(3)[OF assms(2)] in \<open>auto simp: wedged5_def\<close>)

text \<open>\<open>k\<close> producers have passed \<open>sem_wait\<close> and none has the mutex.\<close>

abbreviation claimed5 :: "nat \<Rightarrow> sys5" where
  "claimed5 k \<equiv> st5 (q5 ring_init False (4 - k) 0) (MIdle # map PLock [0..<k]) {0..<k} [] []"

lemma claimed5_reachable: "k \<le> 4 \<Longrightarrow> reachable5 (claimed5 k)"
proof (induction k)
  case 0
  then show ?case
    using reachable5_start by (simp add: start5_def queue_init_sem_def INITIAL_QUEUE_CAPACITY_def)
next
  case (Suc k)
  let ?ps = "map PLock [0..<k]"
  have w: "weight producing ?ps = k" by (induction k) simp_all
  have at: "at_pc (MIdle # ?ps @ [p]) (Suc k) q \<longleftrightarrow> q = p" for p q by (auto simp: at_pc_def nth_append)
  have up: "(?ps @ [p])[k := q] = ?ps @ [q]" for p q by (simp add: list_update_append)
  have "reachable5 (claimed5 k)" using Suc by simp
  note reachable5_step[OF this step5.spawn_producer]
  then have "reachable5 (st5 (q5 ring_init False (4 - k) 0) (MIdle # ?ps @ [PIdle]) {0..<k} [] [])"
    using Suc(2) w by (simp add: at_pc_def MAX_PRODS_def)
  note reachable5_step[OF this step5.prod[OF prod_step.p_alloc[of _ "Suc k" k]]]
  then have "reachable5 (st5 (q5 ring_init False (4 - k) 0) (MIdle # ?ps @ [PWait k]) {0..<Suc k} [] [])"
    by (simp add: at up atLeast0_lessThan_Suc)
  note reachable5_step[OF this step5.prod[OF prod_step.p_wait[of _ "Suc k" k "q5 ring_init False (4 - Suc k) 0"]]]
  then show ?case using Suc(2) by (simp add: at up sem_prims)
qed

lemma wedged5_reachable: "\<exists>s. reachable5 s \<and> wedged5 s"
proof -
  let ?q = "q5 ring_init" and ?ps = "[PLock 0, PLock 1, PLock 2, PLock 3]" and ?L = "{0..<4}"
  have "reachable5 (st5 (?q False 0 0) (MIdle # ?ps) ?L [] [])"
    using claimed5_reachable[of 4] by (simp add: upt_rec numeral_eq_Suc)
  note reachable5_step[OF this step5.main[OF main_step.s_start[of _ 0]]]
  then have "reachable5 (st5 (?q False 0 0) (SLock # ?ps) ?L [] [])" by (simp add: at_pc_def)
  note reachable5_step[OF this step5.main[OF main_step.s_lock[of _ 0 "?q True 0 0"]]]
  then have "reachable5 (st5 (?q True 0 0) (SCheck # ?ps) ?L [] [])" by (simp add: at_pc_def sem_prims)
  note reachable5_step[OF this step5.main[OF main_step.s_check[of _ 0]]]
  then have "reachable5 (st5 (?q True 0 0) (SWait # ?ps) ?L [] [])"
    by (simp add: at_pc_def shrink_allowed_def ring_init_def INITIAL_QUEUE_CAPACITY_def)
  moreover have "wedged5 (st5 (?q True 0 0) (SWait # ?ps) ?L [] [])"
    by (auto simp: wedged5_def at_pc_def nth_Cons' less_Suc_eq)
  ultimately show ?thesis by blast
qed

text \<open>
  C35. The command \<open>-\<close> of 5.1 can block the program for good: there is a reachable state in which
  the main thread waits in \<open>queue_resize_decrease\<close> for a free slot, holding the mutex, and in
  every continuation it still waits there, although the resize was allowed.
\<close>

theorem sem_decrease_deadlock:
  "\<exists>s. reachable5 s \<and> shrink_allowed (sq_ring (t_q s)) \<and> (\<forall>t. step5\<^sup>*\<^sup>* s t \<longrightarrow> pc5 t 0 SWait \<and> sq_locked (t_q t))"
proof -
  obtain s where s: "reachable5 s" "wedged5 s" using wedged5_reachable by blast
  have "shrink_allowed (sq_ring (t_q s))"
    using reachable5_inv[OF s(1)] s(2) by (auto simp: inv5_def shrink5_def wedged5_def)
  moreover have "wedged5 t" if "step5\<^sup>*\<^sup>* s t" for t
    using that by (induction rule: rtranclp_induct) (auto intro: s(2) wedged5_stays)
  ultimately show ?thesis using s(1) by (auto simp: wedged5_def)
qed

theorem sem_decrease_deadlock_witness: "\<exists>s. reachable5 s \<and> pc5 s 0 SWait \<and> shrink_allowed (sq_ring (t_q s))"
  using sem_decrease_deadlock by blast

section \<open>The status\<close>

text \<open>
  \<open>print_status\<close>: the used slots are read under the mutex, the free ones from the semaphore after it has been
  given back, in a later state; so the two numbers need not add up to the capacity. The counts are of
  threads created.
\<close>

definition print_status_sem :: "'m semq \<Rightarrow> 'm semq \<Rightarrow> nat \<Rightarrow> nat \<Rightarrow> nat \<times> nat \<times> c_int \<times> c_int \<times> nat \<times> nat" where
  "print_status_sem q later prods cons =
     (d_count (sq_ring q), sq_empty later, d_added (sq_ring later), d_removed (sq_ring later), prods, cons)"

lemma print_status_bounds:
  assumes "reachable5 s" "step5\<^sup>*\<^sup>* s t" "print_status_sem (t_q s) (t_q t) k l = (used, free, rest)"
  shows "used \<le> d_cap (sq_ring (t_q s)) \<and> free \<le> d_cap (sq_ring (t_q t))"
proof -
  have "reachable5 t" using assms(1,2) by (simp add: reachable5_def)
  then have "counts5 s" "counts5 t" using reachable5_inv assms(1) by (simp_all add: inv5_def)
  then show ?thesis using assms(3) by (auto simp: counts5_def print_status_sem_def)
qed

end
