(* ===== verification/Cmp_Merge.thy ===== *)
theory Cmp_Merge
  imports OSiS_Prelude
begin

text \<open>
  Sorting and merging by a C comparison function. Locale \<open>comparator\<close> states what \<open>qsort\<close> and a
  merge rely on: on the elements of interest the comparison is total and transitive. The
  functions themselves are at the top level, so that the programs' models can run them; the
  locale proves once that they sort, permute, and leave sorted input alone.
\<close>

section \<open>Functions\<close>

text \<open>\<open>qsort\<close> of the C library, as a stable sort by the comparison function.\<close>

fun insert_cmp :: "('a \<Rightarrow> 'a \<Rightarrow> int) \<Rightarrow> 'a \<Rightarrow> 'a list \<Rightarrow> 'a list" where
  "insert_cmp cmp x [] = [x]"
| "insert_cmp cmp x (y # ys) = (if cmp x y \<le> 0 then x # y # ys else y # insert_cmp cmp x ys)"

fun qsort_cmp :: "('a \<Rightarrow> 'a \<Rightarrow> int) \<Rightarrow> 'a list \<Rightarrow> 'a list" where
  "qsort_cmp cmp [] = []"
| "qsort_cmp cmp (x # xs) = insert_cmp cmp x (qsort_cmp cmp xs)"

text \<open>The merge of two runs as a list function: the left element goes first when they are equal.\<close>

fun merge_ref :: "('a \<Rightarrow> 'a \<Rightarrow> int) \<Rightarrow> 'a list \<Rightarrow> 'a list \<Rightarrow> 'a list" where
  "merge_ref cmp [] ys = ys"
| "merge_ref cmp xs [] = xs"
| "merge_ref cmp (x # xs) (y # ys) =
     (if cmp x y \<le> 0 then x # merge_ref cmp xs (y # ys) else y # merge_ref cmp (x # xs) ys)"

abbreviation sorted_cmp :: "('a \<Rightarrow> 'a \<Rightarrow> int) \<Rightarrow> 'a list \<Rightarrow> bool" where
  "sorted_cmp cmp \<equiv> sorted_wrt (\<lambda>a b. cmp a b \<le> 0)"

lemma merge_ref_Nil2 [simp]: "merge_ref cmp xs [] = xs"
  by (cases xs) simp_all

lemma mset_insert_cmp [simp]: "mset (insert_cmp cmp x xs) = add_mset x (mset xs)"
  by (induction xs) simp_all

lemma mset_qsort_cmp [simp]: "mset (qsort_cmp cmp xs) = mset xs"
  by (induction xs) simp_all

lemma mset_merge_ref [simp]: "mset (merge_ref cmp xs ys) = mset xs + mset ys"
  by (induction cmp xs ys rule: merge_ref.induct) simp_all

lemma length_qsort_cmp [simp]: "length (qsort_cmp cmp xs) = length xs"
  by (metis mset_qsort_cmp size_mset)

lemma length_merge_ref [simp]: "length (merge_ref cmp xs ys) = length xs + length ys"
  by (metis mset_merge_ref size_mset size_union)

lemma set_insert_cmp [simp]: "set (insert_cmp cmp x xs) = insert x (set xs)"
  by (metis mset_insert_cmp set_mset_mset set_mset_add_mset_insert)

lemma set_qsort_cmp [simp]: "set (qsort_cmp cmp xs) = set xs"
  by (metis mset_qsort_cmp set_mset_mset)

lemma set_merge_ref [simp]: "set (merge_ref cmp xs ys) = set xs \<union> set ys"
  by (metis mset_merge_ref set_mset_mset set_mset_union)

text \<open>Merging two runs of which the left ends where the right begins changes nothing.\<close>

lemma merge_ref_append:
  "\<forall>x \<in> set xs. \<forall>y \<in> set ys. cmp x y \<le> 0 \<Longrightarrow> merge_ref cmp xs ys = xs @ ys"
  by (induction cmp xs ys rule: merge_ref.induct) auto

section \<open>The contract of a comparison function\<close>

locale comparator =
  fixes cmp :: "'a \<Rightarrow> 'a \<Rightarrow> int" and ok :: "'a \<Rightarrow> bool"
  assumes total: "ok a \<Longrightarrow> ok b \<Longrightarrow> cmp a b \<le> 0 \<or> cmp b a \<le> 0"
    and trans: "ok a \<Longrightarrow> ok b \<Longrightarrow> ok c \<Longrightarrow> cmp a b \<le> 0 \<Longrightarrow> cmp b c \<le> 0 \<Longrightarrow> cmp a c \<le> 0"
begin

lemma below_all:
  assumes "ok x" "\<forall>z \<in> set (y # ys). ok z" "cmp x y \<le> 0" "sorted_cmp cmp (y # ys)"
  shows "\<forall>z \<in> set (y # ys). cmp x z \<le> 0"
  using assms trans[OF assms(1), of y] by simp

lemma insert_sorted:
  assumes "sorted_cmp cmp xs" "\<forall>y \<in> set xs. ok y" "ok x"
  shows "sorted_cmp cmp (insert_cmp cmp x xs)"
  using assms
proof (induction xs)
  case (Cons y ys)
  show ?case
  proof (cases "cmp x y \<le> 0")
    case True
    then show ?thesis using below_all[OF Cons(4,3) True Cons(2)] Cons(2) by simp
  next
    case False
    then have "cmp y x \<le> 0" using total[of x y] Cons(3,4) by simp
    then show ?thesis using False Cons by simp
  qed
qed simp

lemma qsort_sorted: "\<forall>y \<in> set xs. ok y \<Longrightarrow> sorted_cmp cmp (qsort_cmp cmp xs)"
  by (induction xs) (simp_all add: insert_sorted)

lemma merge_sorted:
  assumes "sorted_cmp cmp xs" "sorted_cmp cmp ys" "\<forall>z \<in> set xs \<union> set ys. ok z"
  shows "sorted_cmp cmp (merge_ref cmp xs ys)"
  using assms
proof (induction xs arbitrary: ys)
  case (Cons x xs)
  note xs = Cons
  from xs(3,4) show ?case
  proof (induction ys)
    case Nil
    then show ?case using xs(2) by simp
  next
    case (Cons y ys)
    have ok: "ok x" "ok y" "\<forall>z \<in> set (x # xs). ok z" "\<forall>z \<in> set (y # ys). ok z" using Cons(3) by auto
    show ?case
    proof (cases "cmp x y \<le> 0")
      case True
      then show ?thesis
        using below_all[OF ok(1,4) True Cons(2)] xs(1)[of "y # ys"] xs(2) Cons(2,3) by auto
    next
      case False
      then have "cmp y x \<le> 0" using total[OF ok(1,2)] by simp
      then show ?thesis
        using below_all[OF ok(2,3) _ xs(2)] Cons False by auto
    qed
  qed
qed simp

text \<open>A merge of already merged runs changes nothing: a pair may be merged twice.\<close>

lemma merge_again:
  assumes "sorted_cmp cmp zs"
  shows "merge_ref cmp (take k zs) (drop k zs) = zs"
proof -
  have "\<forall>x \<in> set (take k zs). \<forall>y \<in> set (drop k zs). cmp x y \<le> 0"
    using assms by (metis append_take_drop_id sorted_wrt_append)
  then show ?thesis by (simp add: merge_ref_append)
qed

end

end
