(* ===== verification/C_Strings.thy ===== *)
theory C_Strings
  imports Cmp_Merge
begin

text \<open>
  The parts of the C library on strings and line input that several programs use: terminated
  strings in buffers, \<open>fgets\<close>, \<open>strcspn\<close>, \<open>strtok\<close>, \<open>strcasecmp\<close>, \<open>atoi\<close> and the number formats of
  \<open>snprintf\<close>. A \<open>char\<close> is a byte.

  Main facts: \<open>fgets\<close> splits its input (\<open>fgets_split\<close>), a stored line reads back
  (\<open>c_string_store\<close>), decimal printing is injective and inverted by \<open>atoi\<close> (\<open>atoi_dec\<close>).
\<close>

abbreviation NUL :: char where "NUL \<equiv> CHR 0x00"
abbreviation newline :: char where "newline \<equiv> CHR 0x0A"
abbreviation space :: char where "space \<equiv> CHR 0x20"
abbreviation slash :: char where "slash \<equiv> CHR ''/''"

abbreviation PATH_MAX :: nat where "PATH_MAX \<equiv> 4096"

section \<open>Terminated strings\<close>

definition c_string :: "string \<Rightarrow> string" where
  "c_string buf = takeWhile (\<lambda>c. c \<noteq> NUL) buf"

text \<open>\<open>strcspn(buf, "\n")\<close>: an unterminated buffer is read past its end.\<close>

definition line_end :: "string \<Rightarrow> nat outcome" where
  "line_end buf =
     (let n = length (takeWhile (\<lambda>c. c \<noteq> NUL \<and> c \<noteq> newline) buf)
      in if n < length buf then Done n else Faults)"

text \<open>\<open>buf[strcspn(buf, "\n")] = 0\<close>\<close>

definition cut_line :: "string \<Rightarrow> string outcome" where
  "cut_line buf = obind (line_end buf) (\<lambda>n. c_store buf n NUL)"

text \<open>Writing a string with its terminator at the start of a buffer leaves the rest as it was.\<close>

definition put_string :: "string \<Rightarrow> string \<Rightarrow> string" where
  "put_string s buf = s @ [NUL] @ drop (Suc (length s)) buf"

lemma length_put_string [simp]: "length s < length buf \<Longrightarrow> length (put_string s buf) = length buf"
  by (simp add: put_string_def)

lemma c_string_put [simp]: "NUL \<notin> set s \<Longrightarrow> c_string (put_string s buf) = s"
  by (auto simp: c_string_def put_string_def takeWhile_append)

lemma c_string_append: "NUL \<notin> set s \<Longrightarrow> c_string (s @ NUL # t) = s"
  by (auto simp: c_string_def takeWhile_append)

text \<open>\<open>snprintf(buf, n, ...)\<close> stores at most \<open>n - 1\<close> bytes of the formatted text.\<close>

definition snprintf :: "nat \<Rightarrow> string \<Rightarrow> string" where
  "snprintf n s = take (n - 1) s"

lemma snprintf_short [simp]: "length s < n \<Longrightarrow> snprintf n s = s"
  by (simp add: snprintf_def)

section \<open>Line input\<close>

fun line_of :: "nat \<Rightarrow> string \<Rightarrow> string \<times> string" where
  "line_of 0 s = ([], s)"
| "line_of (Suc n) [] = ([], [])"
| "line_of (Suc n) (c # s) =
     (if c = newline then ([c], s) else let (l, r) = line_of n s in (c # l, r))"

text \<open>\<open>fgets(buf, size, stdin)\<close>: \<open>None\<close> at the end of the input, else the bytes read and the rest.\<close>

definition fgets :: "nat \<Rightarrow> string \<Rightarrow> (string \<times> string) option" where
  "fgets n inp = (if inp = [] then None else Some (line_of (n - 1) inp))"

lemma line_of_append: "line_of n s = (l, r) \<Longrightarrow> l @ r = s"
  by (induction n s arbitrary: l r rule: line_of.induct) (auto split: if_splits prod.splits)

lemma line_of_length: "line_of n s = (l, r) \<Longrightarrow> length l \<le> n"
  by (induction n s arbitrary: l r rule: line_of.induct) (auto split: if_splits prod.splits)

lemma line_of_progress: "line_of n s = (l, r) \<Longrightarrow> 0 < n \<Longrightarrow> s \<noteq> [] \<Longrightarrow> length r < length s"
  by (induction n s arbitrary: l r rule: line_of.induct) (auto split: if_splits prod.splits dest!: line_of_append)

lemma fgets_split:
  assumes "fgets n inp = Some (l, r)"
  shows "l @ r = inp" "length l \<le> n - 1" "1 < n \<Longrightarrow> length r < length inp"
  using assms line_of_append line_of_length line_of_progress by (auto simp: fgets_def split: if_splits)

lemma line_of_newline: "newline \<notin> set l \<Longrightarrow> length l < n \<Longrightarrow> line_of n (l @ newline # r) = (l @ [newline], r)"
proof (induction l arbitrary: n)
  case Nil
  then show ?case by (cases n) simp_all
next
  case (Cons c l)
  then show ?case by (cases n) auto
qed

lemma fgets_newline: "newline \<notin> set l \<Longrightarrow> Suc (length l) < n \<Longrightarrow> fgets n (l @ newline # r) = Some (l @ [newline], r)"
  by (simp add: fgets_def line_of_newline)

section \<open>Tokens and case\<close>

definition strtok :: "string \<Rightarrow> (string \<times> string) option" where
  "strtok s = (let t = dropWhile (\<lambda>c. c = space) s
     in if t = [] then None
        else Some (takeWhile (\<lambda>c. c \<noteq> space) t, drop 1 (dropWhile (\<lambda>c. c \<noteq> space) t)))"

definition to_lower :: "char \<Rightarrow> char" where
  "to_lower c = (let n = (of_char c :: nat) in if 65 \<le> n \<and> n \<le> 90 then char_of (n + 32) else c)"

definition strcaseeq :: "string \<Rightarrow> string \<Rightarrow> bool" where
  "strcaseeq a b \<longleftrightarrow> map to_lower a = map to_lower b"

section \<open>Comparison\<close>

text \<open>\<open>strcmp\<close> compares as unsigned bytes; the end of a string is a zero byte.\<close>

fun strcmp :: "string \<Rightarrow> string \<Rightarrow> int" where
  "strcmp [] [] = 0"
| "strcmp [] (d # t) = - of_char d"
| "strcmp (c # s) [] = of_char c"
| "strcmp (c # s) (d # t) = (if c = d then strcmp s t else of_char c - of_char d)"

definition strcasecmp :: "string \<Rightarrow> string \<Rightarrow> int" where
  "strcasecmp a b = strcmp (map to_lower a) (map to_lower b)"

lemma of_char_nonneg [simp]: "0 \<le> (of_char c :: int)"
  by (cases c) (auto simp: of_char_def split: if_splits)

lemma strcmp_flip: "strcmp b a = - strcmp a b"
  by (induction a b rule: strcmp.induct) auto

lemma strcmp_refl [simp]: "strcmp a a = 0"
  by (induction a) simp_all

definition no_nul :: "string \<Rightarrow> bool" where
  "no_nul s \<longleftrightarrow> NUL \<notin> set s"

lemma of_char_pos: "c \<noteq> NUL \<Longrightarrow> 0 < (of_char c :: int)"
  using of_char_nonneg[of c] of_char_eq_iff[where 'a = int, of c NUL] by (simp add: order_less_le)

lemma strcmp_trans:
  assumes "no_nul a" "no_nul b" "no_nul c" "strcmp a b \<le> 0" "strcmp b c \<le> 0"
  shows "strcmp a c \<le> 0"
  using assms
proof (induction a b arbitrary: c rule: strcmp.induct)
  case (2 d t)
  then show ?case by (cases c) auto
next
  case (3 x s)
  then show ?case using of_char_pos[of x] by (auto simp: no_nul_def)
next
  case (4 x s d t)
  then show ?case using of_char_pos[of d] by (cases c) (auto simp: no_nul_def split: if_splits)
qed auto

text \<open>So \<open>strcmp\<close> and \<open>strcasecmp\<close> are comparison functions in the sense of \<open>qsort\<close>.\<close>

interpretation strs: comparator strcmp no_nul
proof
  show "strcmp a b \<le> 0 \<or> strcmp b a \<le> 0" for a b using strcmp_flip[of b a] by linarith
qed (rule strcmp_trans)

lemma to_lower_NUL [simp]: "to_lower c = NUL \<longleftrightarrow> c = NUL"
  by (cases c) (auto simp: to_lower_def Let_def of_char_def char_of_def split: if_splits)

lemma no_nul_lower: "no_nul s \<Longrightarrow> no_nul (map to_lower s)"
  by (auto simp: no_nul_def) (metis to_lower_NUL)

section \<open>Numbers\<close>

definition digit :: "nat \<Rightarrow> char" where
  "digit n = char_of (48 + n)"

definition digit_val :: "char \<Rightarrow> nat option" where
  "digit_val c = (let n = of_char c in if 48 \<le> n \<and> n \<le> 57 then Some (n - 48) else None)"

text \<open>\<open>%d\<close> and \<open>%02d\<close> of a number that is not negative.\<close>

fun dec :: "nat \<Rightarrow> string" where
  "dec n = (if n < 10 then [digit n] else dec (n div 10) @ [digit (n mod 10)])"

declare dec.simps [simp del]

definition dec02 :: "nat \<Rightarrow> string" where
  "dec02 n = (if n < 10 then digit 0 # dec n else dec n)"

fun read_digits :: "nat \<Rightarrow> string \<Rightarrow> nat" where
  "read_digits acc [] = acc"
| "read_digits acc (c # s) = (case digit_val c of None \<Rightarrow> acc | Some d \<Rightarrow> read_digits (10 * acc + d) s)"

definition is_space :: "char \<Rightarrow> bool" where
  "is_space c \<longleftrightarrow> (let n = (of_char c :: nat) in n = 32 \<or> 9 \<le> n \<and> n \<le> 13)"

text \<open>
  \<open>atoi\<close> as the C library computes it: \<open>strtol\<close>, which saturates at the 64-bit bounds, converted
  to \<open>int\<close>.
\<close>

definition clamp_long :: "int \<Rightarrow> int" where
  "clamp_long v = max (- (2 ^ 63)) (min (2 ^ 63 - 1) v)"

definition atoi :: "string \<Rightarrow> c_int" where
  "atoi s =
     (case dropWhile is_space s of
        [] \<Rightarrow> 0
      | c # t \<Rightarrow>
          if c = CHR ''-'' then word_of_int (clamp_long (- int (read_digits 0 t)))
          else if c = CHR ''+'' then word_of_int (clamp_long (int (read_digits 0 t)))
          else word_of_int (clamp_long (int (read_digits 0 (c # t)))))"

lemma digit_val_digit [simp]: "n < 10 \<Longrightarrow> digit_val (digit n) = Some n"
  by (simp add: digit_val_def digit_def)

lemma digit_neq [simp]: "n < 10 \<Longrightarrow> digit n \<noteq> NUL" "n < 10 \<Longrightarrow> digit n \<noteq> newline"
  "n < 10 \<Longrightarrow> digit n \<noteq> CHR ''/''" "n < 10 \<Longrightarrow> digit n \<noteq> space" "n < 10 \<Longrightarrow> digit n \<noteq> CHR ''-''"
  "n < 10 \<Longrightarrow> digit n \<noteq> CHR ''+''" "n < 10 \<Longrightarrow> digit n \<noteq> CHR ''_''"
  by (auto simp: digit_def char_of_eq_iff take_bit_eq_mod)

lemma set_dec: "c \<in> set (dec n) \<Longrightarrow> \<exists>d < 10. c = digit d"
proof (induction n rule: dec.induct)
  case (1 n)
  have "n mod 10 < 10" by simp
  then show ?case using 1 by (subst (asm) (2) dec.simps) (fastforce split: if_splits)
qed

lemma digit_not_space [simp]: "n < 10 \<Longrightarrow> \<not> is_space (digit n)"
  by (simp add: is_space_def digit_def)

lemma dec_neq_Nil [simp]: "dec n \<noteq> []"
  by (subst dec.simps) simp

lemma read_digits_append:
  assumes "\<And>c. c \<in> set s \<Longrightarrow> \<exists>d < 10. c = digit d"
  shows "read_digits acc (s @ t) = read_digits (read_digits acc s) t"
  using assms by (induction s arbitrary: acc) (force)+

lemma read_digits_dec: "read_digits 0 (dec n) = n"
proof (induction n rule: dec.induct)
  case (1 n)
  show ?case
  proof (cases "n < 10")
    case True
    then show ?thesis by (subst dec.simps) simp
  next
    case False
    then show ?thesis using 1 by (subst dec.simps) (simp add: read_digits_append set_dec)
  qed
qed

lemma dec_inj: "dec m = dec n \<longleftrightarrow> m = n"
  by (metis read_digits_dec)

lemma read_digits_dec02: "read_digits 0 (dec02 n) = n"
  by (simp add: dec02_def read_digits_dec)

lemma dec02_inj: "dec02 m = dec02 n \<longleftrightarrow> m = n"
  by (metis read_digits_dec02)

lemma set_dec02: "c \<in> set (dec02 n) \<Longrightarrow> \<exists>d < 10. c = digit d"
  using set_dec[of c n] by (auto simp: dec02_def intro: exI[of _ 0] split: if_splits)

lemma read_digits_stop: "digit_val c = None \<Longrightarrow> read_digits 0 (dec n @ c # t) = n"
  by (simp add: read_digits_append set_dec read_digits_dec)

lemma atoi_digits:
  assumes "read_digits 0 (dec n @ t) = n" "n < 2 ^ 31"
  shows "atoi (dec n @ t) = of_nat n"
proof -
  obtain c u where cu: "dec n = c # u" by (cases "dec n") simp_all
  then obtain d where d: "d < 10" "c = digit d" using set_dec[of c n] by auto
  have "int n < 2 ^ 31" using assms(2) by simp
  then have "clamp_long (int n) = int n" by (simp add: clamp_long_def)
  then show ?thesis using cu d assms(1) by (simp add: atoi_def)
qed

lemma atoi_dec: "n < 2 ^ 31 \<Longrightarrow> atoi (dec n) = of_nat n"
  using atoi_digits[of n "[]"] by (simp add: read_digits_dec)

lemma atoi_dec_line: "n < 2 ^ 31 \<Longrightarrow> atoi (dec n @ newline # t) = of_nat n"
  by (rule atoi_digits[OF read_digits_stop]) (simp_all add: digit_val_def)

end
