(* ===== verification/Record_Store.thy ===== *)
theory Record_Store
  imports C_Strings
begin

text \<open>
  lab07/src/main.c: a file of fixed-size student records with per-record locks.

  The file is its bytes. \<open>read_record\<close>, \<open>write_record\<close>, \<open>lock_record\<close> and \<open>unlock_record\<close> follow the
  source down to the \<open>size_t\<close> arithmetic of the offset; the commands LST, GET, PUT and INIT
  and the interactive loop run on a world of file, standard input and printed events.
  Theory \<open>Record_Locks\<close> runs several PUT and GET commands concurrently.
\<close>

section \<open>Records and the file\<close>

record record_s =
  r_name :: string
  r_address :: string
  r_semester :: u8

abbreviation field_len :: nat where "field_len \<equiv> 80"
abbreviation rec_size :: nat where "rec_size \<equiv> 161"

definition rec_wf :: "record_s \<Rightarrow> bool" where
  "rec_wf r \<longleftrightarrow> length (r_name r) = field_len \<and> length (r_address r) = field_len"

text \<open>The bytes of the structure in memory and in the file; it has no padding.\<close>

definition rec_bytes :: "record_s \<Rightarrow> string" where
  "rec_bytes r = r_name r @ r_address r @ [char_of (unat (r_semester r))]"

definition rec_of :: "string \<Rightarrow> record_s" where
  "rec_of b = \<lparr>r_name = take field_len b, r_address = take field_len (drop field_len b),
     r_semester = of_char (b ! (2 * field_len))\<rparr>"

text \<open>\<open>rec_no * sizeof(struct record_s)\<close>: the \<open>int\<close> is converted to \<open>size_t\<close>, the product wraps, and
  \<open>lseek\<close> and \<open>fcntl\<close> take it as a signed \<open>off_t\<close>.\<close>

definition rec_off :: "c_int \<Rightarrow> u64" where
  "rec_off rec_no = (scast rec_no :: u64) * of_nat rec_size"

definition file_write :: "string \<Rightarrow> nat \<Rightarrow> string \<Rightarrow> string" where
  "file_write f off b = take off (f @ replicate (off - length f) NUL) @ b @ drop (off + length b) f"

definition read_record :: "string \<Rightarrow> c_int \<Rightarrow> int \<times> string" where
  "read_record f rec_no =
     (let off = sint (rec_off rec_no)
      in if off < 0 then (-1, [])
         else let b = take rec_size (drop (nat off) f) in (int (length b), b))"

definition write_record :: "string \<Rightarrow> c_int \<Rightarrow> string \<Rightarrow> int \<times> string" where
  "write_record f rec_no b =
     (let off = sint (rec_off rec_no)
      in if off < 0 then (-1, f) else (int (length b), file_write f (nat off) b))"

subsection \<open>Record locks\<close>

text \<open>An open file description lock: its owner, its type and the offset of its 161 bytes.\<close>

datatype lock_type = RdLck | WrLck

text \<open>A write lock is stronger than a read lock.\<close>

instantiation lock_type :: linorder
begin

definition less_eq_lock_type :: "lock_type \<Rightarrow> lock_type \<Rightarrow> bool" where
  "a \<le> b \<longleftrightarrow> (a = WrLck \<longrightarrow> b = WrLck)"

definition less_lock_type :: "lock_type \<Rightarrow> lock_type \<Rightarrow> bool" where
  "a < b \<longleftrightarrow> a = RdLck \<and> b = WrLck"

instance
proof
  fix a b c :: lock_type
  show "a < b \<longleftrightarrow> a \<le> b \<and> \<not> b \<le> a" by (cases a; cases b) (simp_all add: less_eq_lock_type_def less_lock_type_def)
  show "a \<le> a" by (simp add: less_eq_lock_type_def)
  show "a \<le> c" if "a \<le> b" "b \<le> c" using that by (simp add: less_eq_lock_type_def)
  show "a = b" if "a \<le> b" "b \<le> a" using that by (cases a; cases b) (simp_all add: less_eq_lock_type_def)
  show "a \<le> b \<or> b \<le> a" by (cases a; cases b) (simp_all add: less_eq_lock_type_def)
qed

end

lemma max_lock_type [simp]: "max a b = WrLck \<longleftrightarrow> a = WrLck \<or> b = WrLck"
  by (cases a; cases b) (simp_all add: max_def less_eq_lock_type_def)

type_synonym rec_lock = "nat \<times> lock_type \<times> int"

definition lock_clash :: "rec_lock \<Rightarrow> rec_lock \<Rightarrow> bool" where
  "lock_clash a b \<longleftrightarrow>
     (case a of (o1, t1, s1) \<Rightarrow> case b of (o2, t2, s2) \<Rightarrow>
        o1 \<noteq> o2 \<and> (t1 = WrLck \<or> t2 = WrLck) \<and> s1 < s2 + int rec_size \<and> s2 < s1 + int rec_size)"

text \<open>Locks of two owners clash if they overlap and the stronger one is a write lock.\<close>

lemma lock_clash_max:
  "lock_clash (own, t, off) (own', t', off') \<longleftrightarrow>
     own \<noteq> own' \<and> max t t' = WrLck \<and> off < off' + int rec_size \<and> off' < off + int rec_size"
  by (simp add: lock_clash_def)

text \<open>\<open>F_OFD_SETLKW\<close>: a negative start is refused (\<open>None\<close>), a clash waits.\<close>

definition lock_record :: "nat \<Rightarrow> c_int \<Rightarrow> lock_type \<Rightarrow> rec_lock list \<Rightarrow> rec_lock list option outcome" where
  "lock_record fd rec_no typ ls =
     (let l = (fd, typ, sint (rec_off rec_no))
      in if sint (rec_off rec_no) < 0 then Done None
         else if list_ex (lock_clash l) ls then Blocks
         else Done (Some (l # ls)))"

definition unlock_record :: "nat \<Rightarrow> c_int \<Rightarrow> rec_lock list \<Rightarrow> rec_lock list" where
  "unlock_record fd rec_no ls = filter (\<lambda>(own, t, s). \<not> (own = fd \<and> s = sint (rec_off rec_no))) ls"

section \<open>The commands\<close>

datatype event7 =
    Row nat record_s | Rec c_int record_s | ReadFailed c_int | OpenFailed | LockFailed
  | Unchanged | Conflict record_s | Updated c_int | WriteFailed | Usage | Unknown string | Initialised

record world7 =
  w_file :: "string option"
  w_in :: string
  w_out :: "event7 list"

definition say :: "event7 \<Rightarrow> world7 \<Rightarrow> world7" where
  "say e w = w\<lparr>w_out := w_out w @ [e]\<rparr>"

definition RECORD_COUNT :: nat where
  "RECORD_COUNT = 10"

text \<open>\<open>snprintf\<close> into a field keeps what lies behind the terminator.\<close>

definition snprintf_field :: "string \<Rightarrow> string \<Rightarrow> string" where
  "snprintf_field s buf = put_string (take (field_len - 1) s) buf"

definition zero_record :: record_s where
  "zero_record = \<lparr>r_name = replicate field_len NUL, r_address = replicate field_len NUL, r_semester = 0\<rparr>"

fun init_records :: "nat \<Rightarrow> nat \<Rightarrow> record_s \<Rightarrow> record_s list" where
  "init_records i 0 rec = []"
| "init_records i (Suc n) rec =
     (let rec = rec\<lparr>r_name := snprintf_field (''Student'' @ dec02 i) (r_name rec)\<rparr>;
          rec = rec\<lparr>r_address := snprintf_field (''Address'' @ dec02 i) (r_address rec)\<rparr>;
          rec = rec\<lparr>r_semester := of_nat (i mod 8 + 1)\<rparr>
      in rec # init_records (Suc i) n rec)"

text \<open>\<open>open\<close> with \<open>O_CREAT\<close> and \<open>O_TRUNC\<close> and the writes succeed.\<close>

definition init_file :: "world7 \<Rightarrow> world7" where
  "init_file w = say Initialised
     (w\<lparr>w_file := Some (concat (map rec_bytes (init_records 0 RECORD_COUNT zero_record)))\<rparr>)"

function list_rows :: "nat \<Rightarrow> string \<Rightarrow> event7 list" where
  "list_rows idx f =
     (let b = take rec_size f
      in if length b = rec_size then Row idx (rec_of b) # list_rows (Suc idx) (drop rec_size f) else [])"
  by pat_completeness auto
termination
  by (relation "measure (\<lambda>(idx, f). length f)") auto

declare list_rows.simps [simp del]

definition cmd_lst :: "world7 \<Rightarrow> world7" where
  "cmd_lst w = (case w_file w of None \<Rightarrow> say OpenFailed w
     | Some f \<Rightarrow> w\<lparr>w_out := w_out w @ list_rows 0 f\<rparr>)"

text \<open>\<open>held\<close> are the locks of other processes.\<close>

definition cmd_get :: "rec_lock list \<Rightarrow> nat \<Rightarrow> c_int \<Rightarrow> world7 \<Rightarrow> world7 outcome" where
  "cmd_get held fd rec_no w =
     (case w_file w of None \<Rightarrow> Done (say OpenFailed w)
      | Some f \<Rightarrow>
          obind (lock_record fd rec_no RdLck held) (\<lambda>l.
          case l of None \<Rightarrow> Done (say LockFailed w)
          | Some ls \<Rightarrow>
              (let (n, b) = read_record f rec_no
               in if n = int rec_size then Done (say (Rec rec_no (rec_of b)) w)
                  else Done (say (ReadFailed rec_no) w))))"

subsection \<open>PUT\<close>

text \<open>\<open>fgets\<close> into a field and the removal of the newline; at the end of the input the field stays.\<close>

definition edit_field :: "string \<Rightarrow> string \<Rightarrow> (string \<times> string) outcome" where
  "edit_field buf inp =
     (let (buf, inp) = (case fgets field_len inp of None \<Rightarrow> (buf, inp) | Some (l, r) \<Rightarrow> (put_string l buf, r))
      in obind (cut_line buf) (\<lambda>buf. Done (buf, inp)))"

text \<open>At the end of the input \<open>buf[0]\<close> is read uninitialised.\<close>

definition edit_semester :: "u8 \<Rightarrow> string \<Rightarrow> (u8 \<times> string) outcome" where
  "edit_semester sem inp =
     (case fgets 16 inp of None \<Rightarrow> Faults
      | Some (l, r) \<Rightarrow> Done (if l \<noteq> [] \<and> hd l = newline then sem else ucast (atoi (c_string l)), r))"

definition edit_record :: "record_s \<Rightarrow> string \<Rightarrow> (record_s \<times> string) outcome" where
  "edit_record work inp =
     obind (edit_field (r_name work) inp) (\<lambda>(name, inp).
     obind (edit_field (r_address work) inp) (\<lambda>(addr, inp).
     obind (edit_semester (r_semester work) inp) (\<lambda>(sem, inp).
     Done (work\<lparr>r_name := name, r_address := addr, r_semester := sem\<rparr>, inp))))"

text \<open>
  One pass from the label \<open>Again\<close>. \<open>others\<close> is what other processes do to the file between the
  unlocked read and the moment the lock is granted. The flag asks for another pass.
\<close>

definition put_pass :: "(string \<Rightarrow> string) \<Rightarrow> nat \<Rightarrow> c_int \<Rightarrow> string \<Rightarrow> world7 \<Rightarrow> (bool \<times> world7) outcome" where
  "put_pass others fd rec_no f w =
     (let (n, orig) = read_record f rec_no
      in if n \<noteq> int rec_size then Done (False, say (ReadFailed rec_no) w)
      else obind (edit_record (rec_of orig) (w_in w)) (\<lambda>(work, inp).
        let w = w\<lparr>w_in := inp\<rparr>
        in if orig = rec_bytes work then Done (False, say Unchanged w)
        else let f = others f; w = w\<lparr>w_file := Some f\<rparr>
        in obind (lock_record fd rec_no WrLck []) (\<lambda>l.
        if l = None then Done (False, say LockFailed w)
        else let (n, fresh) = read_record f rec_no
        in if n \<noteq> int rec_size then Done (False, say (ReadFailed rec_no) w)
        else if orig \<noteq> fresh then
          (let w = say (Conflict (rec_of fresh)) w;
               answer = w_in w; w = w\<lparr>w_in := drop 2 answer\<rparr>
           in Done (\<not> (answer \<noteq> [] \<and> hd answer = CHR ''-''), w))
        else let (n, f) = write_record f rec_no (rec_bytes work)
        in if n \<noteq> int rec_size then Done (False, say WriteFailed w)
        else Done (False, say (Updated rec_no) (w\<lparr>w_file := Some f\<rparr>)))))"

text \<open>
  The whole command: \<open>gs\<close> are the changes other processes make during the passes; after those
  the file is left alone. A further pass is then never asked for (\<open>cmd_put_returns\<close>).
\<close>

fun put_loop :: "(string \<Rightarrow> string) list \<Rightarrow> nat \<Rightarrow> c_int \<Rightarrow> world7 \<Rightarrow> world7 outcome" where
  "put_loop [] fd rec_no w =
     (case w_file w of None \<Rightarrow> Faults
      | Some f \<Rightarrow> obind (put_pass (\<lambda>f. f) fd rec_no f w) (\<lambda>(again, w). if again then Blocks else Done w))"
| "put_loop (g # gs) fd rec_no w =
     (case w_file w of None \<Rightarrow> Faults
      | Some f \<Rightarrow> obind (put_pass g fd rec_no f w) (\<lambda>(again, w). if again then put_loop gs fd rec_no w else Done w))"

definition cmd_put :: "(string \<Rightarrow> string) list \<Rightarrow> nat \<Rightarrow> c_int \<Rightarrow> world7 \<Rightarrow> world7 outcome" where
  "cmd_put gs fd rec_no w =
     (if w_file w = None then Done (say OpenFailed w) else put_loop gs fd rec_no w)"

subsection \<open>The interactive loop and the command line\<close>

definition chomp :: "string \<Rightarrow> string" where
  "chomp l = takeWhile (\<lambda>c. c \<noteq> NUL \<and> c \<noteq> newline) l"

text \<open>What a line asks for.\<close>

datatype command7 = NoCommand | Lst | Get c_int | Put c_int | BadUse | Init | Quit | Other string

definition parse_command :: "string \<Rightarrow> command7" where
  "parse_command buf =
     (case strtok buf of None \<Rightarrow> NoCommand
      | Some (cmd, rest) \<Rightarrow>
          if strcaseeq cmd ''LST'' then Lst
          else if strcaseeq cmd ''GET'' then
            (case strtok rest of Some (arg, _) \<Rightarrow> Get (atoi arg) | None \<Rightarrow> BadUse)
          else if strcaseeq cmd ''PUT'' then
            (case strtok rest of Some (arg, _) \<Rightarrow> Put (atoi arg) | None \<Rightarrow> BadUse)
          else if strcaseeq cmd ''INIT'' then Init
          else if strcaseeq cmd ''QUIT'' \<or> strcaseeq cmd ''EXIT'' then Quit
          else Other cmd)"

text \<open>No other process interferes; \<open>None\<close> ends the loop.\<close>

definition run_command :: "command7 \<Rightarrow> world7 \<Rightarrow> world7 option outcome" where
  "run_command c w =
     (case c of
        NoCommand \<Rightarrow> Done (Some w)
      | Lst \<Rightarrow> Done (Some (cmd_lst w))
      | Get n \<Rightarrow> obind (cmd_get [] 0 n w) (\<lambda>w. Done (Some w))
      | Put n \<Rightarrow> obind (cmd_put [] 0 n w) (\<lambda>w. Done (Some w))
      | BadUse \<Rightarrow> Done (Some (say Usage w))
      | Init \<Rightarrow> Done (Some (init_file w))
      | Quit \<Rightarrow> Done None
      | Other cmd \<Rightarrow> Done (Some (say (Unknown cmd) w)))"

section \<open>Reading and writing records\<close>

lemma rec_off_sint: "sint (rec_off n) = sint n * 161"
proof -
  have s: "sint (scast n :: u64) = sint n" by (simp add: sint_up_scast is_up)
  have "- (2 ^ 31) \<le> sint n" "sint n < 2 ^ 31"
    using sint_greater_eq[of n] sint_lt[of n] by simp_all
  then have "signed_take_bit 63 (sint n * 161) = sint n * 161"
    by (intro signed_take_bit_int_eq_self) simp_all
  then show ?thesis by (simp add: rec_off_def sint_word_ariths s)
qed

lemma char_of_byte [simp]: "(of_char (char_of (unat (w :: u8)) :: char) :: u8) = w"
proof -
  have "unat w < 256" using unsigned_less[of w] by simp
  then have "(of_char (char_of (unat w) :: char) :: nat) = unat w" by simp
  then have "(of_nat (of_char (char_of (unat w) :: char)) :: u8) = w" by simp
  then show ?thesis unfolding of_nat_of_char .
qed

lemma byte_of_char [simp]: "char_of (unat (of_char c :: u8)) = (c :: char)"
proof -
  have "unat (of_nat (of_char c) :: u8) = of_char c" by (simp add: unat_of_nat del: of_nat_of_char)
  then have "unat (of_char c :: u8) = of_char c" unfolding of_nat_of_char .
  then show ?thesis by (simp only: char_of_char)
qed

lemma rec_of_bytes: "rec_wf r \<Longrightarrow> rec_of (rec_bytes r) = r"
  by (simp add: rec_of_def rec_bytes_def rec_wf_def nth_append)

lemma rec_bytes_of:
  assumes "length b = rec_size"
  shows "rec_bytes (rec_of b) = b"
proof -
  have "drop 160 b = [b ! 160]" using Cons_nth_drop_Suc[of 160 b] assms by simp
  then have "take 80 b @ take 80 (drop 80 b) @ [b ! 160] = b"
    by (metis append_assoc append_take_drop_id drop_drop numeral_Bit0 take_add)
  then show ?thesis by (simp add: rec_bytes_def rec_of_def)
qed

definition slot :: "c_int \<Rightarrow> nat" where
  "slot n = nat (sint n) * rec_size"

lemma read_record_eq:
  "read_record f n = (if sint n < 0 then (-1, []) else (int (length (take rec_size (drop (slot n) f))), take rec_size (drop (slot n) f)))"
  by (simp add: read_record_def rec_off_sint slot_def nat_mult_distrib Let_def)

lemma read_record_full:
  "read_record f n = (161, b) \<longleftrightarrow> 0 \<le> sint n \<and> slot n + rec_size \<le> length f \<and> b = take rec_size (drop (slot n) f)"
  by (auto simp: read_record_eq)

lemma write_record_in:
  assumes "0 \<le> sint n" "slot n + rec_size \<le> length f" "length b = rec_size"
  shows "write_record f n b = (int rec_size, take (slot n) f @ b @ drop (slot n + rec_size) f)"
  using assms by (simp add: write_record_def rec_off_sint slot_def file_write_def nat_mult_distrib Let_def)

lemma slot_apart:
  assumes "m \<noteq> n" "0 \<le> sint m" "0 \<le> sint n"
  shows "slot m + rec_size \<le> slot n \<or> slot n + rec_size \<le> slot m"
proof -
  have "sint m \<noteq> sint n" using assms(1) signed_word_eqI by blast
  then have "nat (sint m) < nat (sint n) \<or> nat (sint n) < nat (sint m)" using assms(2,3) by auto
  then show ?thesis unfolding slot_def by auto
qed

lemma take_drop_before: "i + k \<le> j \<Longrightarrow> j \<le> length f \<Longrightarrow> take k (drop i (take j f @ b)) = take k (drop i f)"
  by (simp add: take_drop)

lemma drop_after: "j + length b \<le> i \<Longrightarrow> j \<le> length f \<Longrightarrow> drop i (take j f @ b @ drop (j + length b) f) = drop i f"
  by simp

lemma write_frame:
  assumes "length b = rec_size" "fst (read_record f n) = int rec_size"
  shows "\<exists>f'. write_record f n b = (int rec_size, f') \<and> length f' = length f \<and> read_record f' n = (int rec_size, b) \<and>
    (\<forall>m. m \<noteq> n \<longrightarrow> read_record f' m = read_record f m)"
proof -
  have n: "0 \<le> sint n" "slot n + rec_size \<le> length f"
    using assms(2) read_record_full[of f n "snd (read_record f n)"] by (simp_all add: prod_eq_iff)
  let ?f = "take (slot n) f @ b @ drop (slot n + rec_size) f"
  have "read_record ?f m = read_record f m" if "m \<noteq> n" for m
  proof (cases "sint m < 0")
    case False
    then show ?thesis
      using slot_apart[OF that _ n(1)] take_drop_before[of "slot m" rec_size "slot n" f] n(2) assms(1)
        drop_after[of "slot n" b "slot m" f]
      by (auto simp: read_record_eq)
  qed (simp add: read_record_eq)
  then show ?thesis
    using write_record_in[OF n assms(1)] n assms(1) by (intro exI[of _ ?f]) (simp add: read_record_eq)
qed

text \<open>
  C19. Writing a record that exists succeeds, keeps the size of the file, is read back exactly,
  and changes no other record, for every \<open>int\<close> record number; a negative number is refused by
  both calls, since the \<open>size_t\<close> product reads back as a negative offset.
\<close>

theorem write_record_frame:
  assumes "length b = rec_size"
  shows "(sint n < 0 \<longrightarrow> fst (read_record f n) = -1 \<and> write_record f n b = (-1, f)) \<and>
    (fst (read_record f n) = int rec_size \<longrightarrow>
      (\<exists>f'. write_record f n b = (int rec_size, f') \<and> length f' = length f \<and> read_record f' n = (int rec_size, b) \<and>
        (\<forall>m. m \<noteq> n \<longrightarrow> read_record f' m = read_record f m)))"
  using write_frame[OF assms] by (simp add: read_record_eq write_record_def rec_off_sint Let_def)

theorem write_record_frame_witness:
  "\<exists>f'. write_record (replicate 322 NUL) 1 (replicate 161 space) = (161, f') \<and> read_record f' 1 = (161, replicate 161 space) \<and>
     read_record f' 0 = (161, replicate 161 NUL)"
proof -
  have "fst (read_record (replicate 322 NUL) 1) = 161" "read_record (replicate 322 NUL) 0 = (161, replicate 161 NUL)"
    by (simp_all add: read_record_eq slot_def)
  then show ?thesis using write_record_frame[of "replicate 161 space" 1 "replicate 322 NUL"] by auto
qed

section \<open>INIT and LST\<close>

lemma length_rec_bytes: "rec_wf r \<Longrightarrow> length (rec_bytes r) = rec_size"
  by (simp add: rec_wf_def rec_bytes_def)

lemma list_rows_short: "length f < rec_size \<Longrightarrow> list_rows k f = []"
  by (simp add: list_rows.simps Let_def)

lemma list_rows_records:
  "list_all rec_wf rs \<Longrightarrow> length t < rec_size \<Longrightarrow>
    list_rows k (concat (map rec_bytes rs) @ t) = map (\<lambda>(i, r). Row i r) (enumerate k rs)"
proof (induction rs arbitrary: k)
  case Nil
  then show ?case by (simp add: list_rows_short)
next
  case (Cons r rs)
  then show ?case by (simp add: list_rows.simps[of k] length_rec_bytes rec_of_bytes)
qed

lemma length_dec02: "n < 100 \<Longrightarrow> length (dec02 n) = 2"
  by (auto simp: dec02_def dec.simps)

lemma dec02_no_NUL: "NUL \<notin> set (dec02 n)"
  by (auto dest!: set_dec02 simp: eq_commute[of NUL])

definition numbered :: "string \<Rightarrow> nat \<Rightarrow> string" where
  "numbered s i = s @ dec02 i"

lemma snprintf_numbered:
  assumes "length buf = field_len" "i < 100" "length s = 7" "NUL \<notin> set s"
  shows "length (snprintf_field (numbered s i) buf) = field_len"
    and "c_string (snprintf_field (numbered s i) buf) = numbered s i"
  using assms length_dec02[of i] dec02_no_NUL[of i] by (simp_all add: snprintf_field_def numbered_def)

lemma init_records_nth:
  assumes "rec_wf rec" "i + n \<le> 100" "k < n"
  shows "rec_wf (init_records i n rec ! k) \<and>
    c_string (r_name (init_records i n rec ! k)) = numbered ''Student'' (i + k) \<and>
    c_string (r_address (init_records i n rec ! k)) = numbered ''Address'' (i + k) \<and>
    r_semester (init_records i n rec ! k) = of_nat ((i + k) mod 8 + 1)"
  using assms
proof (induction n arbitrary: i rec k)
  case (Suc n)
  have "i < 100" using Suc(3) by simp
  note fields = snprintf_numbered[OF _ this, of "r_name rec" "''Student''"]
    snprintf_numbered[OF _ this, of "r_address rec" "''Address''"]
  show ?case
  proof (cases k)
    case 0
    then show ?thesis using Suc(2) fields by (simp add: rec_wf_def Let_def flip: numbered_def)
  next
    case (Suc k')
    then show ?thesis
      using Suc.IH[of _ "Suc i" k'] Suc.prems fields by (simp add: rec_wf_def Let_def flip: numbered_def)
  qed
qed simp

lemma length_init_records [simp]: "length (init_records i n rec) = n"
  by (induction n arbitrary: i rec) (simp_all add: Let_def)

lemma init_wf: "list_all rec_wf (init_records 0 RECORD_COUNT zero_record)"
  using init_records_nth[of zero_record 0 RECORD_COUNT]
  by (simp add: list_all_length RECORD_COUNT_def rec_wf_def zero_record_def)

lemma length_records: "list_all rec_wf rs \<Longrightarrow> length (concat (map rec_bytes rs)) = rec_size * length rs"
  by (induction rs) (simp_all add: length_rec_bytes)

text \<open>
  INIT followed by LST prints exactly ten rows, numbered from 0, whose fields are
  \<open>Student\<close> and \<open>Address\<close> with the two-digit number and whose semester is the number modulo 8
  plus one: what INIT writes is what LST parses.
\<close>

theorem init_then_lst:
  "\<exists>rows. w_out (cmd_lst (init_file w)) = w_out w @ Initialised # map (\<lambda>k. Row k (rows k)) [0..<RECORD_COUNT] \<and>
    (\<forall>k < RECORD_COUNT. c_string (r_name (rows k)) = ''Student'' @ dec02 k \<and>
      c_string (r_address (rows k)) = ''Address'' @ dec02 k \<and> r_semester (rows k) = of_nat (k mod 8 + 1))"
proof -
  let ?rs = "init_records 0 RECORD_COUNT zero_record"
  have wf: "rec_wf zero_record" by (simp add: rec_wf_def zero_record_def)
  note nth = init_records_nth[OF wf, of 0 RECORD_COUNT]
  have "list_rows 0 (concat (map rec_bytes ?rs)) = map (\<lambda>(i, r). Row i r) (enumerate 0 ?rs)"
    using list_rows_records[OF init_wf, of "[]" 0] by simp
  also have "\<dots> = map (\<lambda>k. Row k (?rs ! k)) [0..<RECORD_COUNT]"
    by (intro nth_equalityI) (simp_all add: nth_enumerate_eq)
  finally show ?thesis
    using nth by (intro exI[of _ "\<lambda>k. ?rs ! k"]) (simp add: cmd_lst_def init_file_def say_def numbered_def RECORD_COUNT_def)
qed

theorem init_then_lst_witness:
  "length (w_out (cmd_lst (init_file \<lparr>w_file = None, w_in = [], w_out = []\<rparr>))) = 11"
  using init_then_lst[of "\<lparr>w_file = None, w_in = [], w_out = []\<rparr>"] by (auto simp: RECORD_COUNT_def)

section \<open>PUT\<close>

lemma edit_field_line:
  assumes "length buf = field_len" "newline \<notin> set l" "NUL \<notin> set l" "length l \<le> 78"
  shows "\<exists>buf'. edit_field buf (l @ newline # r) = Done (buf', r) \<and> length buf' = field_len \<and> c_string buf' = l"
proof -
  let ?b = "put_string (l @ [newline]) buf"
  have "takeWhile (\<lambda>c. c \<noteq> NUL \<and> c \<noteq> newline) ?b = l"
    using assms(2,3) by (auto simp: put_string_def takeWhile_append)
  then have "cut_line ?b = Done (?b[length l := NUL])"
    using assms by (simp add: cut_line_def line_end_def Let_def)
  moreover have eq: "?b[length l := NUL] = put_string l (?b[length l := NUL])"
    by (simp add: put_string_def list_update_append)
  have "c_string (?b[length l := NUL]) = l" by (subst eq) (rule c_string_put[OF assms(3)])
  moreover have "length (?b[length l := NUL]) = field_len" using assms(1,4) by simp
  moreover have "fgets field_len (l @ newline # r) = Some (l @ [newline], r)"
    using fgets_newline[OF assms(2)] assms(4) by simp
  ultimately show ?thesis by (simp add: edit_field_def)
qed

lemma edit_semester_number:
  assumes "s < 256"
  shows "edit_semester sem (dec s @ newline # r) = Done (of_nat s, r)"
proof -
  have nl: "newline \<notin> set (dec s)" "NUL \<notin> set (dec s)" by (auto dest!: set_dec simp: eq_commute[of newline] eq_commute[of NUL])
  have len: "length (dec s) \<le> 3" using assms by (auto simp: dec.simps)
  have hd: "hd (dec s) \<noteq> newline" using nl(1) by (metis dec_neq_Nil hd_in_set)
  have "c_string (dec s @ [newline]) = dec s @ [newline]"
    using nl(2) by (auto simp: c_string_def takeWhile_eq_all_conv)
  moreover have "atoi (dec s @ [newline]) = of_nat s"
    using assms atoi_dec_line[of s "[]"] by simp
  ultimately show ?thesis
    using fgets_newline[OF nl(1), of 16 r] len hd assms
    by (simp add: edit_semester_def unsigned_of_nat take_bit_nat_eq_self)
qed

lemma put_alone:
  assumes "w_file w = Some f" "read_record f n = (int rec_size, old)"
    and "edit_record (rec_of old) (w_in w) = Done (work, inp)" "rec_wf work"
  shows "\<exists>w' f'. cmd_put [] fd n w = Done w' \<and> w_file w' = Some f' \<and> w_in w' = inp \<and>
    read_record f' n = (int rec_size, rec_bytes work) \<and> (\<forall>m. m \<noteq> n \<longrightarrow> read_record f' m = read_record f m)"
proof (cases "old = rec_bytes work")
  case True
  then show ?thesis using assms by (simp add: cmd_put_def put_pass_def say_def)
next
  case False
  have "0 \<le> sint n" using assms(2) by (simp add: read_record_full)
  obtain f' where "write_record f n (rec_bytes work) = (int rec_size, f')"
    "read_record f' n = (int rec_size, rec_bytes work)" "\<forall>m. m \<noteq> n \<longrightarrow> read_record f' m = read_record f m"
    using write_frame[OF length_rec_bytes[OF assms(4)], of f n] assms(2) by auto
  then show ?thesis
    using assms False \<open>0 \<le> sint n\<close>
    by (simp add: cmd_put_def put_pass_def say_def lock_record_def rec_off_sint Let_def)
qed

lemma rec_of_wf: "length b = rec_size \<Longrightarrow> rec_wf (rec_of b)"
  by (simp add: rec_of_def rec_wf_def)

lemma read_record_length: "read_record f n = (int rec_size, b) \<Longrightarrow> length b = rec_size"
  by (auto simp: read_record_full)

lemma edit_record_lines:
  assumes "rec_wf r" "newline \<notin> set nm" "NUL \<notin> set nm" "length nm \<le> 78"
    and "newline \<notin> set ad" "NUL \<notin> set ad" "length ad \<le> 78" and "edit_semester (r_semester r) sl = Done (sem, rest)"
  shows "\<exists>work. edit_record r (nm @ newline # ad @ newline # sl) = Done (work, rest) \<and> rec_wf work \<and>
    c_string (r_name work) = nm \<and> c_string (r_address work) = ad \<and> r_semester work = sem"
proof -
  obtain b1 where "edit_field (r_name r) (nm @ newline # ad @ newline # sl) = Done (b1, ad @ newline # sl)"
    "length b1 = field_len" "c_string b1 = nm"
    using edit_field_line[OF _ assms(2-4)] assms(1) by (auto simp: rec_wf_def)
  moreover obtain b2 where "edit_field (r_address r) (ad @ newline # sl) = Done (b2, sl)"
    "length b2 = field_len" "c_string b2 = ad"
    using edit_field_line[OF _ assms(5-7)] assms(1) by (auto simp: rec_wf_def)
  ultimately show ?thesis using assms(8) by (simp add: edit_record_def rec_wf_def)
qed



text \<open>
  Pressing Enter at the prompts for the name and the address does not skip them, although
  both prompts offer it: the fields become empty. Only the semester is kept by Enter.
\<close>

theorem put_enter_erases_fields:
  assumes "w_file w = Some f" "read_record f n = (int rec_size, old)"
    and "w_in w = newline # newline # newline # rest"
  shows "\<exists>w' f' r. cmd_put [] fd n w = Done w' \<and> w_file w' = Some f' \<and>
    read_record f' n = (int rec_size, rec_bytes r) \<and>
    c_string (r_name r) = [] \<and> c_string (r_address r) = [] \<and> r_semester r = r_semester (rec_of old)"
proof -
  have "edit_semester (r_semester (rec_of old)) (newline # rest) = Done (r_semester (rec_of old), rest)"
    by (simp add: edit_semester_def fgets_def numeral_eq_Suc)
  then obtain work where work: "edit_record (rec_of old) (w_in w) = Done (work, rest)" "rec_wf work"
    "c_string (r_name work) = []" "c_string (r_address work) = []" "r_semester work = r_semester (rec_of old)"
    using edit_record_lines[OF rec_of_wf[OF read_record_length[OF assms(2)]], of "[]" "[]" "newline # rest"]
      assms(3) by auto
  then show ?thesis using put_alone[OF assms(1,2) work(1,2), of fd] by metis
qed

theorem put_enter_erases_fields_witness:
  "\<exists>w' f' r. cmd_put [] 3 0 \<lparr>w_file = Some (replicate 161 CHR ''x''), w_in = [newline, newline, newline], w_out = []\<rparr> = Done w' \<and>
     w_file w' = Some f' \<and> read_record f' 0 = (161, rec_bytes r) \<and> c_string (r_name r) = []"
proof -
  have "read_record (replicate 161 CHR ''x'') 0 = (int rec_size, replicate 161 CHR ''x'')"
    by (simp add: read_record_eq slot_def)
  then show ?thesis
    using put_enter_erases_fields[of "\<lparr>w_file = Some (replicate 161 CHR ''x''), w_in = [newline, newline, newline], w_out = []\<rparr>"
      "replicate 161 CHR ''x''" 0 "replicate 161 CHR ''x''" "[]" 3] by simp blast
qed

section \<open>The interactive loop\<close>

lemma edit_field_in: "edit_field buf inp = Done (b, inp') \<Longrightarrow> length inp' \<le> length inp"
  by (auto simp: edit_field_def dest: fgets_split(1) split: option.splits prod.splits)

lemma edit_record_in: "edit_record r inp = Done (work, inp') \<Longrightarrow> length inp' \<le> length inp"
  by (fastforce simp: edit_record_def edit_semester_def dest: edit_field_in fgets_split(1) split: option.splits)

lemma put_pass_in: "put_pass g fd n f w = Done (again, w') \<Longrightarrow> length (w_in w') \<le> length (w_in w)"
  by (fastforce simp: put_pass_def say_def Let_def dest: edit_record_in split: if_splits prod.splits)

lemma cmd_put_in: "cmd_put [] fd n w = Done w' \<Longrightarrow> length (w_in w') \<le> length (w_in w)"
  by (auto simp: cmd_put_def say_def dest: put_pass_in split: if_splits)

lemma cmd_get_in: "cmd_get ls fd n w = Done w' \<Longrightarrow> w_in w' = w_in w \<and> w_file w' = w_file w"
  by (auto simp: cmd_get_def say_def split: option.splits prod.splits if_splits)

lemma cmd_lst_in [simp]: "w_in (cmd_lst w) = w_in w" "w_file (cmd_lst w) = w_file w"
  by (simp_all add: cmd_lst_def say_def split: option.splits)

lemma run_command_in: "run_command c w = Done (Some w') \<Longrightarrow> length (w_in w') \<le> length (w_in w)"
  by (cases c) (auto simp: run_command_def init_file_def say_def dest: cmd_get_in cmd_put_in)

text \<open>\<open>main\<close> without arguments. It ends at the end of the input or with QUIT.\<close>

function main_loop7 :: "world7 \<Rightarrow> world7 outcome" where
  "main_loop7 w =
     (case fgets 128 (w_in w) of None \<Rightarrow> Done w
      | Some (l, r) \<Rightarrow>
          obind (run_command (parse_command (chomp l)) (w\<lparr>w_in := r\<rparr>)) (\<lambda>res.
          case res of None \<Rightarrow> Done (w\<lparr>w_in := r\<rparr>) | Some w' \<Rightarrow> main_loop7 w'))"
  by pat_completeness auto
termination
  by (relation "measure (\<lambda>w. length (w_in w))") (auto dest!: run_command_in fgets_split(3))

declare main_loop7.simps [simp del]

text \<open>\<open>main\<close> with arguments; the boolean is the exit status \<open>EXIT_SUCCESS\<close>.\<close>

definition main_args7 :: "string list \<Rightarrow> world7 \<Rightarrow> (bool \<times> world7) outcome" where
  "main_args7 args w =
     (case args of
        [] \<Rightarrow> obind (main_loop7 w) (\<lambda>w. Done (True, w))
      | cmd # rest \<Rightarrow>
          if cmd = ''LST'' then Done (True, cmd_lst w)
          else if cmd = ''GET'' \<and> length rest = 1 then obind (cmd_get [] 0 (atoi (hd rest)) w) (\<lambda>w. Done (True, w))
          else if cmd = ''PUT'' \<and> length rest = 1 then obind (cmd_put [] 0 (atoi (hd rest)) w) (\<lambda>w. Done (True, w))
          else Done (False, w))"

subsection \<open>A session keeps the file a sequence of whole records\<close>

definition whole :: "world7 \<Rightarrow> bool" where
  "whole w \<longleftrightarrow> (\<forall>f. w_file w = Some f \<longrightarrow> length f mod rec_size = 0)"

lemma edit_field_length: "edit_field buf inp = Done (b, inp') \<Longrightarrow> length buf = field_len \<Longrightarrow> length b = field_len"
  by (fastforce simp: edit_field_def cut_line_def dest: fgets_split(2) c_store_DoneD split: option.splits prod.splits)

lemma edit_record_wf: "edit_record r inp = Done (work, inp') \<Longrightarrow> rec_wf r \<Longrightarrow> rec_wf work"
  by (auto simp: edit_record_def rec_wf_def dest: edit_field_length)

lemma put_pass_whole:
  assumes "put_pass (\<lambda>f. f) fd n f w = Done (again, w')" "w_file w = Some f" "whole w"
  shows "whole w' \<and> \<not> again"
proof (cases "fst (read_record f n) = int rec_size")
  case True
  then obtain b where b: "read_record f n = (int rec_size, b)" by (metis prod.collapse)
  obtain work inp where e: "edit_record (rec_of b) (w_in w) = Done (work, inp)"
    using assms(1) b by (auto simp: put_pass_def)
  then have "rec_wf work" using edit_record_wf rec_of_wf read_record_length[OF b] by blast
  then obtain f' where "write_record f n (rec_bytes work) = (int rec_size, f')" "length f' = length f"
    using write_frame[OF length_rec_bytes True] by blast
  then show ?thesis
    using assms b e by (auto simp: put_pass_def say_def whole_def Let_def split: if_splits)
next
  case False
  then show ?thesis using assms by (auto simp: put_pass_def say_def whole_def split: prod.splits)
qed

lemma run_command_whole:
  assumes "run_command c w = Done (Some w')" "whole w"
  shows "whole w'"
proof (cases c)
  case (Put n)
  then show ?thesis
    using assms put_pass_whole by (fastforce simp: run_command_def cmd_put_def say_def whole_def split: if_splits)
next
  case Init
  have "length (concat (map rec_bytes (init_records 0 RECORD_COUNT zero_record))) mod rec_size = 0"
    by (simp add: length_records[OF init_wf])
  then show ?thesis using assms Init by (auto simp: run_command_def init_file_def say_def whole_def)
qed (use assms in \<open>auto simp: run_command_def say_def whole_def dest: cmd_get_in\<close>)

lemma main_loop7_whole: "whole w \<Longrightarrow> main_loop7 w = Done w' \<Longrightarrow> whole w'"
proof (induction w rule: main_loop7.induct)
  case (1 w)
  show ?case
  proof (cases "fgets 128 (w_in w)")
    case None
    then show ?thesis using 1(2,3) by (simp add: main_loop7.simps[of w])
  next
    case (Some lr)
    then obtain l r where lr: "fgets 128 (w_in w) = Some (l, r)" by (cases lr) simp
    have wr: "whole (w\<lparr>w_in := r\<rparr>)" using 1(2) by (simp add: whole_def)
    show ?thesis
      using 1(1)[OF lr refl] run_command_whole[OF _ wr] 1(3) wr lr
      by (auto simp: main_loop7.simps[of w] split: option.splits)
  qed
qed

lemma main_args7_whole: "whole w \<Longrightarrow> main_args7 args w = Done (ok, w') \<Longrightarrow> whole w'"
proof (cases args)
  case (Cons cmd rest)
  assume w: "whole w" "main_args7 args w = Done (ok, w')"
  have "run_command (Put n) w = Done (Some u)" if "cmd_put [] 0 n w = Done u" for n u using that by (simp add: run_command_def)
  then have "whole u" if "cmd_put [] 0 n w = Done u" for n u using that run_command_whole w(1) by blast
  moreover have "whole (cmd_lst w)" "whole u" if "cmd_get [] 0 n w = Done u" for n u
    using w(1) cmd_get_in[OF that] by (simp_all add: whole_def)
  moreover have "whole (cmd_lst w)" using w(1) by (simp add: whole_def)
  ultimately show "whole w'" using w Cons by (auto simp: main_args7_def split: if_splits)
qed (auto simp: main_args7_def dest: main_loop7_whole)



subsection \<open>PUT returns\<close>

text \<open>When the other processes change the file finitely often, PUT comes to an end.\<close>

lemma edit_field_no_wait: "edit_field buf inp \<noteq> Blocks"
  by (auto simp: edit_field_def cut_line_def c_store_def line_end_def Let_def obind_Blocks_iff split: option.splits if_splits)

lemma edit_record_no_wait: "edit_record r inp \<noteq> Blocks"
  using edit_field_no_wait by (auto simp: edit_record_def edit_semester_def obind_Blocks_iff split: option.splits prod.splits)

lemma put_pass_no_wait: "put_pass g fd n f w \<noteq> Blocks"
  using edit_record_no_wait by (auto simp: put_pass_def lock_record_def Let_def obind_Blocks_iff split: prod.splits if_splits)

lemma put_pass_alone: "put_pass (\<lambda>f. f) fd n f w = Done (again, w') \<Longrightarrow> \<not> again"
  by (auto simp: put_pass_def Let_def split: prod.splits if_splits)

lemma cmd_put_returns: "cmd_put gs fd n w \<noteq> Blocks"
proof -
  have "put_loop gs fd n w \<noteq> Blocks" for w
    by (induction gs fd n w rule: put_loop.induct)
      (auto simp: obind_Blocks_iff put_pass_no_wait dest: put_pass_alone split: option.splits if_splits)
  then show ?thesis by (simp add: cmd_put_def)
qed

end
