(* ===== verification/Record_Locks.thy ===== *)
theory Record_Locks
  imports Record_Store
begin

text \<open>
  Several processes of lab07/src/main.c run GET and PUT on one file. A process is the point it
  has reached in \<open>cmd_get\<close> or \<open>cmd_put\<close>; each system call is one step. PUT reads the record without
  a lock, lets the user edit a copy, then takes a write lock, reads again and writes only if
  the record is still what the user saw. \<open>v_log\<close> is ghost state: the committed writes, each with
  the bytes its user saw.

  The invariant says what the locks protect; from it follow that writers exclude readers and
  writers of the same record, and that no update is lost.
\<close>

section \<open>Processes and steps\<close>

datatype proc7 =
    Idle7
  | Editing c_int string            \<comment> \<open>read without lock, the user is typing\<close>
  | WantWrite c_int string string   \<comment> \<open>in \<open>lock_record\<close>: what was seen, what is to be stored\<close>
  | Locked c_int string string
  | Writing c_int string string     \<comment> \<open>the second read agreed with the first\<close>
  | Written c_int
  | Asking c_int                    \<comment> \<open>conflict reported\<close>
  | WantRead c_int
  | Reading c_int

record sys7 =
  v_file :: string
  v_locks :: "rec_lock list"
  v_procs :: "proc7 list"
  v_log :: "(c_int \<times> string \<times> string) list"

abbreviation pc7 :: "sys7 \<Rightarrow> nat \<Rightarrow> proc7 \<Rightarrow> bool" where
  "pc7 s i p \<equiv> at_pc (v_procs s) i p"

abbreviation goto7 :: "nat \<Rightarrow> proc7 \<Rightarrow> sys7 \<Rightarrow> sys7" where
  "goto7 i p s \<equiv> s\<lparr>v_procs := (v_procs s)[i := p]\<rparr>"

abbreviation release7 :: "nat \<Rightarrow> c_int \<Rightarrow> sys7 \<Rightarrow> sys7" where
  "release7 i n s \<equiv> s\<lparr>v_locks := unlock_record i n (v_locks s)\<rparr>"

inductive step7 :: "sys7 \<Rightarrow> sys7 \<Rightarrow> bool" where
  put_read: "pc7 s i Idle7 \<or> pc7 s i (Asking n) \<Longrightarrow> read_record (v_file s) n = (int rec_size, b) \<Longrightarrow>
    step7 s (goto7 i (Editing n b) s)"
| put_read_fails: "pc7 s i Idle7 \<or> pc7 s i (Asking n) \<Longrightarrow> fst (read_record (v_file s) n) \<noteq> int rec_size \<Longrightarrow>
    step7 s (goto7 i Idle7 s)"
| put_edit: "pc7 s i (Editing n b) \<Longrightarrow> edit_record (rec_of b) inp = Done (work, rest) \<Longrightarrow> rec_bytes work \<noteq> b \<Longrightarrow>
    step7 s (goto7 i (WantWrite n b (rec_bytes work)) s)"
| put_unchanged: "pc7 s i (Editing n b) \<Longrightarrow> edit_record (rec_of b) inp = Done (work, rest) \<Longrightarrow> rec_bytes work = b \<Longrightarrow>
    step7 s (goto7 i Idle7 s)"
| put_lock: "pc7 s i (WantWrite n b w) \<Longrightarrow> lock_record i n WrLck (v_locks s) = Done (Some ls) \<Longrightarrow>
    step7 s (goto7 i (Locked n b w) (s\<lparr>v_locks := ls\<rparr>))"
| put_refused: "pc7 s i (WantWrite n b w) \<Longrightarrow> lock_record i n WrLck (v_locks s) = Done None \<Longrightarrow>
    step7 s (goto7 i Idle7 s)"
| put_check: "pc7 s i (Locked n b w) \<Longrightarrow> read_record (v_file s) n = (int rec_size, b) \<Longrightarrow>
    step7 s (goto7 i (Writing n b w) s)"
| put_conflict: "pc7 s i (Locked n b w) \<Longrightarrow> read_record (v_file s) n = (int rec_size, b') \<Longrightarrow> b' \<noteq> b \<Longrightarrow>
    step7 s (goto7 i (Asking n) (release7 i n s))"
| put_reread_fails: "pc7 s i (Locked n b w) \<Longrightarrow> fst (read_record (v_file s) n) \<noteq> int rec_size \<Longrightarrow>
    step7 s (goto7 i Idle7 (release7 i n s))"
| put_write: "pc7 s i (Writing n b w) \<Longrightarrow> write_record (v_file s) n w = (k, f) \<Longrightarrow>
    step7 s (goto7 i (Written n) (s\<lparr>v_file := f, v_log := v_log s @ [(n, b, w)]\<rparr>))"
| put_unlock: "pc7 s i (Written n) \<Longrightarrow> step7 s (goto7 i Idle7 (release7 i n s))"
| put_give_up: "pc7 s i (Asking n) \<Longrightarrow> step7 s (goto7 i Idle7 s)"
| get_start: "pc7 s i Idle7 \<Longrightarrow> step7 s (goto7 i (WantRead n) s)"
| get_lock: "pc7 s i (WantRead n) \<Longrightarrow> lock_record i n RdLck (v_locks s) = Done (Some ls) \<Longrightarrow>
    step7 s (goto7 i (Reading n) (s\<lparr>v_locks := ls\<rparr>))"
| get_refused: "pc7 s i (WantRead n) \<Longrightarrow> lock_record i n RdLck (v_locks s) = Done None \<Longrightarrow>
    step7 s (goto7 i Idle7 s)"
| get_unlock: "pc7 s i (Reading n) \<Longrightarrow> step7 s (goto7 i Idle7 (release7 i n s))"

definition start7 :: "string \<Rightarrow> nat \<Rightarrow> sys7" where
  "start7 f k = \<lparr>v_file = f, v_locks = [], v_procs = replicate k Idle7, v_log = []\<rparr>"

definition reachable7 :: "string \<Rightarrow> nat \<Rightarrow> sys7 \<Rightarrow> bool" where
  "reachable7 f k s \<longleftrightarrow> step7\<^sup>*\<^sup>* (start7 f k) s"

section \<open>The invariant\<close>

fun held7 :: "proc7 \<Rightarrow> (lock_type \<times> c_int) option" where
  "held7 (Locked n b w) = Some (WrLck, n)"
| "held7 (Writing n b w) = Some (WrLck, n)"
| "held7 (Written n) = Some (WrLck, n)"
| "held7 (Reading n) = Some (RdLck, n)"
| "held7 p = None"

text \<open>A process that is about to write still sees what its user saw, and stores a whole record.\<close>

fun fresh7 :: "string \<Rightarrow> proc7 \<Rightarrow> bool" where
  "fresh7 f (Editing n b) \<longleftrightarrow> length b = rec_size"
| "fresh7 f (WantWrite n b w) \<longleftrightarrow> length w = rec_size"
| "fresh7 f (Locked n b w) \<longleftrightarrow> length w = rec_size"
| "fresh7 f (Writing n b w) \<longleftrightarrow> length w = rec_size \<and> read_record f n = (int rec_size, b)"
| "fresh7 f p \<longleftrightarrow> True"

definition locks7 :: "sys7 \<Rightarrow> bool" where
  "locks7 s \<longleftrightarrow>
     (\<forall>i p t n. pc7 s i p \<and> held7 p = Some (t, n) \<longrightarrow> (i, t, sint (rec_off n)) \<in> set (v_locks s)) \<and>
     (\<forall>a \<in> set (v_locks s). \<forall>b \<in> set (v_locks s). \<not> lock_clash a b)"

definition fresh_all7 :: "sys7 \<Rightarrow> bool" where
  "fresh_all7 s \<longleftrightarrow> (\<forall>i p. pc7 s i p \<longrightarrow> fresh7 (v_file s) p)"

text \<open>Every committed write was applied to exactly the bytes its user saw.\<close>

fun replays :: "string \<Rightarrow> (c_int \<times> string \<times> string) list \<Rightarrow> string \<Rightarrow> bool" where
  "replays f [] g \<longleftrightarrow> f = g"
| "replays f ((n, b, w) # log) g \<longleftrightarrow>
     read_record f n = (int rec_size, b) \<and>
     (case write_record f n w of (k, f') \<Rightarrow> k = int rec_size \<and> replays f' log g)"

lemma replays_snoc:
  assumes "replays f log g" "read_record g n = (int rec_size, b)" "write_record g n w = (int rec_size, h)"
  shows "replays f (log @ [(n, b, w)]) h"
  using assms by (induction f log g rule: replays.induct) auto

definition inv7 :: "string \<Rightarrow> sys7 \<Rightarrow> bool" where
  "inv7 f s \<longleftrightarrow> locks7 s \<and> fresh_all7 s \<and> replays f (v_log s) (v_file s)"

subsection \<open>Locks\<close>

lemma lock_clash_sym: "lock_clash a b \<Longrightarrow> lock_clash b a"
  by (cases a; cases b) (auto simp: lock_clash_max max.commute)

lemma holders_exclude:
  assumes "locks7 s" "pc7 s i p" "held7 p = Some (WrLck, n)" "pc7 s j q" "held7 q = Some (t, n)"
  shows "i = j"
proof (rule ccontr)
  assume "i \<noteq> j"
  let ?a = "(i, WrLck, sint (rec_off n))" and ?b = "(j, t, sint (rec_off n))"
  have "?a \<in> set (v_locks s)" "?b \<in> set (v_locks s)" using assms unfolding locks7_def by blast+
  then have "\<not> lock_clash ?a ?b" using assms(1) unfolding locks7_def by blast
  then show False using \<open>i \<noteq> j\<close> by (simp add: lock_clash_max)
qed

lemma locks7_keep:
  assumes "locks7 s" "pc7 s i p" "v_procs t = (v_procs s)[i := p']" "v_locks t = v_locks s"
    and "held7 p' = held7 p \<or> held7 p' = None"
  shows "locks7 t"
  using assms by (auto simp: locks7_def at_pc_update split: if_splits)

lemma locks7_acquire:
  assumes "locks7 s" "pc7 s i p" "v_procs t = (v_procs s)[i := p']" "held7 p' = Some (typ, n)"
    and "lock_record i n typ (v_locks s) = Done (Some (v_locks t))"
  shows "locks7 t"
proof -
  let ?l = "(i, typ, sint (rec_off n))"
  have t: "v_locks t = ?l # v_locks s" "\<forall>a \<in> set (v_locks s). \<not> lock_clash ?l a"
    using assms(5) by (auto simp: lock_record_def Let_def list_ex_iff split: if_splits)
  moreover have "\<not> lock_clash ?l ?l" by (simp add: lock_clash_max)
  ultimately show ?thesis
    using assms(1-4) lock_clash_sym[of _ ?l] by (auto simp: locks7_def at_pc_update split: if_splits)
qed

lemma locks7_release:
  assumes "locks7 s" "pc7 s i p" "v_procs t = (v_procs s)[i := p']" "held7 p' = None"
    and "v_locks t = unlock_record i n (v_locks s)"
  shows "locks7 t"
  using assms by (auto simp: locks7_def at_pc_update unlock_record_def split: if_splits)

lemma step7_locks:
  assumes "step7 s t" "locks7 s"
  shows "locks7 t"
  using assms(1)
proof (cases rule: step7.cases)
  case (put_lock i n b w ls)
  then show ?thesis by (intro locks7_acquire[OF assms(2) put_lock(2)]) auto
next
  case (get_lock i n ls)
  then show ?thesis by (intro locks7_acquire[OF assms(2) get_lock(2)]) auto
next
  case (put_read i n b)
  then show ?thesis using locks7_keep[OF assms(2)] by auto
next
  case (put_read_fails i n)
  then show ?thesis using locks7_keep[OF assms(2)] by auto
next
  case (put_conflict i n b w b')
  then show ?thesis by (intro locks7_release[OF assms(2) put_conflict(2)]) auto
next
  case (put_reread_fails i n b w)
  then show ?thesis by (intro locks7_release[OF assms(2) put_reread_fails(2)]) auto
next
  case (put_unlock i n)
  then show ?thesis by (intro locks7_release[OF assms(2) put_unlock(2)]) auto
next
  case (get_unlock i n)
  then show ?thesis by (intro locks7_release[OF assms(2) get_unlock(2)]) auto
qed ((rule locks7_keep[OF assms(2)], assumption, (simp; fail)+)[1])+

subsection \<open>Fresh reads and the log\<close>

lemma fresh7_frame:
  assumes "fresh7 f p" "\<And>n b w. p = Writing n b w \<Longrightarrow> read_record g n = read_record f n"
  shows "fresh7 g p"
  using assms by (cases p) auto

lemma fresh_all7_move:
  assumes "fresh_all7 s" "pc7 s i p" "v_procs t = (v_procs s)[i := p']" "v_file t = v_file s" "fresh7 (v_file s) p'"
  shows "fresh_all7 t"
  using assms by (auto simp: fresh_all7_def at_pc_update split: if_splits)

lemma fresh7D: "fresh_all7 s \<Longrightarrow> pc7 s i p \<Longrightarrow> fresh7 (v_file s) p"
  by (simp add: fresh_all7_def)

lemma edit_bytes_length:
  assumes "length b = rec_size" "edit_record (rec_of b) inp = Done (work, rest)"
  shows "length (rec_bytes work) = rec_size"
  using edit_record_wf[OF assms(2) rec_of_wf[OF assms(1)]] length_rec_bytes by blast

lemma write7:
  assumes "fresh_all7 s" "pc7 s i (Writing n b w)" "write_record (v_file s) n w = (k, f)"
  shows "read_record (v_file s) n = (int rec_size, b)" "k = int rec_size"
    "\<And>m. m \<noteq> n \<Longrightarrow> read_record f m = read_record (v_file s) m"
proof -
  have w: "length w = rec_size" "read_record (v_file s) n = (int rec_size, b)"
    using fresh7D[OF assms(1,2)] by simp_all
  show "read_record (v_file s) n = (int rec_size, b)" by (rule w(2))
  show "k = int rec_size" "\<And>m. m \<noteq> n \<Longrightarrow> read_record f m = read_record (v_file s) m"
    using write_frame[OF w(1), of "v_file s" n] w(2) assms(3) by auto
qed

lemma step7_fresh:
  assumes "step7 s t" "locks7 s" "fresh_all7 s"
  shows "fresh_all7 t"
  using assms(1)
proof (cases rule: step7.cases)
  case (put_read i n b)
  then show ?thesis
    using fresh_all7_move[OF assms(3)] read_record_length[OF put_read(3)] by auto
next
  case (put_read_fails i n)
  then show ?thesis using fresh_all7_move[OF assms(3)] by auto
next
  case (put_edit i n b inp work rest)
  have "length b = rec_size" using fresh7D[OF assms(3) put_edit(2)] by simp
  then show ?thesis
    using put_edit edit_bytes_length by (intro fresh_all7_move[OF assms(3) put_edit(2)]) auto
next
  case (put_lock i n b w ls)
  have "length w = rec_size" using fresh7D[OF assms(3) put_lock(2)] by simp
  then show ?thesis using put_lock by (intro fresh_all7_move[OF assms(3) put_lock(2)]) auto
next
  case (put_check i n b w)
  have "length w = rec_size" using fresh7D[OF assms(3) put_check(2)] by simp
  then show ?thesis using put_check by (intro fresh_all7_move[OF assms(3) put_check(2)]) auto
next
  case (put_write i n b w k f)
  show ?thesis
    unfolding fresh_all7_def
  proof (intro allI impI)
    fix j q
    assume q: "pc7 t j q"
    show "fresh7 (v_file t) q"
    proof (cases "j = i")
      case True
      then show ?thesis using q put_write by (auto simp: at_pc_update)
    next
      case False
      then have s: "pc7 s j q" using q put_write by (auto simp: at_pc_update)
      have "read_record f m = read_record (v_file s) m" if "q = Writing m b' w'" for m b' w'
        using write7(3)[OF assms(3) put_write(2,3)] holders_exclude[OF assms(2) put_write(2) _ s] that False by force
      then show ?thesis using fresh7_frame[of "v_file s" q f] s assms(3) put_write(1) by (auto simp: fresh_all7_def)
    qed
  qed
qed ((rule fresh_all7_move[OF assms(3)], assumption, (simp; fail)+)[1])+

lemma step7_replays:
  assumes "step7 s t" "fresh_all7 s" "replays f (v_log s) (v_file s)"
  shows "replays f (v_log t) (v_file t)"
  using assms(1)
proof (cases rule: step7.cases)
  case (put_write i n b w k g)
  then show ?thesis
    using replays_snoc[OF assms(3)] write7(1,2)[OF assms(2) put_write(2,3)] by simp
qed (use assms(3) in simp_all)

lemma start7_inv: "inv7 f (start7 f k)"
  by (auto simp: inv7_def start7_def locks7_def fresh_all7_def at_pc_def)

lemma step7_inv: "step7 s t \<Longrightarrow> inv7 f s \<Longrightarrow> inv7 f t"
  using step7_locks step7_fresh step7_replays by (simp add: inv7_def)

lemma reachable7_inv: "reachable7 f k s \<Longrightarrow> inv7 f s"
  unfolding reachable7_def by (induction rule: rtranclp_induct) (auto intro: start7_inv step7_inv)

lemma reachable7_step: "reachable7 f k s \<Longrightarrow> step7 s t \<Longrightarrow> reachable7 f k t"
  by (simp add: reachable7_def)

text \<open>One process edits record 0 of an empty one-record file up to the write.\<close>

lemma run7:
  obtains s w where "reachable7 (replicate 161 NUL) 1 s" "pc7 s 0 (Writing 0 (replicate 161 NUL) w)"
    "v_file s = replicate 161 NUL" "v_log s = []"
proof -
  let ?f = "replicate 161 NUL"
  have rd: "read_record ?f 0 = (int rec_size, ?f)" by (simp add: read_record_eq slot_def)
  have sem: "edit_semester (r_semester (rec_of ?f)) [newline] = Done (r_semester (rec_of ?f), [])"
    by (simp add: edit_semester_def fgets_def numeral_eq_Suc)
  obtain work where work: "edit_record (rec_of ?f) (''Ann'' @ newline # [] @ newline # [newline]) = Done (work, [])"
    "c_string (r_name work) = ''Ann''"
    using edit_record_lines[OF rec_of_wf, of ?f "''Ann''" "[]", OF _ _ _ _ _ _ _ sem] by auto
  have "rec_bytes work \<noteq> ?f"
  proof
    assume "rec_bytes work = ?f"
    then have "set (r_name work) \<subseteq> {NUL}" by (metis rec_bytes_def set_append set_replicate_conv_if sup_ge1 zero_neq_numeral)
    then have "c_string (r_name work) = []" by (cases "r_name work") (auto simp: c_string_def)
    then show False using work(2) by simp
  qed
  note st = at_pc_def start7_def lock_record_def rec_off_def
  have r0: "reachable7 ?f 1 (start7 ?f 1)" by (simp add: reachable7_def)
  note r1 = reachable7_step[OF r0 step7.put_read[of _ 0 0 ?f]]
  then have "reachable7 ?f 1 \<lparr>v_file = ?f, v_locks = [], v_procs = [Editing 0 ?f], v_log = []\<rparr>" using rd by (simp add: st)
  note reachable7_step[OF this step7.put_edit[OF _ work(1) \<open>rec_bytes work \<noteq> ?f\<close>, where i = 0 and n = 0]]
  then have "reachable7 ?f 1 \<lparr>v_file = ?f, v_locks = [], v_procs = [WantWrite 0 ?f (rec_bytes work)], v_log = []\<rparr>" by (simp add: st)
  note reachable7_step[OF this step7.put_lock[of _ 0 0 ?f "rec_bytes work" "[(0, WrLck, 0)]"]]
  then have "reachable7 ?f 1 \<lparr>v_file = ?f, v_locks = [(0, WrLck, 0)], v_procs = [Locked 0 ?f (rec_bytes work)], v_log = []\<rparr>"
    by (simp add: st)
  note reachable7_step[OF this step7.put_check[of _ 0 0 ?f "rec_bytes work"]]
  then have "reachable7 ?f 1 \<lparr>v_file = ?f, v_locks = [(0, WrLck, 0)], v_procs = [Writing 0 ?f (rec_bytes work)], v_log = []\<rparr>"
    using rd by (simp add: st)
  then show thesis by (rule that) (simp_all add: at_pc_def)
qed

section \<open>No lost updates\<close>

text \<open>
  C16. PUT never loses an update: in every interleaving of any number of PUT and GET commands,
  the file is the initial file with the committed writes applied in order, and each of them
  was applied to exactly the bytes its user had been shown.
\<close>

theorem put_no_lost_update:
  assumes "reachable7 f k s"
  shows "replays f (v_log s) (v_file s)"
  using reachable7_inv[OF assms] by (simp add: inv7_def)

theorem put_no_lost_update_witness:
  "\<exists>s w. reachable7 (replicate 161 NUL) 1 s \<and> v_log s = [(0, replicate 161 NUL, w)] \<and>
     replays (replicate 161 NUL) [(0, replicate 161 NUL, w)] (v_file s)"
proof -
  obtain s w where s: "reachable7 (replicate 161 NUL) 1 s" "pc7 s 0 (Writing 0 (replicate 161 NUL) w)"
    "v_log s = []" by (rule run7)
  obtain k f where "write_record (v_file s) 0 w = (k, f)" by fastforce
  from put_no_lost_update[OF reachable7_step[OF s(1) step7.put_write[OF s(2) this]]]
    reachable7_step[OF s(1) step7.put_write[OF s(2) this]] s(3)
  show ?thesis by (intro exI conjI) (assumption | simp)+
qed

text \<open>
  While a process is between its lock and its unlock in PUT, no other process holds a read
  or a write lock on the same record, and a process that has passed the comparison and not yet
  written still sees the bytes its user saw.
\<close>

theorem put_excludes_record:
  assumes "reachable7 f k s" "pc7 s i p" "held7 p = Some (WrLck, n)"
  shows "(\<forall>j q t. pc7 s j q \<and> held7 q = Some (t, n) \<longrightarrow> j = i) \<and>
    (\<forall>b w. p = Writing n b w \<longrightarrow> read_record (v_file s) n = (int rec_size, b))"
proof -
  have inv: "locks7 s" "fresh_all7 s" using reachable7_inv[OF assms(1)] by (simp_all add: inv7_def)
  have "\<forall>j q t. pc7 s j q \<and> held7 q = Some (t, n) \<longrightarrow> j = i" using holders_exclude[OF inv(1) assms(2,3)] by blast
  moreover have "fresh7 (v_file s) p" using inv(2) assms(2) by (simp add: fresh_all7_def)
  ultimately show ?thesis by auto
qed

theorem put_excludes_record_witness:
  "\<exists>s w. reachable7 (replicate 161 NUL) 1 s \<and> pc7 s 0 (Writing 0 (replicate 161 NUL) w) \<and>
     read_record (v_file s) 0 = (int rec_size, replicate 161 NUL)"
proof -
  obtain s w where s: "reachable7 (replicate 161 NUL) 1 s" "pc7 s 0 (Writing 0 (replicate 161 NUL) w)"
    by (rule run7)
  then show ?thesis using put_excludes_record[OF s] by auto
qed

end
