(* ===== verification/Record_Init.thy ===== *)
theory Record_Init
  imports Record_Locks
begin

text \<open>
  lab07/src/main.c: the command INIT of one process while others run GET and PUT. INIT takes no lock: it
  truncates the file and writes the ten initial records one after the other, so a PUT that has passed its
  comparison can write into the new file, before or behind its end. What survives is the shape of
  the file, and where its records come from.
\<close>

section \<open>Steps\<close>

text \<open>The system of \<open>Record_Locks\<close> and the number of records an INIT in progress has written.\<close>

type_synonym sys7i = "sys7 \<times> nat option"

definition init_record :: "nat \<Rightarrow> string" where
  "init_record k = rec_bytes (init_records 0 RECORD_COUNT zero_record ! k)"

inductive step7i :: "sys7i \<Rightarrow> sys7i \<Rightarrow> bool" where
  i_other: "step7 s t \<Longrightarrow> step7i (s, i) (t, i)"
| i_truncate: "step7i (s, None) (s\<lparr>v_file := []\<rparr>, Some 0)"
| i_write: "k < RECORD_COUNT \<Longrightarrow>
    step7i (s, Some k) (s\<lparr>v_file := file_write (v_file s) (rec_size * k) (init_record k)\<rparr>, Some (k + 1))"
| i_fails: "k < RECORD_COUNT \<Longrightarrow> step7i (s, Some k) (s, None)"
| i_close: "step7i (s, Some RECORD_COUNT) (s, None)"

section \<open>A file as a list of records\<close>

definition records_of :: "string set \<Rightarrow> string list \<Rightarrow> bool" where
  "records_of S rs \<longleftrightarrow> (\<forall>r \<in> set rs. length r = rec_size \<and> r \<in> S)"

lemma concat_take_drop:
  assumes "\<forall>r \<in> set rs. length r = n"
  shows "length (concat rs) = n * length rs" "take (n * k) (concat rs) = concat (take k rs)" "drop (n * k) (concat rs) = concat (drop k rs)"
proof -
  have "length (concat rs) = n * length rs \<and> take (n * k) (concat rs) = concat (take k rs) \<and> drop (n * k) (concat rs) = concat (drop k rs)"
    using assms
  proof (induction rs arbitrary: k)
    case (Cons r rs)
    then show ?case by (cases k) auto
  qed simp
  then show "length (concat rs) = n * length rs" "take (n * k) (concat rs) = concat (take k rs)" "drop (n * k) (concat rs) = concat (drop k rs)"
    by simp_all
qed

abbreviation blank7 :: string where
  "blank7 \<equiv> replicate rec_size NUL"

text \<open>Writing a record at the place of the \<open>k\<close>-th one; places skipped beyond the end read as zeros.\<close>

definition put_at :: "string list \<Rightarrow> nat \<Rightarrow> string \<Rightarrow> string list" where
  "put_at rs k b = take k (rs @ replicate (k - length rs) blank7) @ b # drop (Suc k) rs"

lemma concat_blanks: "concat (replicate n (replicate m NUL)) = replicate (m * n) NUL"
  by (induction n) (simp_all add: replicate_add[symmetric])

lemma file_write_records:
  assumes "\<forall>r \<in> set rs. length r = rec_size" "length b = rec_size"
  shows "file_write (concat rs) (rec_size * k) b = concat (put_at rs k b)"
proof -
  note t = concat_take_drop[OF assms(1)]
  have "take (rec_size * k) (concat rs @ replicate (rec_size * k - length (concat rs)) NUL) =
    concat (take k (rs @ replicate (k - length rs) blank7))"
  proof -
    have "replicate (rec_size * k - length (concat rs)) NUL = concat (replicate (k - length rs) blank7)"
      unfolding t(1) concat_blanks by (simp only: diff_mult_distrib2)
    moreover have "\<forall>r \<in> set (rs @ replicate (k - length rs) blank7). length r = rec_size" using assms(1) by auto
    ultimately show ?thesis using concat_take_drop(2)[of "rs @ replicate (k - length rs) blank7" rec_size k] by simp
  qed
  moreover have "drop (rec_size * k + length b) (concat rs) = concat (drop (Suc k) rs)"
    using t(3)[of "Suc k"] assms(2) by (simp add: algebra_simps)
  ultimately show ?thesis by (simp add: file_write_def put_at_def)
qed

lemma records_of_put_at: "records_of S rs \<Longrightarrow> length b = rec_size \<Longrightarrow> b \<in> S \<Longrightarrow> blank7 \<in> S \<Longrightarrow> records_of S (put_at rs k b)"
  by (auto simp: records_of_def put_at_def dest!: in_set_takeD in_set_dropD)

lemma records_of_mono: "records_of S rs \<Longrightarrow> S \<subseteq> T \<Longrightarrow> records_of T rs"
  by (auto simp: records_of_def)

section \<open>What survives\<close>

text \<open>The records that may be in the file: the old ones, the initial ones, zeros, and what PUT has stored.\<close>

definition stored7 :: "string list \<Rightarrow> (c_int \<times> string \<times> string) list \<Rightarrow> string set" where
  "stored7 rs0 log = set rs0 \<union> init_record ` {..<RECORD_COUNT} \<union> {blank7} \<union> (\<lambda>(n, b, w). w) ` set log"

fun sized7 :: "proc7 \<Rightarrow> bool" where
  "sized7 (Editing n b) \<longleftrightarrow> length b = rec_size"
| "sized7 (WantWrite n b w) \<longleftrightarrow> length w = rec_size"
| "sized7 (Locked n b w) \<longleftrightarrow> length w = rec_size"
| "sized7 (Writing n b w) \<longleftrightarrow> length w = rec_size \<and> 0 \<le> sint n"
| "sized7 p \<longleftrightarrow> True"

definition inv7i :: "string list \<Rightarrow> sys7i \<Rightarrow> bool" where
  "inv7i rs0 x \<longleftrightarrow> (case x of (s, i) \<Rightarrow>
     locks7 s \<and> (\<forall>j p. pc7 s j p \<longrightarrow> sized7 p) \<and> (\<exists>rs. v_file s = concat rs \<and> records_of (stored7 rs0 (v_log s)) rs))"

lemma init_record_length: "k < RECORD_COUNT \<Longrightarrow> length (init_record k) = rec_size"
  using init_wf length_rec_bytes by (simp add: init_record_def list_all_length)

lemma stored7_blank: "blank7 \<in> stored7 rs0 log"
  by (simp add: stored7_def)

lemma stored7_grows: "stored7 rs0 log \<subseteq> stored7 rs0 (log @ es)"
  unfolding stored7_def by (intro Un_mono image_mono) auto

lemma init_step:
  assumes "inv7i rs0 (s, i)" "records_of (stored7 rs0 (v_log s)) rs"
  shows "inv7i rs0 (s\<lparr>v_file := concat rs\<rparr>, j)"
proof -
  have "locks7 (s\<lparr>v_file := concat rs\<rparr>)" "\<forall>j p. pc7 s j p \<longrightarrow> sized7 p" using assms(1) by (simp_all add: inv7i_def locks7_def)
  then show ?thesis using assms(2) by (auto simp: inv7i_def)
qed

lemma sized7_move: "\<forall>j p. pc7 s j p \<longrightarrow> sized7 p \<Longrightarrow> v_procs t = (v_procs s)[i := p'] \<Longrightarrow> sized7 p' \<Longrightarrow> \<forall>j p. pc7 t j p \<longrightarrow> sized7 p"
proof (intro allI impI)
  fix j p assume a: "\<forall>j p. pc7 s j p \<longrightarrow> sized7 p" "v_procs t = (v_procs s)[i := p']" "sized7 p'" "pc7 t j p"
  then show "sized7 p" by (cases "j = i") (auto simp: at_pc_def)
qed

lemma slot_mult: "0 \<le> sint n \<Longrightarrow> slot n = rec_size * nat (sint n)"
  by (simp add: slot_def)

lemma put_step_file:
  assumes "step7 s t" "\<forall>j p. pc7 s j p \<longrightarrow> sized7 p" "v_file s = concat rs" "records_of (stored7 rs0 (v_log s)) rs"
  shows "\<exists>rs'. v_file t = concat rs' \<and> records_of (stored7 rs0 (v_log t)) rs'"
  using assms(1)
proof (cases rule: step7.cases)
  case (put_write i n b w k f)
  have "sized7 (Writing n b w)" using assms(2) put_write(2) by blast
  then have w: "length w = rec_size" "0 \<le> sint n" by simp_all
  have f: "f = file_write (v_file s) (rec_size * nat (sint n)) w"
    using put_write(3) w(2) by (simp add: write_record_def rec_off_sint nat_mult_distrib Let_def mult.commute)
  have len: "\<forall>r \<in> set rs. length r = rec_size" using assms(4) by (auto simp: records_of_def)
  have "records_of (stored7 rs0 (v_log t)) rs" using put_write(1) records_of_mono[OF assms(4) stored7_grows] by simp
  then have "records_of (stored7 rs0 (v_log t)) (put_at rs (nat (sint n)) w)"
    using w put_write(1) by (intro records_of_put_at) (auto simp: stored7_def)
  then show ?thesis using put_write(1) f file_write_records[OF len w(1)] assms(3) by auto
qed (use assms(3,4) in auto)

lemma put_step_sized:
  assumes "step7 s t" "\<forall>j p. pc7 s j p \<longrightarrow> sized7 p"
  shows "\<forall>j p. pc7 t j p \<longrightarrow> sized7 p"
  using assms(1)
proof (cases rule: step7.cases)
  case (put_read i n b)
  then show ?thesis using read_record_length[OF put_read(3)] by (intro sized7_move[OF assms(2)]) auto
next
  case (put_read_fails i n)
  then show ?thesis by (intro sized7_move[OF assms(2)]) auto
next
  case (put_edit i n b inp work rest)
  have "sized7 (Editing n b)" using assms(2) put_edit(2) by blast
  then have "length b = rec_size" by simp
  then show ?thesis using put_edit edit_bytes_length by (intro sized7_move[OF assms(2)]) auto
next
  case (put_lock i n b w ls)
  have "sized7 (WantWrite n b w)" using assms(2) put_lock(2) by blast
  then have "length w = rec_size" by simp
  then show ?thesis using put_lock by (intro sized7_move[OF assms(2)]) auto
next
  case (put_check i n b w)
  have "sized7 (Locked n b w)" using assms(2) put_check(2) by blast
  then have "length w = rec_size" by simp
  moreover have "0 \<le> sint n" using put_check(3) by (auto simp: read_record_eq split: if_splits)
  ultimately show ?thesis using put_check by (intro sized7_move[OF assms(2)]) auto
qed ((rule sized7_move[OF assms(2)], (simp; fail), (simp; fail))[1])+

lemma step7i_inv:
  assumes "step7i x y" "inv7i rs0 x"
  shows "inv7i rs0 y"
  using assms(1)
proof (cases rule: step7i.cases)
  case (i_other s t i)
  have s: "locks7 s" "\<forall>j p. pc7 s j p \<longrightarrow> sized7 p" and f: "\<exists>rs. v_file s = concat rs \<and> records_of (stored7 rs0 (v_log s)) rs"
    using assms(2) i_other(1) by (simp_all add: inv7i_def)
  obtain rs where "v_file s = concat rs" "records_of (stored7 rs0 (v_log s)) rs" using f by blast
  from put_step_file[OF i_other(3) s(2) this] step7_locks[OF i_other(3) s(1)] put_step_sized[OF i_other(3) s(2)]
  show ?thesis using i_other(2) by (simp add: inv7i_def)
next
  case (i_truncate s)
  have "inv7i rs0 (s\<lparr>v_file := concat []\<rparr>, Some 0)"
    by (rule init_step[of rs0 s None "[]"]) (use assms(2) i_truncate(1) in \<open>simp_all add: records_of_def\<close>)
  then show ?thesis using i_truncate(2) by simp
next
  case (i_write k s)
  obtain rs where rs: "v_file s = concat rs" "records_of (stored7 rs0 (v_log s)) rs" using assms(2) i_write(1) by (auto simp: inv7i_def)
  have len: "\<forall>r \<in> set rs. length r = rec_size" using rs(2) by (auto simp: records_of_def)
  have "init_record k \<in> stored7 rs0 (v_log s)" using i_write(3) by (auto simp: stored7_def)
  then have "records_of (stored7 rs0 (v_log s)) (put_at rs k (init_record k))"
    by (rule records_of_put_at[OF rs(2) init_record_length[OF i_write(3)] _ stored7_blank])
  then have "inv7i rs0 (s\<lparr>v_file := concat (put_at rs k (init_record k))\<rparr>, Some (k + 1))"
    using assms(2) i_write(1) by (intro init_step[of rs0 s "Some k"]) (simp_all only:)
  moreover have "file_write (v_file s) (rec_size * k) (init_record k) = concat (put_at rs k (init_record k))"
    unfolding rs(1) by (rule file_write_records[OF len init_record_length[OF i_write(3)]])
  ultimately show ?thesis unfolding i_write(2) by (simp only:)
qed (use assms(2) in \<open>simp_all add: inv7i_def\<close>)


lemma others_run: "step7\<^sup>*\<^sup>* s t \<Longrightarrow> step7i\<^sup>*\<^sup>* (s, i) (t, i)"
  by (induction rule: rtranclp_induct) (auto intro: rtranclp.rtrancl_into_rtrancl i_other)


end
