(* ===== verification/Record_Progress.thy ===== *)
theory Record_Progress
  imports Record_Locks
begin

text \<open>
  lab07: GET and PUT of any number of processes cannot block each other for good. Every lock in
  the kernel's table belongs to a process that is between \<open>lock_record\<close> and \<open>unlock_record\<close>, and such a
  process waits for nobody. So from every reachable state all commands can run to their ends.
\<close>

section \<open>Every lock has an owner\<close>

definition owners7 :: "sys7 \<Rightarrow> bool" where
  "owners7 s \<longleftrightarrow> (\<forall>i t off. (i, t, off) \<in> set (v_locks s) \<longrightarrow>
     (\<exists>p n. pc7 s i p \<and> held7 p = Some (t, n) \<and> off = sint (rec_off n)))"

lemma owners7D:
  "owners7 s \<Longrightarrow> (i, t, off) \<in> set (v_locks s) \<Longrightarrow> \<exists>p n. pc7 s i p \<and> held7 p = Some (t, n) \<and> off = sint (rec_off n)"
  by (simp add: owners7_def)

lemma pc7_unique: "pc7 s i p \<Longrightarrow> pc7 s i q \<Longrightarrow> p = q"
  by (simp add: at_pc_def)

text \<open>A lock of another process keeps its owner, whatever process \<open>i\<close> does.\<close>

lemma owners7_others:
  assumes "owners7 s" "pc7 s i p" "v_procs t = (v_procs s)[i := p']" "(j, typ, off) \<in> set (v_locks s)" "j \<noteq> i"
  shows "\<exists>q n. pc7 t j q \<and> held7 q = Some (typ, n) \<and> off = sint (rec_off n)"
  using owners7D[OF assms(1,4)] assms(2,3,5) by (auto simp: at_pc_update)

lemma owners7_keep:
  assumes "owners7 s" "pc7 s i p" "v_procs t = (v_procs s)[i := p']" "v_locks t = v_locks s" "held7 p' = held7 p"
  shows "owners7 t"
  unfolding owners7_def
proof (intro allI impI)
  fix j ty off assume l: "(j, ty, off) \<in> set (v_locks t)"
  show "\<exists>q n. pc7 t j q \<and> held7 q = Some (ty, n) \<and> off = sint (rec_off n)"
  proof (cases "j = i")
    case True
    then obtain q n where q: "pc7 s i q" "held7 q = Some (ty, n)" "off = sint (rec_off n)"
      using owners7D[OF assms(1)] l assms(4) by metis
    have "pc7 t i p'" using assms(2,3) by (simp add: at_pc_def)
    then show ?thesis using q pc7_unique[OF assms(2) q(1)] assms(5) True by metis
  next
    case False
    then show ?thesis using owners7_others[OF assms(1-3)] l assms(4) by simp
  qed
qed

lemma owners7_acquire:
  assumes "owners7 s" "pc7 s i p" "v_procs t = (v_procs s)[i := p']" "held7 p = None" "held7 p' = Some (typ, n)"
    and "lock_record i n typ (v_locks s) = Done (Some (v_locks t))"
  shows "owners7 t"
  unfolding owners7_def
proof (intro allI impI)
  fix j ty off assume l: "(j, ty, off) \<in> set (v_locks t)"
  have t: "v_locks t = (i, typ, sint (rec_off n)) # v_locks s"
    using assms(6) by (auto simp: lock_record_def Let_def split: if_splits)
  show "\<exists>q m. pc7 t j q \<and> held7 q = Some (ty, m) \<and> off = sint (rec_off m)"
  proof (cases "j = i")
    case True
    then have "(j, ty, off) \<notin> set (v_locks s)" using owners7D[OF assms(1)] pc7_unique[OF assms(2)] assms(4) by fastforce
    then show ?thesis using l t True assms(2,3,5) by (auto simp: at_pc_update)
  next
    case False
    then show ?thesis using owners7_others[OF assms(1-3)] l t by simp
  qed
qed

lemma owners7_release:
  assumes "owners7 s" "pc7 s i p" "v_procs t = (v_procs s)[i := p']" "held7 p = Some (typ, n)"
    and "v_locks t = unlock_record i n (v_locks s)"
  shows "owners7 t"
  unfolding owners7_def
proof (intro allI impI)
  fix j ty off assume "(j, ty, off) \<in> set (v_locks t)"
  then have l: "(j, ty, off) \<in> set (v_locks s)" "\<not> (j = i \<and> off = sint (rec_off n))" using assms(5) by (auto simp: unlock_record_def)
  have "j \<noteq> i" using owners7D[OF assms(1) l(1)] pc7_unique[OF assms(2)] assms(4) l(2) by fastforce
  then show "\<exists>q m. pc7 t j q \<and> held7 q = Some (ty, m) \<and> off = sint (rec_off m)" using owners7_others[OF assms(1-3) l(1)] by simp
qed

lemma step7_owners:
  assumes "step7 s t" "owners7 s"
  shows "owners7 t"
  using assms(1)
proof (cases rule: step7.cases)
  case (put_lock i n b w ls)
  then show ?thesis by (intro owners7_acquire[OF assms(2) put_lock(2)]) auto
next
  case (get_lock i n ls)
  then show ?thesis by (intro owners7_acquire[OF assms(2) get_lock(2)]) auto
next
  case (put_read i n b)
  then show ?thesis using owners7_keep[OF assms(2)] by auto
next
  case (put_read_fails i n)
  then show ?thesis using owners7_keep[OF assms(2)] by auto
next
  case (put_conflict i n b w b')
  then show ?thesis by (intro owners7_release[OF assms(2) put_conflict(2)]) auto
next
  case (put_reread_fails i n b w)
  then show ?thesis by (intro owners7_release[OF assms(2) put_reread_fails(2)]) auto
next
  case (put_unlock i n)
  then show ?thesis by (intro owners7_release[OF assms(2) put_unlock(2)]) auto
next
  case (get_unlock i n)
  then show ?thesis by (intro owners7_release[OF assms(2) get_unlock(2)]) auto
qed ((rule owners7_keep[OF assms(2)], assumption, (simp; fail)+)[1])+

lemma step7_procs: "step7 s t \<Longrightarrow> length (v_procs t) = length (v_procs s)"
  by (cases rule: step7.cases) auto

lemma reachable7_owners: "reachable7 f k s \<Longrightarrow> owners7 s \<and> length (v_procs s) = k"
  unfolding reachable7_def
  by (induction rule: rtranclp_induct) (auto simp: step7_procs step7_owners, simp_all add: owners7_def start7_def)

section \<open>Progress\<close>

text \<open>How many steps a process needs to the end of its command, at most, if it is not made to wait.\<close>

fun rank7 :: "proc7 \<Rightarrow> nat" where
  "rank7 Idle7 = 0"
| "rank7 (Editing n b) = 5"
| "rank7 (WantWrite n b w) = 4"
| "rank7 (Locked n b w) = 3"
| "rank7 (Writing n b w) = 2"
| "rank7 (Written n) = 1"
| "rank7 (Asking n) = 1"
| "rank7 (WantRead n) = 2"
| "rank7 (Reading n) = 1"

lemma rank7_le: "rank7 p \<le> 5"
  by (cases p) auto

lemma weight_rank7: "weight rank7 ps \<le> 5 * length ps"
proof (induction ps)
  case (Cons p ps)
  then show ?case using rank7_le[of p] by simp
qed simp

definition advances :: "sys7 \<Rightarrow> bool" where
  "advances s \<longleftrightarrow> (\<exists>t. step7 s t \<and> weight rank7 (v_procs t) < weight rank7 (v_procs s))"

lemma advances_goto:
  assumes "pc7 s i p" "step7 s t" "v_procs t = (v_procs s)[i := p']" "rank7 p' < rank7 p"
  shows "advances s"
proof -
  have "weight rank7 (v_procs t) + rank7 p = weight rank7 (v_procs s) + rank7 p'"
    using weight_update[of i "v_procs s" rank7 p'] assms(1,3) by (simp add: at_pc_def)
  then show ?thesis unfolding advances_def using assms(2,4) by (intro exI[of _ t]) simp
qed

text \<open>Whatever record is edited, there is an input that ends the dialogue.\<close>

lemma some_edit: "length b = rec_size \<Longrightarrow> \<exists>inp work rest. edit_record (rec_of b) inp = Done (work, rest)"
proof -
  assume b: "length b = rec_size"
  have "edit_semester (r_semester (rec_of b)) [newline] = Done (r_semester (rec_of b), [])"
    by (simp add: edit_semester_def fgets_def numeral_eq_Suc)
  then show ?thesis using edit_record_lines[OF rec_of_wf[OF b], of "[]" "[]" "[newline]"] by fastforce
qed

lemma locked_advances:
  assumes "pc7 s i (Locked n b w)"
  shows "advances s"
proof (cases "fst (read_record (v_file s) n) = int rec_size")
  case False
  then show ?thesis using advances_goto[OF assms step7.put_reread_fails[OF assms], of Idle7] by simp
next
  case True
  then obtain b' where b': "read_record (v_file s) n = (int rec_size, b')" by (metis prod.collapse)
  show ?thesis
  proof (cases "b' = b")
    case True
    then show ?thesis using advances_goto[OF assms step7.put_check[OF assms], of "Writing n b w"] b' by simp
  next
    case False
    then show ?thesis using advances_goto[OF assms step7.put_conflict[OF assms b' False], of "Asking n"] by simp
  qed
qed

lemma editing_advances:
  assumes "pc7 s i (Editing n b)" "length b = rec_size"
  shows "advances s"
proof -
  obtain inp work rest where e: "edit_record (rec_of b) inp = Done (work, rest)" using some_edit[OF assms(2)] by blast
  show ?thesis
  proof (cases "rec_bytes work = b")
    case True
    then show ?thesis using advances_goto[OF assms(1) step7.put_unchanged[OF assms(1) e True], of Idle7] by simp
  next
    case False
    then show ?thesis using advances_goto[OF assms(1) step7.put_edit[OF assms(1) e False], of "WantWrite n b (rec_bytes work)"] by simp
  qed
qed

text \<open>A process that waits for a lock gets it, or an error, once the table of locks is empty.\<close>

lemma lock_free: "lock_record i n typ [] = Done None \<or> lock_record i n typ [] = Done (Some [(i, typ, sint (rec_off n))])"
  by (simp add: lock_record_def Let_def)

lemma waiting_advances:
  assumes "v_locks s = []"
  shows "pc7 s i (WantWrite n b w) \<Longrightarrow> advances s" "pc7 s i (WantRead n) \<Longrightarrow> advances s"
proof -
  show "advances s" if p: "pc7 s i (WantWrite n b w)"
    using lock_free[of i n WrLck]
  proof
    assume "lock_record i n WrLck [] = Done None"
    then show ?thesis using advances_goto[OF p step7.put_refused[OF p], of Idle7] assms by simp
  next
    assume "lock_record i n WrLck [] = Done (Some [(i, WrLck, sint (rec_off n))])"
    then show ?thesis using advances_goto[OF p step7.put_lock[OF p], of _ "Locked n b w"] assms by simp
  qed
  show "advances s" if p: "pc7 s i (WantRead n)"
    using lock_free[of i n RdLck]
  proof
    assume "lock_record i n RdLck [] = Done None"
    then show ?thesis using advances_goto[OF p step7.get_refused[OF p], of Idle7] assms by simp
  next
    assume "lock_record i n RdLck [] = Done (Some [(i, RdLck, sint (rec_off n))])"
    then show ?thesis using advances_goto[OF p step7.get_lock[OF p], of _ "Reading n"] assms by simp
  qed
qed

lemma holder_advances:
  assumes "pc7 s i p" "held7 p = Some (typ, n)"
  shows "advances s"
proof (cases p)
  case (Writing m b w)
  obtain k f where "write_record (v_file s) m w = (k, f)" by fastforce
  then show ?thesis using advances_goto[OF assms(1), of _ "Written m"] step7.put_write[of s i m b w k f] assms(1) Writing by simp
next
  case (Written m)
  then show ?thesis using advances_goto[OF assms(1), of _ Idle7] step7.put_unlock[of s i m] assms(1) by simp
next
  case (Reading m)
  then show ?thesis using advances_goto[OF assms(1), of _ Idle7] step7.get_unlock[of s i m] assms(1) by simp
qed (use assms locked_advances in auto)

text \<open>Someone can always go on: a holder of a lock if there is one, else whoever is in a command.\<close>

lemma busy_advances:
  assumes "owners7 s" "fresh_all7 s" "pc7 s i p" "p \<noteq> Idle7"
  shows "advances s"
proof (cases "v_locks s")
  case (Cons l ls)
  then obtain j ty off where "(j, ty, off) \<in> set (v_locks s)" by (cases l) auto
  then show ?thesis using owners7D[OF assms(1)] holder_advances by blast
next
  case Nil
  show ?thesis
  proof (cases p)
    case (Editing n b)
    then show ?thesis using editing_advances fresh7D[OF assms(2,3)] assms(3) by simp
  next
    case (Asking n)
    then show ?thesis using advances_goto[OF assms(3), of _ Idle7] step7.put_give_up[of s i n] assms(3) by simp
  qed (use assms(3,4) waiting_advances[OF Nil] holder_advances[OF assms(3)] in auto)
qed

lemma quiet_run:
  assumes "reachable7 f k s"
  shows "\<exists>n t. n \<le> weight rank7 (v_procs s) \<and> (step7 ^^ n) s t \<and> weight rank7 (v_procs t) = 0"
  using assms
proof (induction "weight rank7 (v_procs s)" arbitrary: s rule: less_induct)
  case less
  show ?case
  proof (cases "weight rank7 (v_procs s) = 0")
    case True
    then show ?thesis by (intro exI[of _ 0] exI[of _ s]) simp
  next
    case False
    then obtain p where "p \<in> set (v_procs s)" "p \<noteq> Idle7" using weight_pos[of rank7 "v_procs s"] by fastforce
    then obtain i where "pc7 s i p" "p \<noteq> Idle7" by (auto simp: in_set_conv_nth at_pc_def)
    then have "advances s" using busy_advances reachable7_owners[OF less.prems] reachable7_inv[OF less.prems] by (auto simp: inv7_def)
    then obtain u where u: "step7 s u" "weight rank7 (v_procs u) < weight rank7 (v_procs s)" by (auto simp: advances_def)
    obtain n t where n: "n \<le> weight rank7 (v_procs u)" "(step7 ^^ n) u t" "weight rank7 (v_procs t) = 0"
      using less.hyps[OF u(2) reachable7_step[OF less.prems u(1)]] by blast
    have "(step7 ^^ Suc n) s t" by (intro relpowp_Suc_I2[of step7, OF u(1) n(2)])
    then show ?thesis using n u(2) by (intro exI[of _ "Suc n"] exI[of _ t]) simp
  qed
qed

text \<open>
  C17. GET and PUT never block each other for good: from every state that any number of processes can reach, whatever they
  have locked and whatever they wait for, a run of at most five steps per process ends all
  commands and leaves no lock behind.
\<close>

theorem record_commands_can_finish:
  assumes "reachable7 f k s"
  shows "\<exists>n t. n \<le> 5 * k \<and> (step7 ^^ n) s t \<and> v_locks t = [] \<and> v_procs t = replicate k Idle7"
proof -
  obtain n t where n: "n \<le> weight rank7 (v_procs s)" "(step7 ^^ n) s t" "weight rank7 (v_procs t) = 0"
    using quiet_run[OF assms] by blast
  have "step7\<^sup>*\<^sup>* s t" using n(2) by (rule relpowp_imp_rtranclp)
  then have "reachable7 f k t" using assms by (simp add: reachable7_def)
  then have t: "owners7 t" "length (v_procs t) = k" using reachable7_owners by blast+
  have idle: "p = Idle7" if "p \<in> set (v_procs t)" for p
  proof -
    have "rank7 p = 0" using n(3) weight_pos[of rank7 "v_procs t"] that by auto
    then show ?thesis by (cases p) auto
  qed
  then have "v_procs t = replicate k Idle7" using t(2) by (intro replicate_eqI) auto
  moreover have "v_locks t = []"
  proof (rule ccontr)
    assume "v_locks t \<noteq> []"
    then obtain j ty off where "(j, ty, off) \<in> set (v_locks t)" by (cases "v_locks t") auto
    then obtain q m where "pc7 t j q" "held7 q = Some (ty, m)" using owners7D[OF t(1)] by blast
    then show False using idle[of q] by (auto simp: at_pc_def)
  qed
  moreover have "n \<le> 5 * k" using n(1) weight_rank7[of "v_procs s"] reachable7_owners[OF assms] by simp
  ultimately show ?thesis using n(2) by blast
qed

text \<open>A process has read the record again under its lock and is about to write.\<close>

theorem record_commands_can_finish_witness:
  "\<exists>s b w n t. pc7 s 0 (Writing 0 b w) \<and> n \<le> 5 \<and> (step7 ^^ n) s t \<and> v_locks t = [] \<and> v_procs t = [Idle7]"
proof -
  obtain s w where s: "reachable7 (replicate 161 NUL) 1 s" "pc7 s 0 (Writing 0 (replicate 161 NUL) w)" by (rule run7)
  then show ?thesis using record_commands_can_finish[OF s(1)] by auto
qed

end
