(* ===== verification/Index_Sort.thy ===== *)
theory Index_Sort
  imports Cmp_Merge
begin

text \<open>
  lab06/src/sort_index.c: comparison of index records, block sorting, merge rounds, the chunk
  loop of \<open>main\<close> and the checks before it.

  \<^item> A \<open>double\<close> is its 64 bits; \<open>d_less\<close> is the IEEE order (every comparison with a NaN is false).
    \<open>cmp_index_s\<close> satisfies the contract \<open>comparator\<close> on records without NaN.
  \<^item> The array of a chunk is a list; \<open>sort_block\<close> and \<open>do_merge\<close> fault when they would leave it.
  \<^item> \<open>worker_serial\<close> runs the calls of all worker threads one after the other, in any order the
    claims allow and with any repetition; it sorts the chunk. Theory \<open>Sort_Threads\<close> has the
    threads themselves.
\<close>

section \<open>Records and their order\<close>

record index_s =
  time_mark :: u64
  recno :: u64

definition d_nan :: "u64 \<Rightarrow> bool" where
  "d_nan w \<longleftrightarrow> unat w div 2 ^ 52 mod 2 ^ 11 = 2 ^ 11 - 1 \<and> unat w mod 2 ^ 52 \<noteq> 0"

text \<open>Sign and magnitude; the two zeros are equal.\<close>

definition d_val :: "u64 \<Rightarrow> int" where
  "d_val w = (if unat w < 2 ^ 63 then int (unat w) else - int (unat w - 2 ^ 63))"

definition d_less :: "u64 \<Rightarrow> u64 \<Rightarrow> bool" where
  "d_less a b \<longleftrightarrow> \<not> d_nan a \<and> \<not> d_nan b \<and> d_val a < d_val b"

definition cmp_index_s :: "index_s \<Rightarrow> index_s \<Rightarrow> int" where
  "cmp_index_s a b =
     (if d_less (time_mark a) (time_mark b) then -1
      else if d_less (time_mark b) (time_mark a) then 1
      else if recno a < recno b then -1
      else if recno a > recno b then 1
      else 0)"

abbreviation plain :: "index_s \<Rightarrow> bool" where
  "plain e \<equiv> \<not> d_nan (time_mark e)"

lemma cmp_index_s_le:
  "plain a \<Longrightarrow> plain b \<Longrightarrow> cmp_index_s a b \<le> 0 \<longleftrightarrow>
    d_val (time_mark a) < d_val (time_mark b) \<or> d_val (time_mark a) = d_val (time_mark b) \<and> recno a \<le> recno b"
  by (auto simp: cmp_index_s_def d_less_def)

interpretation idx: comparator cmp_index_s plain
  by unfold_locales (auto simp: cmp_index_s_le)

section \<open>Blocks, merges, rounds\<close>

definition sort_block :: "nat \<Rightarrow> nat \<Rightarrow> index_s list \<Rightarrow> index_s list outcome" where
  "sort_block per k a =
     (let lo = per * k
      in if lo + per \<le> length a
         then Done (take lo a @ qsort_cmp cmp_index_s (take per (drop lo a)) @ drop (lo + per) a)
         else Faults)"

text \<open>The three loops of \<open>do_merge\<close>: indices \<open>l\<close> and \<open>r\<close>, the temporary array so far.\<close>

function merge_loop :: "index_s list \<Rightarrow> index_s list \<Rightarrow> nat \<Rightarrow> nat \<Rightarrow> index_s list \<Rightarrow> index_s list" where
  "merge_loop left right l r tmp =
     (if l < length left \<and> r < length right
      then if cmp_index_s (left ! l) (right ! r) \<le> 0
           then merge_loop left right (Suc l) r (tmp @ [left ! l])
           else merge_loop left right l (Suc r) (tmp @ [right ! r])
      else tmp @ drop l left @ drop r right)"
  by pat_completeness auto
termination
  by (relation "measure (\<lambda>(left, right, l, r, tmp). (length left - l) + (length right - r))") auto

declare merge_loop.simps [simp del]

definition do_merge :: "nat \<Rightarrow> nat \<Rightarrow> index_s list \<Rightarrow> index_s list outcome" where
  "do_merge idx span base =
     (let left = idx * 2 * span; right = left + span; total = span * 2
      in if left + total \<le> length base
         then Done (take left base @
           merge_loop (take span (drop left base)) (take span (drop right base)) 0 0 [] @
           drop (left + total) base)
         else Faults)"

text \<open>Calls on a list of block or pair numbers, one after the other.\<close>

fun each :: "(nat \<Rightarrow> 'a \<Rightarrow> 'a outcome) \<Rightarrow> nat list \<Rightarrow> 'a \<Rightarrow> 'a outcome" where
  "each f [] a = Done a"
| "each f (k # ks) a = obind (f k a) (each f ks)"

fun levels_of :: "nat \<Rightarrow> nat" where
  "levels_of tmp = (if tmp > 1 then Suc (levels_of (tmp div 2)) else 0)"

declare levels_of.simps [simp del]

text \<open>\<open>n\<close> rounds from round \<open>s\<close> on; \<open>mo s\<close> are the pairs merged in round \<open>s\<close>, in this order.\<close>

fun merge_rounds :: "nat \<Rightarrow> (nat \<Rightarrow> nat list) \<Rightarrow> nat \<Rightarrow> nat \<Rightarrow> index_s list \<Rightarrow> index_s list outcome" where
  "merge_rounds per mo s 0 a = Done a"
| "merge_rounds per mo s (Suc n) a =
     obind (each (\<lambda>j. do_merge j (2 ^ s * per)) (mo s) a) (merge_rounds per mo (Suc s) n)"

definition worker_serial :: "nat \<Rightarrow> nat \<Rightarrow> nat list \<Rightarrow> (nat \<Rightarrow> nat list) \<Rightarrow> index_s list \<Rightarrow> index_s list outcome" where
  "worker_serial blocks per bo mo a =
     obind (each (sort_block per) bo a) (merge_rounds per mo 0 (levels_of blocks))"

text \<open>The orders the claims allow: every block, every pair of every round, pairs possibly more than once.\<close>

definition covers :: "nat \<Rightarrow> nat list \<Rightarrow> bool" where
  "covers n ks \<longleftrightarrow> set ks = {..<n}"

section \<open>What one call does\<close>

lemma merge_loop_ref:
  "merge_loop left right l r tmp = tmp @ merge_ref cmp_index_s (drop l left) (drop r right)"
proof (induction left right l r tmp rule: merge_loop.induct)
  case (1 left right l r tmp)
  show ?case
  proof (cases "l < length left \<and> r < length right")
    case True
    then have "drop l left = left ! l # drop (Suc l) left" "drop r right = right ! r # drop (Suc r) right"
      by (simp_all add: Cons_nth_drop_Suc)
    then show ?thesis using 1 True by (subst merge_loop.simps) auto
  next
    case False
    then consider "drop l left = []" | "drop r right = []" by fastforce
    then show ?thesis using False by cases (subst merge_loop.simps; cases "drop l left"; auto)+
  qed
qed

text \<open>An array cut into segments of \<open>n\<close> entries, followed by a rest.\<close>

lemma concat_segment:
  assumes "k < length bs" "\<forall>b \<in> set bs. length b = n"
  shows "take (n * k) (concat bs @ t) = concat (take k bs)"
    and "take n (drop (n * k) (concat bs @ t)) = bs ! k"
    and "drop (n * k + n) (concat bs @ t) = concat (drop (Suc k) bs) @ t"
    and "n * k + n \<le> length (concat bs @ t)"
proof -
  have len: "length (concat (take k bs)) = n * k"
    using assms by (induction bs arbitrary: k) (auto simp: take_Cons split: nat.splits)
  have split: "concat bs = concat (take k bs) @ bs ! k @ concat (drop (Suc k) bs)"
    by (metis assms(1) concat.simps(2) concat_append id_take_nth_drop)
  have n: "length (bs ! k) = n" using assms by simp
  show "take (n * k) (concat bs @ t) = concat (take k bs)"
    "take n (drop (n * k) (concat bs @ t)) = bs ! k"
    "drop (n * k + n) (concat bs @ t) = concat (drop (Suc k) bs) @ t"
    "n * k + n \<le> length (concat bs @ t)"
    unfolding split using len n by simp_all
qed

lemma concat_update:
  "k < length bs \<Longrightarrow> concat (bs[k := x]) = concat (take k bs) @ x @ concat (drop (Suc k) bs)"
  by (simp add: upd_conv_take_nth_drop)

lemma sort_block_segment:
  assumes "k < length bs" "\<forall>b \<in> set bs. length b = per"
  shows "sort_block per k (concat bs @ t) = Done (concat (bs[k := qsort_cmp cmp_index_s (bs ! k)]) @ t)"
  using concat_segment[OF assms, of t] concat_update[OF assms(1)] by (simp add: sort_block_def)

definition merge_halves :: "nat \<Rightarrow> index_s list \<Rightarrow> index_s list" where
  "merge_halves span p = merge_ref cmp_index_s (take span p) (drop span p)"

lemma do_merge_segment:
  assumes "j < length ps" "\<forall>p \<in> set ps. length p = 2 * span"
  shows "do_merge j span (concat ps @ t) = Done (concat (ps[j := merge_halves span (ps ! j)]) @ t)"
proof -
  note seg = concat_segment[OF assms, of t]
  have len: "length (ps ! j) = 2 * span" using assms by simp
  have left: "take span (drop (2 * span * j) (concat ps @ t)) = take span (ps ! j)"
    by (metis seg(2) take_take min.absorb1 mult_2 le_add1)
  have "take n (drop (m + n) xs) = drop n (take (2 * n) (drop m xs))" for n m and xs :: "index_s list"
    by (simp add: drop_take add.commute)
  then have right: "take span (drop (2 * span * j + span) (concat ps @ t)) = drop span (ps ! j)"
    by (simp only: seg(2))
  show ?thesis
    using seg concat_update[OF assms(1)] left right
    by (simp add: do_merge_def merge_loop_ref merge_halves_def Let_def mult.commute mult.left_commute)
qed

section \<open>What a phase does\<close>

lemma each_segments:
  assumes step: "\<And>bs k. k < length bs \<Longrightarrow> \<forall>b \<in> set bs. length b = n \<Longrightarrow> f k (concat bs @ t) = Done (concat (bs[k := g (bs ! k)]) @ t)"
    and len: "\<And>b. length (g b) = length b"
    and idem: "\<And>k. k < length bs \<Longrightarrow> g (g (bs ! k)) = g (bs ! k)"
    and ks: "set ks \<subseteq> {..<length bs}" and bs: "\<forall>b \<in> set bs. length b = n"
  shows "\<exists>cs. each f ks (concat bs @ t) = Done (concat cs @ t) \<and> length cs = length bs \<and>
    (\<forall>k < length bs. cs ! k = (if k \<in> set ks then g (bs ! k) else bs ! k))"
  using idem ks bs
proof (induction ks arbitrary: bs)
  case Nil
  then show ?case by auto
next
  case (Cons k ks)
  let ?bs = "bs[k := g (bs ! k)]"
  have k: "k < length bs" using Cons(3) by simp
  have "\<forall>b \<in> set ?bs. length b = n" using Cons(4) k len by (metis in_set_conv_nth length_list_update nth_list_update nth_mem)
  moreover have "g (g (?bs ! i)) = g (?bs ! i)" if "i < length ?bs" for i
    using Cons(2)[of i] that by (cases "i = k") simp_all
  ultimately obtain cs where cs: "each f ks (concat ?bs @ t) = Done (concat cs @ t)" "length cs = length bs"
    "\<forall>i < length bs. cs ! i = (if i \<in> set ks then g (?bs ! i) else ?bs ! i)"
    using Cons(1)[of ?bs] Cons(3) by auto
  moreover have "cs ! i = (if i \<in> set (k # ks) then g (bs ! i) else bs ! i)" if "i < length bs" for i
    using cs(3) that Cons(2)[of i] by (cases "i = k") simp_all
  ultimately show ?case using step[OF k Cons(4)] by auto
qed

lemma each_all:
  assumes "\<And>bs k. k < length bs \<Longrightarrow> \<forall>b \<in> set bs. length b = n \<Longrightarrow> f k (concat bs @ t) = Done (concat (bs[k := g (bs ! k)]) @ t)"
    and "\<And>b. length (g b) = length b" "\<And>b. b \<in> set bs \<Longrightarrow> g (g b) = g b"
    and "set ks = {..<length bs}" "\<forall>b \<in> set bs. length b = n"
  shows "each f ks (concat bs @ t) = Done (concat (map g bs) @ t)"
proof -
  obtain cs where "each f ks (concat bs @ t) = Done (concat cs @ t)" "length cs = length bs"
    "\<forall>k < length bs. cs ! k = (if k \<in> set ks then g (bs ! k) else bs ! k)"
    using each_segments[of n f t g bs ks] assms by auto
  moreover from this(2,3) have "cs = map g bs" using assms(4) by (intro nth_equalityI) simp_all
  ultimately show ?thesis by simp
qed

lemma qsort_idem:
  assumes "\<forall>e \<in> set b. plain e"
  shows "qsort_cmp cmp_index_s (qsort_cmp cmp_index_s b) = qsort_cmp cmp_index_s b"
proof -
  have "sorted_cmp cmp_index_s xs \<Longrightarrow> qsort_cmp cmp_index_s xs = xs" for xs
  proof (induction xs)
    case (Cons x xs)
    then show ?case by (cases xs) simp_all
  qed simp
  then show ?thesis using idx.qsort_sorted[OF assms] .
qed

lemma sort_phase:
  assumes "covers (length bs) bo" "\<forall>b \<in> set bs. length b = per \<and> (\<forall>e \<in> set b. plain e)"
  shows "each (sort_block per) bo (concat bs @ t) = Done (concat (map (qsort_cmp cmp_index_s) bs) @ t)"
  using assms by (intro each_all[where n = per]) (simp_all add: sort_block_segment qsort_idem covers_def)

subsection \<open>A merge round\<close>

text \<open>Runs: all of length \<open>n\<close>, sorted, without NaN.\<close>

definition runs :: "nat \<Rightarrow> index_s list list \<Rightarrow> bool" where
  "runs n bs \<longleftrightarrow> (\<forall>b \<in> set bs. length b = n \<and> sorted_cmp cmp_index_s b \<and> (\<forall>e \<in> set b. plain e))"

fun pair_up :: "'a list list \<Rightarrow> 'a list list" where
  "pair_up (x # y # bs) = (x @ y) # pair_up bs"
| "pair_up bs = bs"

lemma concat_pair_up [simp]: "concat (pair_up bs) = concat bs"
  by (induction bs rule: pair_up.induct) simp_all

lemma length_pair_up: "even (length bs) \<Longrightarrow> length (pair_up bs) = length bs div 2"
  by (induction bs rule: pair_up.induct) simp_all

lemma runs_pair_up:
  "even (length bs) \<Longrightarrow> runs n bs \<Longrightarrow> p \<in> set (pair_up bs) \<Longrightarrow>
    \<exists>x y. p = x @ y \<and> runs n [x, y]"
  by (induction bs rule: pair_up.induct) (auto simp: runs_def)

lemma merge_halves_run:
  assumes "runs n [x, y]"
  shows "runs (2 * n) [merge_halves n (x @ y)]" "mset (merge_halves n (x @ y)) = mset (x @ y)"
    "merge_halves n (merge_halves n (x @ y)) = merge_halves n (x @ y)"
proof -
  have eq: "merge_halves n (x @ y) = merge_ref cmp_index_s x y" using assms by (simp add: merge_halves_def runs_def)
  have "sorted_cmp cmp_index_s (merge_ref cmp_index_s x y)" using assms by (intro idx.merge_sorted) (auto simp: runs_def)
  then show "runs (2 * n) [merge_halves n (x @ y)]" "merge_halves n (merge_halves n (x @ y)) = merge_halves n (x @ y)"
    using assms eq by (auto simp: runs_def merge_halves_def[of n "merge_ref _ _ _"] idx.merge_again)
  show "mset (merge_halves n (x @ y)) = mset (x @ y)" using eq by simp
qed

lemma length_merge_halves [simp]: "length (merge_halves n p) = length p"
  by (simp add: merge_halves_def)

lemma merge_round:
  assumes "runs n bs" "length bs = 2 * m" "covers m js"
  shows "\<exists>cs. each (\<lambda>j. do_merge j n) js (concat bs @ t) = Done (concat cs @ t) \<and> runs (2 * n) cs \<and>
    length cs = m \<and> mset (concat cs) = mset (concat bs)"
proof -
  let ?ps = "pair_up bs" and ?g = "merge_halves n"
  have pair: "p \<in> set ?ps \<Longrightarrow> \<exists>x y. p = x @ y \<and> runs n [x, y]" for p
    using runs_pair_up[OF _ assms(1)] assms(2) by simp
  have len: "length ?ps = m" using length_pair_up[of bs] assms(2) by simp
  have "each (\<lambda>j. do_merge j n) js (concat ?ps @ t) = Done (concat (map ?g ?ps) @ t)"
  proof (rule each_all[where n = "2 * n"])
    show "\<forall>b \<in> set ?ps. length b = 2 * n" using pair by (fastforce simp: runs_def)
    show "?g (?g b) = ?g b" if "b \<in> set ?ps" for b using pair[OF that] merge_halves_run(3) by blast
  qed (use len assms(3) in \<open>simp_all add: do_merge_segment covers_def\<close>)
  moreover have g: "runs (2 * n) [?g p]" "mset (?g p) = mset p" if "p \<in> set ?ps" for p
    using pair[OF that] merge_halves_run(1,2) by blast+
  have "runs (2 * n) (map ?g ?ps)" using g(1) by (simp add: runs_def)
  moreover have "mset (concat (map ?g ps)) = mset (concat ps)" if "set ps \<subseteq> set ?ps" for ps
    using that g(2) by (induction ps) simp_all
  ultimately show ?thesis using len by (intro exI[of _ "map ?g ?ps"]) simp
qed

lemma merge_rounds_sort:
  assumes "runs (2 ^ s * per) bs" "length bs = 2 ^ n" "\<forall>i < n. covers (2 ^ (n - Suc i)) (mo (s + i))"
  shows "\<exists>c. merge_rounds per mo s n (concat bs @ t) = Done (c @ t) \<and> runs (2 ^ (s + n) * per) [c] \<and> mset c = mset (concat bs)"
  using assms
proof (induction n arbitrary: s bs)
  case 0
  then obtain c where "bs = [c]" by (auto simp: length_Suc_conv)
  then show ?case using 0 by simp
next
  case (Suc n)
  obtain cs where cs: "each (\<lambda>j. do_merge j (2 ^ s * per)) (mo s) (concat bs @ t) = Done (concat cs @ t)"
    "runs (2 ^ Suc s * per) cs" "length cs = 2 ^ n" "mset (concat cs) = mset (concat bs)"
    using merge_round[OF Suc(2), of "2 ^ n" "mo s" t] Suc(3) Suc(4)[rule_format, of 0] by (auto simp: mult.assoc)
  have "covers (2 ^ (n - Suc i)) (mo (Suc s + i))" if "i < n" for i
    using Suc(4)[rule_format, of "Suc i"] that by simp
  then show ?case using Suc(1)[OF cs(2,3)] cs(1,4) by simp
qed

lemma levels_of_power [simp]: "levels_of (2 ^ n) = n"
proof (induction n)
  case (Suc n)
  have "1 < (2 :: nat) ^ Suc n" by (rule one_less_power) simp_all
  then show ?case using Suc by (subst levels_of.simps) simp
qed (simp add: levels_of.simps)

text \<open>A list cut into \<open>m\<close> segments of \<open>n\<close> entries.\<close>

fun segs :: "nat \<Rightarrow> nat \<Rightarrow> 'a list \<Rightarrow> 'a list list" where
  "segs n 0 a = []"
| "segs n (Suc m) a = take n a # segs n m (drop n a)"

lemma segs_concat: "n * m \<le> length a \<Longrightarrow> concat (segs n m a) = take (n * m) a"
  by (induction m arbitrary: a) (simp_all add: take_add)

lemma length_segs [simp]: "length (segs n m a) = m"
  by (induction m arbitrary: a) simp_all

lemma segs_length: "n * m \<le> length a \<Longrightarrow> b \<in> set (segs n m a) \<Longrightarrow> length b = n"
proof (induction m arbitrary: a)
  case (Suc m)
  then show ?case using Suc(1)[of "drop n a"] by auto
qed simp

text \<open>
  C21. A chunk of a power of two of blocks is sorted: whatever order the worker threads take
  blocks and pairs in, and even if pairs are merged more than once, as long as the calls do
  not overlap, the first blocks*per records end up sorted by \<open>cmp_index_s\<close>, they are a
  permutation of what was there, and everything behind them is unchanged.
\<close>

theorem worker_serial_sorts:
  assumes "2 ^ n * per \<le> length a" "\<forall>e \<in> set (take (2 ^ n * per) a). plain e"
    and "covers (2 ^ n) bo" "\<forall>s < n. covers (2 ^ (n - Suc s)) (mo s)"
  shows "\<exists>c. worker_serial (2 ^ n) per bo mo a = Done (c @ drop (2 ^ n * per) a) \<and> sorted_cmp cmp_index_s c \<and>
    mset c = mset (take (2 ^ n * per) a)"
proof -
  let ?bs = "segs per (2 ^ n) a" and ?t = "drop (2 ^ n * per) a"
  have a: "a = concat ?bs @ ?t" using segs_concat[of per "2 ^ n" a] assms(1) by (simp add: mult.commute)
  have bs: "\<forall>b \<in> set ?bs. length b = per \<and> (\<forall>e \<in> set b. plain e)"
  proof (intro ballI conjI)
    fix b
    assume b: "b \<in> set ?bs"
    then show "length b = per" using segs_length assms(1) by (metis mult.commute)
    have "set b \<subseteq> set (concat ?bs)" using b by auto
    also have "\<dots> = set (take (2 ^ n * per) a)" using assms(1) segs_concat[of per "2 ^ n" a] by (simp add: mult.commute)
    finally show "plain e" if "e \<in> set b" for e using that assms(2) by blast
  qed
  let ?cs = "map (qsort_cmp cmp_index_s) ?bs"
  have "each (sort_block per) bo a = Done (concat ?cs @ ?t)"
    by (subst a) (rule sort_phase[of ?bs bo per ?t], use assms(3) bs in simp_all)
  moreover have "runs (2 ^ 0 * per) ?cs" using bs idx.qsort_sorted by (auto simp: runs_def)
  moreover have "mset (concat ?cs) = mset (concat ?bs)" by (induction ?bs) (simp_all add: mset_concat comp_def)
  moreover have "mset (concat ?bs) = mset (take (2 ^ n * per) a)"
    using segs_concat[of per "2 ^ n" a] assms(1) by (simp add: mult.commute)
  ultimately show ?thesis
    using merge_rounds_sort[of 0 per ?cs n mo ?t] assms(4) by (auto simp: worker_serial_def runs_def)
qed

theorem worker_serial_sorts_witness:
  "\<exists>c. worker_serial 2 1 [1, 0] (\<lambda>s. [0, 0]) [\<lparr>time_mark = 2, recno = 1\<rparr>, \<lparr>time_mark = 1, recno = 2\<rparr>] = Done c \<and>
     sorted_cmp cmp_index_s c \<and> length c = 2"
proof -
  let ?a = "[\<lparr>time_mark = 2, recno = 1\<rparr>, \<lparr>time_mark = 1, recno = 2\<rparr>]"
  have "\<forall>e \<in> set ?a. plain e" by (simp add: d_nan_def)
  then obtain c where c: "worker_serial 2 1 [1, 0] (\<lambda>s. [0, 0]) ?a = Done c" "sorted_cmp cmp_index_s c" "mset c = mset ?a"
    using worker_serial_sorts[of 1 1 ?a "[1, 0]" "\<lambda>s. [0, 0]"] by (auto simp: covers_def lessThan_Suc numeral_2_eq_2)
  moreover have "length c = 2" using c(3) by (metis length_Cons list.size(3) numeral_2_eq_2 size_mset)
  ultimately show ?thesis by blast
qed

section \<open>A chunk that is too short\<close>

lemma sort_block_cases:
  "sort_block per k a = Faults \<and> length a < per * k + per \<or> (\<exists>b. sort_block per k a = Done b \<and> length b = length a \<and> per * k + per \<le> length a)"
  by (auto simp: sort_block_def Let_def)

text \<open>
  If the last chunk holds fewer records than all blocks together, the workers leave it:
  some \<open>qsort\<close> call reaches past the mapped memory, whatever the order of the blocks.
\<close>

theorem short_chunk_faults:
  assumes "length a < blocks * per" "covers blocks bo"
  shows "worker_serial blocks per bo mo a = Faults"
proof -
  have "blocks \<noteq> 0" "per \<noteq> 0" using assms(1) by (auto intro: ccontr)
  then have "length a < per * (blocks - 1) + per" using assms(1) by (cases blocks) (simp_all add: algebra_simps)
  moreover have "blocks - 1 \<in> set bo" using assms(2) \<open>blocks \<noteq> 0\<close> by (simp add: covers_def)
  moreover have "k \<in> set ks \<Longrightarrow> length a < per * k + per \<Longrightarrow> each (sort_block per) ks a = Faults" for k ks
  proof (induction ks arbitrary: a)
    case (Cons j ks)
    then show ?case using sort_block_cases[of per j a] by (cases "j = k") (auto simp: not_less)
  qed simp
  ultimately show ?thesis by (simp add: worker_serial_def)
qed

theorem short_chunk_faults_witness:
  "worker_serial 4 1 [0, 1, 2, 3] (\<lambda>s. []) (replicate 3 \<lparr>time_mark = 0, recno = 0\<rparr>) = Faults"
  using short_chunk_faults[of "replicate 3 \<lparr>time_mark = 0, recno = 0\<rparr>" 4 1 "[0, 1, 2, 3]" "\<lambda>s. []"]
  by (auto simp: covers_def lessThan_Suc numeral_eq_Suc)

section \<open>The main program\<close>

text \<open>The argument checks; \<open>ms\<close>, \<open>bl\<close>, \<open>th\<close> are the values \<open>strtol\<close> returned. \<open>None\<close> is \<open>usage\<close>.\<close>

unbundle bit_operations_syntax

definition check_args :: "nat \<Rightarrow> int \<Rightarrow> int \<Rightarrow> int \<Rightarrow> int \<Rightarrow> (nat \<times> nat \<times> nat) option" where
  "check_args pagesize cores ms bl th =
     (if ms \<le> 0 \<or> ms mod int pagesize \<noteq> 0 then None
      else if bl \<le> 0 \<or> nat bl AND (nat bl - 1) \<noteq> 0 then None
      else if th \<le> 0 then None
      else let threads = (word_of_int th :: u32)
           in if int (unat threads) < cores \<or> int (unat threads) > 8 * cores then None
              else if nat bl < unat (4 * threads) then None
              else Some (nat ms, nat bl, unat threads))"

text \<open>\<open>expected\<close> in \<open>size_t\<close>, and the check of the file size against it.\<close>

definition expected_size :: "u64 \<Rightarrow> u64" where
  "expected_size records = 8 + records * 16"

definition size_ok :: "u64 \<Rightarrow> u64 \<Rightarrow> bool" where
  "size_ok filesize records \<longleftrightarrow> \<not> filesize < 8 \<and> \<not> filesize < expected_size records"

text \<open>How many bytes of the file from \<open>off\<close> on one mapping makes available.\<close>

definition chunk_len :: "nat \<Rightarrow> nat \<Rightarrow> nat \<Rightarrow> nat \<Rightarrow> nat" where
  "chunk_len pagesize memsize off expected =
     (let page = off - off mod pagesize;
          page_offset = off - page;
          want = page_offset + memsize;
          want = (if page + want > expected then expected - page else want)
      in want - page_offset)"

function chunk_loop :: "(index_s list \<Rightarrow> index_s list outcome) \<Rightarrow> nat \<Rightarrow> nat \<Rightarrow> nat \<Rightarrow> nat \<Rightarrow> index_s list \<Rightarrow> index_s list outcome" where
  "chunk_loop worker pagesize memsize off expected es =
     (if off < expected \<and> 0 < memsize
      then let lo = (off - 8) div 16; n = chunk_len pagesize memsize off expected div 16
           in obind (worker (take n (drop lo es))) (\<lambda>c.
              chunk_loop worker pagesize memsize (off + memsize) expected (take lo es @ c @ drop (lo + n) es))
      else Done es)"
  by pat_completeness auto
termination
  by (relation "measure (\<lambda>(worker, pagesize, memsize, off, expected, es). expected - off)") auto

declare chunk_loop.simps [simp del]

lemma chunk_len_eq: "off \<le> expected \<Longrightarrow> chunk_len pagesize memsize off expected = min memsize (expected - off)"
proof -
  assume "off \<le> expected"
  moreover have "off mod pagesize \<le> off" by simp
  ultimately show ?thesis by (simp add: chunk_len_def Let_def)
qed

lemma and_pred_power_of_2: "0 < n \<Longrightarrow> n AND (n - 1) = 0 \<Longrightarrow> \<exists>k. (n :: nat) = 2 ^ k"
proof (induction n rule: less_induct)
  case (less n)
  have split: "of_bool (odd n \<and> odd (n - 1)) + 2 * (n div 2 AND ((n - 1) div 2)) = 0"
    using less(3) by (metis and_nat_rec)
  show ?case
  proof (cases "even n")
    case True
    then have "(n - 1) div 2 = n div 2 - 1" by (auto elim!: evenE)
    moreover have "0 < n div 2" using True less(2) by (auto elim!: evenE)
    ultimately obtain k where "n div 2 = 2 ^ k" using less(1)[of "n div 2"] split True by auto
    then have "n = 2 ^ Suc k" using True by (metis dvd_mult_div_cancel power_Suc)
    then show ?thesis ..
  next
    case False
    then have "(n - 1) div 2 = n div 2" by (auto elim!: oddE)
    then show ?thesis using split False by (intro exI[of _ 0]) (auto elim!: oddE)
  qed
qed

text \<open>
  The argument checks establish what the workers rely on: the number of blocks is a power
  of two and at least four per thread, the memory size is a positive multiple of the page
  size and the thread count lies between one and eight times the number of cores (for fewer
  than \<open>2 ^ 27\<close> cores, where the 32-bit product cannot wrap).
\<close>

theorem check_args_sound:
  assumes "check_args pagesize cores ms bl th = Some (memsize, blocks, threads)"
    and "0 < cores" "cores < 2 ^ 27"
  shows "(\<exists>k. blocks = 2 ^ k) \<and> 4 * threads \<le> blocks \<and> 0 < memsize \<and> pagesize dvd memsize \<and>
    cores \<le> int threads \<and> int threads \<le> 8 * cores"
proof -
  let ?t = "word_of_int th :: u32"
  have *: "0 < ms" "ms mod int pagesize = 0" "0 < bl" "nat bl AND (nat bl - 1) = 0"
    "cores \<le> int (unat ?t)" "int (unat ?t) \<le> 8 * cores" "unat (4 * ?t) \<le> nat bl"
    "memsize = nat ms" "blocks = nat bl" "threads = unat ?t"
    using assms(1) by (auto simp: check_args_def Let_def split: if_splits)
  have "8 * cores < 2 ^ 30" using assms(3) by simp
  then have "int (unat ?t) < 2 ^ 30" using *(6) by linarith
  then have "unat ?t < 2 ^ 30" by (metis of_nat_less_numeral_power_cancel_iff)
  then have "unat (4 * ?t) = 4 * unat ?t" by (simp add: unat_word_ariths)
  moreover have "\<exists>k. blocks = 2 ^ k" using and_pred_power_of_2[of "nat bl"] * by simp
  moreover have "pagesize dvd memsize" using *(1,2,8) by (metis dvd_eq_mod_eq_0 int_dvd_int_iff nat_0_le less_imp_le)
  ultimately show ?thesis using * by simp
qed

theorem check_args_sound_witness:
  "check_args 4096 2 4096 8 2 = Some (4096, 8, 2) \<and> 4 * 2 \<le> (8 :: nat)"
proof -
  have "8 AND (7 :: nat) = 0" by (simp add: and_nat_unfold)
  then have "check_args 4096 2 4096 8 2 = Some (4096, 8, 2)" by (simp add: check_args_def)
  then show ?thesis using check_args_sound by fastforce
qed

text \<open>
  The number of records in the header is not checked reliably: the expected size is
  computed in 64 bits and wraps, so a file of eight bytes that claims \<open>2 ^ 60\<close> records passes.
  Below \<open>2 ^ 60 - 1\<close> records the computation is exact.
\<close>

theorem expected_size_wraps:
  "size_ok 8 (2 ^ 60) \<and>
   (unat records < 2 ^ 60 - 1 \<longrightarrow> (size_ok filesize records \<longleftrightarrow> 8 + 16 * unat records \<le> unat filesize))"
proof
  show "size_ok 8 (2 ^ 60)" by (simp add: size_ok_def expected_size_def)
  show "unat records < 2 ^ 60 - 1 \<longrightarrow> (size_ok filesize records \<longleftrightarrow> 8 + 16 * unat records \<le> unat filesize)"
  proof
    assume "unat records < 2 ^ 60 - 1"
    then have "unat (expected_size records) = 8 + 16 * unat records"
      by (simp add: expected_size_def unat_word_ariths)
    then show "size_ok filesize records \<longleftrightarrow> 8 + 16 * unat records \<le> unat filesize"
      by (auto simp: size_ok_def not_less word_le_nat_alt)
  qed
qed

theorem expected_size_wraps_witness: "\<not> size_ok 23 1 \<and> size_ok 24 1"
  using expected_size_wraps[of 1 23] expected_size_wraps[of 1 24] by simp

subsection \<open>The chunk loop\<close>

text \<open>From a chunk boundary on, the loop sorts every remaining chunk on its own.\<close>

lemma chunk_loop_segments:
  assumes worker: "\<And>a. length a = n \<Longrightarrow> \<forall>e \<in> set a. plain e \<Longrightarrow>
      \<exists>c. worker a = Done c \<and> sorted_cmp cmp_index_s c \<and> mset c = mset a"
    and "0 < n" "length pre = n * k" "\<forall>a \<in> set rest. length a = n \<and> (\<forall>e \<in> set a. plain e)"
  shows "\<exists>cs. chunk_loop worker pagesize (16 * n) (8 + 16 * (n * k)) (8 + 16 * (n * (k + length rest))) (pre @ concat rest)
      = Done (pre @ concat cs) \<and>
    list_all2 (\<lambda>c a. sorted_cmp cmp_index_s c \<and> mset c = mset a) cs rest"
  using assms(3,4)
proof (induction rest arbitrary: k pre)
  case Nil
  then show ?case by (simp add: chunk_loop.simps)
next
  case (Cons a rest)
  let ?off = "8 + 16 * (n * k)" and ?exp = "8 + 16 * (n * (k + length (a # rest)))"
  have a: "length a = n" "\<forall>e \<in> set a. plain e" using Cons(3) by auto
  obtain c where c: "worker a = Done c" "sorted_cmp cmp_index_s c" "mset c = mset a" using worker[OF a] by blast
  have len: "length c = n" using c(3) a(1) by (metis size_mset)
  have lt: "?off < ?exp" using assms(2) by (simp add: algebra_simps)
  have clen: "chunk_len pagesize (16 * n) ?off ?exp div 16 = n"
    using lt by (simp add: chunk_len_eq algebra_simps)
  obtain cs where cs: "chunk_loop worker pagesize (16 * n) (8 + 16 * (n * Suc k)) (8 + 16 * (n * (Suc k + length rest)))
      ((pre @ c) @ concat rest) = Done ((pre @ c) @ concat cs)"
    "list_all2 (\<lambda>c a. sorted_cmp cmp_index_s c \<and> mset c = mset a) cs rest"
    using Cons(1)[of "pre @ c" "Suc k"] Cons(2,3) len by (auto simp: algebra_simps)
  have "chunk_loop worker pagesize (16 * n) ?off ?exp (pre @ concat (a # rest)) = Done (pre @ concat (c # cs))"
    using lt clen c(1) cs(1) assms(2) Cons(2) a(1)
    by (subst chunk_loop.simps) (simp add: algebra_simps)
  then show ?case using cs(2) c by (intro exI[of _ "c # cs"]) simp
qed

lemma segs_set:
  assumes "n * q = length es" "\<forall>e \<in> set es. plain e" "a \<in> set (segs n q es)"
  shows "length a = n \<and> (\<forall>e \<in> set a. plain e)"
proof -
  have "set a \<subseteq> set (concat (segs n q es))" using assms(3) by auto
  then have "set a \<subseteq> set es" using segs_concat[of n q es] assms(1) by simp
  then show ?thesis using segs_length[of n q es a] assms by auto
qed

lemma chunk_loop_file:
  assumes "0 < per" "2 ^ m * per * q = length es" "\<forall>e \<in> set es. plain e"
    and "covers (2 ^ m) bo" "\<forall>s < m. covers (2 ^ (m - Suc s)) (mo s)"
  shows "\<exists>cs. chunk_loop (worker_serial (2 ^ m) per bo mo) pagesize (16 * (2 ^ m * per)) 8 (8 + 16 * length es) es = Done (concat cs) \<and>
    list_all2 (\<lambda>c a. sorted_cmp cmp_index_s c \<and> mset c = mset a) cs (segs (2 ^ m * per) q es)"
proof -
  let ?n = "2 ^ m * per"
  have worker: "\<exists>c. worker_serial (2 ^ m) per bo mo a = Done c \<and> sorted_cmp cmp_index_s c \<and> mset c = mset a"
    if "length a = ?n" "\<forall>e \<in> set a. plain e" for a
    using worker_serial_sorts[of m per a bo mo] that assms(4,5) by simp
  have "concat (segs ?n q es) = es" using segs_concat[of ?n q es] assms(2) by simp
  then show ?thesis
    using chunk_loop_segments[of ?n "worker_serial (2 ^ m) per bo mo" "[]" 0 "segs ?n q es" pagesize, OF worker]
      segs_set[OF assms(2,3)] assms(1,2) by simp
qed


abbreviation two_entries :: "index_s list" where
  "two_entries \<equiv> [\<lparr>time_mark = 2, recno = 1\<rparr>, \<lparr>time_mark = 1, recno = 2\<rparr>]"


text \<open>
  The windows are never merged with each other: if some record of an earlier window has to
  come after some record of a later one, the file is not sorted when the program ends.
\<close>

theorem sort_index_does_not_merge_windows:
  assumes "0 < per" "2 ^ m * per * q = length es" "\<forall>e \<in> set es. plain e"
    and "covers (2 ^ m) bo" "\<forall>s < m. covers (2 ^ (m - Suc s)) (mo s)"
    and "i < j" "j < q" "x \<in> set (segs (2 ^ m * per) q es ! i)" "y \<in> set (segs (2 ^ m * per) q es ! j)" "cmp_index_s x y > 0"
  shows "\<exists>r. chunk_loop (worker_serial (2 ^ m) per bo mo) pagesize (16 * (2 ^ m * per)) 8 (8 + 16 * length es) es = Done r \<and>
    \<not> sorted_cmp cmp_index_s r"
proof -
  obtain cs where cs: "chunk_loop (worker_serial (2 ^ m) per bo mo) pagesize (16 * (2 ^ m * per)) 8 (8 + 16 * length es) es = Done (concat cs)"
    "list_all2 (\<lambda>c a. sorted_cmp cmp_index_s c \<and> mset c = mset a) cs (segs (2 ^ m * per) q es)"
    using chunk_loop_file[OF assms(1-5)] by blast
  have len: "length cs = q" using cs(2) by (simp add: list_all2_conv_all_nth)
  have "mset (cs ! k) = mset (segs (2 ^ m * per) q es ! k)" if "k < q" for k
    using cs(2) that by (simp add: list_all2_conv_all_nth)
  then have xy: "x \<in> set (cs ! i)" "y \<in> set (cs ! j)" using assms(6-9) by (metis mset_eq_setD less_trans)+
  have "concat cs = concat (take j cs) @ cs ! j @ concat (drop (Suc j) cs)"
    using id_take_nth_drop[of j cs] assms(7) len by (metis concat.simps(2) concat_append)
  moreover have "cs ! i \<in> set (take j cs)" using assms(6,7) len by (auto simp: in_set_conv_nth intro!: exI[of _ i])
  then have "x \<in> set (concat (take j cs))" using xy(1) by auto
  ultimately have "sorted_cmp cmp_index_s (concat cs) \<Longrightarrow> cmp_index_s x y \<le> 0"
    using xy(2) by (auto simp: sorted_wrt_append)
  then show ?thesis using cs(1) assms(10) by auto
qed

theorem sort_index_does_not_merge_windows_witness:
  "\<exists>r. chunk_loop (worker_serial 1 1 [0] (\<lambda>s. [])) 4096 16 8 40 two_entries = Done r \<and> \<not> sorted_cmp cmp_index_s r"
proof -
  have "\<forall>e \<in> set two_entries. plain e" by (simp add: d_nan_def)
  moreover have "cmp_index_s (two_entries ! 0) (two_entries ! 1) > 0" by (simp add: cmp_index_s_def d_less_def d_nan_def d_val_def)
  ultimately show ?thesis
    using sort_index_does_not_merge_windows[of 1 0 2 two_entries "[0]" "\<lambda>s. []" 0 1 "two_entries ! 0" "two_entries ! 1" 4096]
    by (simp add: covers_def lessThan_Suc numeral_2_eq_2)
qed

end
