(* ===== verification/Index_Files.thy ===== *)
theory Index_Files
  imports Index_Sort Complex_Main
begin

text \<open>
  lab06/src/gen.c and lab06/src/view.c: the calendar computation of \<open>current_mjd\<close>, the file that
  \<open>gen\<close> writes and the listing of \<open>view\<close>. The random time marks are a parameter. The calendar is
  computed in exact numbers; the \<open>double\<close> of the source has enough bits for the day counts.
\<close>

section \<open>The date\<close>

definition jdn :: "int \<Rightarrow> int \<Rightarrow> int \<Rightarrow> int" where
  "jdn Y M D =
     (let A = (14 - M) div 12;
          y = Y + 4800 - A;
          m = M + 12 * A - 3
      in D + (153 * m + 2) div 5 + 365 * y + y div 4 - y div 100 + y div 400 - 32045)"

definition current_mjd :: "int \<times> int \<times> int \<Rightarrow> int \<Rightarrow> int \<Rightarrow> int \<Rightarrow> rat" where
  "current_mjd date hour minute sec =
     (case date of (Y, M, D) \<Rightarrow>
        let day_frac = of_int (hour * 3600 + minute * 60 + sec) / 86400;
            JD = of_int (jdn Y M D) + day_frac
        in JD - 24000005 / 10)"

text \<open>The Gregorian calendar.\<close>

definition leap :: "int \<Rightarrow> bool" where
  "leap Y \<longleftrightarrow> Y mod 4 = 0 \<and> (Y mod 100 \<noteq> 0 \<or> Y mod 400 = 0)"

definition month_len :: "int \<Rightarrow> int \<Rightarrow> int" where
  "month_len Y M = (if M = 2 then if leap Y then 29 else 28
     else if M = 4 \<or> M = 6 \<or> M = 9 \<or> M = 11 then 30 else 31)"

definition valid_date :: "int \<times> int \<times> int \<Rightarrow> bool" where
  "valid_date d = (case d of (Y, M, D) \<Rightarrow> 1 \<le> M \<and> M \<le> 12 \<and> 1 \<le> D \<and> D \<le> month_len Y M)"

definition next_day :: "int \<times> int \<times> int \<Rightarrow> int \<times> int \<times> int" where
  "next_day d = (case d of (Y, M, D) \<Rightarrow>
     if D < month_len Y M then (Y, M, D + 1)
     else if M < 12 then (Y, M + 1, 1)
     else (Y + 1, 1, 1))"

lemma div_Suc_diff:
  assumes "0 < k"
  shows "(y + 1) div k = y div k + of_bool ((y + 1) mod k = (0 :: int))"
proof -
  have bounds: "y mod k < k" "0 \<le> y mod k" using assms by simp_all
  have y: "k * (y div k) + y mod k = y" by simp
  show ?thesis
  proof (cases "y mod k + 1 = k")
    case True
    have "k * (y div k + 1) = k * (y div k) + k" by (simp add: algebra_simps)
    then have "y + 1 = k * (y div k + 1) + 0" using y True by linarith
    then have "(y + 1) div k = y div k + 1" "(y + 1) mod k = 0"
      using assms by (rule int_div_pos_eq[OF _ order_refl], rule int_mod_pos_eq[OF _ order_refl])
    then show ?thesis by simp
  next
    case False
    have "y + 1 = k * (y div k) + (y mod k + 1)" using y by simp
    then have "(y + 1) div k = y div k" "(y + 1) mod k = y mod k + 1"
      using bounds False int_div_pos_eq[of "y + 1" k "y div k" "y mod k + 1"] int_mod_pos_eq[of "y + 1" k "y div k" "y mod k + 1"]
      by simp_all
    then show ?thesis using bounds by simp
  qed
qed

lemma leap_count:
  "of_bool (leap Y) = (of_bool ((Y + 4800) mod 4 = 0) - of_bool ((Y + 4800) mod 100 = 0) + of_bool ((Y + 4800) mod 400 = 0) :: int)"
proof -
  have e: "(Y + 4800) mod 4 = Y mod 4" "(Y + 4800) mod 100 = Y mod 100" "(Y + 4800) mod 400 = Y mod 400"
    using mod_mult_self2[of Y 4 1200] mod_mult_self2[of Y 100 48] mod_mult_self2[of Y 400 12] by simp_all
  have imp: "Y mod 400 = 0 \<longrightarrow> Y mod 100 = 0" "Y mod 100 = 0 \<longrightarrow> Y mod 4 = 0"
    using mod_mod_cancel[of 100 400 Y] mod_mod_cancel[of 4 100 Y] by auto
  show ?thesis
    unfolding leap_def e using imp by (cases "Y mod 4 = 0"; cases "Y mod 100 = 0"; cases "Y mod 400 = 0") auto
qed

lemma jdn_next_month:
  assumes "1 \<le> M" "M < 12"
  shows "jdn Y (M + 1) 1 = jdn Y M (month_len Y M) + 1"
proof -
  have "M = 2 \<or> M = 1 \<or> M = 3 \<or> M = 4 \<or> M = 5 \<or> M = 6 \<or> M = 7 \<or> M = 8 \<or> M = 9 \<or> M = 10 \<or> M = 11"
    using assms by presburger
  have years: "(Y + 4800) div 4 - (Y + 4800) div 100 + (Y + 4800) div 400 =
      (Y + 4799) div 4 - (Y + 4799) div 100 + (Y + 4799) div 400 + of_bool (leap Y)"
  proof -
    have e: "Y + 4799 + 1 = Y + 4800" by simp
    note d = div_Suc_diff[OF zero_less_numeral, of "Y + 4799", unfolded e]
    show ?thesis unfolding d leap_count by linarith
  qed
  have feb: "month_len Y 2 = 28 + of_bool (leap Y)" by (simp add: month_len_def)
  have "jdn Y 3 1 = 1 + 365 * (Y + 4800) + ((Y + 4800) div 4 - (Y + 4800) div 100 + (Y + 4800) div 400) - 32045"
    by (simp add: jdn_def Let_def)
  moreover have "jdn Y 2 (month_len Y 2) = month_len Y 2 + 337 + 365 * (Y + 4799) + ((Y + 4799) div 4 - (Y + 4799) div 100 + (Y + 4799) div 400) - 32045"
    by (simp add: jdn_def Let_def add.commute[of 4799])
  moreover have "x = 1 + 365 * (Y + 4800) + A - 32045 \<Longrightarrow> z = m + 337 + 365 * (Y + 4799) + B - 32045 \<Longrightarrow>
      A = B + l \<Longrightarrow> m = 28 + l \<Longrightarrow> x = z + 1" for x z m A B l :: int by simp
  ultimately have march: "jdn Y 3 1 = jdn Y 2 (month_len Y 2) + 1" using years feb by blast
  from \<open>M = 2 \<or> _\<close> show ?thesis
  proof (elim disjE)
    assume "M = 2"
    then show ?thesis using march by simp
  qed (simp_all add: jdn_def month_len_def Let_def)
qed

lemma jdn_next_day:
  assumes "valid_date d"
  shows "(case next_day d of (Y, M, D) \<Rightarrow> jdn Y M D) = (case d of (Y, M, D) \<Rightarrow> jdn Y M D) + 1 \<and> valid_date (next_day d)"
proof -
  obtain Y M D where d: "d = (Y, M, D)" by (cases d) auto
  have v: "1 \<le> M" "M \<le> 12" "1 \<le> D" "D \<le> month_len Y M" using assms d by (simp_all add: valid_date_def)
  have len: "1 \<le> month_len y m" for y m by (simp add: month_len_def)
  consider "D < month_len Y M" | "D = month_len Y M" "M < 12" | "D = month_len Y M" "M = 12" using v by linarith
  then show ?thesis
  proof cases
    case 1
    then show ?thesis using d v by (simp add: next_day_def valid_date_def jdn_def Let_def)
  next
    case 2
    then show ?thesis using d v jdn_next_month[of M Y] len by (simp add: next_day_def valid_date_def)
  next
    case 3
    then show ?thesis using d v len by (simp add: next_day_def valid_date_def jdn_def Let_def month_len_def[of _ 12] add.commute[of 4800])
  qed
qed

lemma days_later:
  "valid_date d \<Longrightarrow> valid_date ((next_day ^^ n) d) \<and>
    (case (next_day ^^ n) d of (Y, M, D) \<Rightarrow> jdn Y M D) = (case d of (Y, M, D) \<Rightarrow> jdn Y M D) + int n"
proof (induction n)
  case (Suc n)
  then show ?case using jdn_next_day[of "(next_day ^^ n) d"] by simp
qed simp

text \<open>
  \<open>current_mjd\<close> counts days correctly over the whole Gregorian calendar, but its value is half
  a day too large: on the day \<open>n\<close> days after 17 November 1858, the origin of the modified Julian
  date, it returns \<open>n\<close> plus a half plus the fraction of the day.
\<close>

theorem current_mjd_half_day_late:
  "current_mjd ((next_day ^^ n) (1858, 11, 17)) hour minute sec =
     of_nat n + 1 / 2 + of_int (hour * 3600 + minute * 60 + sec) / 86400"
proof -
  have "valid_date (1858, 11, 17)" by (simp add: valid_date_def month_len_def)
  moreover have "jdn 1858 11 17 = 2400001" by (simp add: jdn_def)
  ultimately have "(case (next_day ^^ n) (1858, 11, 17) of (Y, M, D) \<Rightarrow> jdn Y M D) = 2400001 + int n"
    using days_later[of "(1858, 11, 17)" n] by simp
  then show ?thesis by (auto simp: current_mjd_def split: prod.splits)
qed

section \<open>gen and view\<close>

text \<open>An index file: its size in bytes, the header, the records that lie behind it.\<close>

record index_file =
  f_size :: u64
  f_records :: u64
  f_idx :: "index_s list"

text \<open>
  \<open>gen\<close> with the value and the error flag of \<open>strtoull\<close>, and the random time marks. \<open>Exits\<close> is the
  return with an error message. A record outside the mapping faults.
\<close>

definition gen_main :: "bool \<Rightarrow> u64 \<Rightarrow> (nat \<Rightarrow> u64) \<Rightarrow> index_file outcome" where
  "gen_main range_error records marks =
     (if range_error \<or> records = 0 \<or> records mod 256 \<noteq> 0 then Exits
      else let filesize = expected_size records
           in if (unat filesize - 8) div 16 < unat records then Faults
              else Done \<lparr>f_size = filesize, f_records = records,
                f_idx = map (\<lambda>i. \<lparr>time_mark = marks i, recno = of_nat (i + 1)\<rparr>) [0..<unat records]\<rparr>)"

definition view_main :: "index_file \<Rightarrow> (nat \<times> index_s) list outcome" where
  "view_main f =
     (if \<not> size_ok (f_size f) (f_records f) then Exits
      else if length (f_idx f) < unat (f_records f) then Faults
      else Done (enumerate 0 (take (unat (f_records f)) (f_idx f))))"

text \<open>
  \<open>view\<close> lists exactly what \<open>gen\<close> wrote: for every accepted record count below \<open>2 ^ 60 - 1\<close>, the
  records 0, 1, ... with record numbers 1, 2, ... and the generated time marks. A count of
  \<open>2 ^ 60\<close> is accepted too, but the size wraps to eight bytes and \<open>gen\<close> writes outside the mapping.
\<close>

theorem view_lists_generated:
  "(records \<noteq> 0 \<and> records mod 256 = 0 \<and> unat records < 2 ^ 60 - 1 \<longrightarrow>
     (\<exists>f. gen_main False records marks = Done f \<and>
       view_main f = Done (map (\<lambda>i. (i, \<lparr>time_mark = marks i, recno = of_nat (i + 1)\<rparr>)) [0..<unat records]))) \<and>
   gen_main False (2 ^ 60) marks = Faults"
proof (intro conjI impI)
  assume a: "records \<noteq> 0 \<and> records mod 256 = 0 \<and> unat records < 2 ^ 60 - 1"
  then have size: "unat (expected_size records) = 8 + 16 * unat records"
    by (simp add: expected_size_def unat_word_ariths)
  then have "size_ok (expected_size records) records" by (simp add: size_ok_def word_less_nat_alt)
  moreover have "enumerate 0 (map g [0..<n]) = map (\<lambda>i. (i, g i)) [0..<n]" for n and g :: "nat \<Rightarrow> index_s"
    by (intro nth_equalityI) (simp_all add: nth_enumerate_eq)
  ultimately show "\<exists>f. gen_main False records marks = Done f \<and>
       view_main f = Done (map (\<lambda>i. (i, \<lparr>time_mark = marks i, recno = of_nat (i + 1)\<rparr>)) [0..<unat records])"
    using a size by (simp add: gen_main_def view_main_def)
next
  have "(2 ^ 60 :: u64) mod 256 = 0" "expected_size (2 ^ 60) = 8" by (simp_all add: expected_size_def)
  then show "gen_main False (2 ^ 60) marks = Faults" by (simp add: gen_main_def)
qed

theorem view_lists_generated_witness:
  "\<exists>f rows. gen_main False 256 (\<lambda>i. 0) = Done f \<and> view_main f = Done rows \<and> length rows = 256"
  using view_lists_generated[of 256 "\<lambda>i. 0"] by auto

end
