(* ===== verification/Index_Doubles.thy ===== *)
theory Index_Doubles
  imports Index_Sort Complex_Main
begin

text \<open>
  The number a \<open>double\<close> of lab06 stands for, given its 64 bits in IEEE 754 format, and the proof that
  the order \<open>d_less\<close> on bits used by \<open>Index_Sort\<close> is the order of these numbers.
\<close>

text \<open>A magnitude \<open>w\<close> of 63 bits (exponent and mantissa) in units of the smallest number, \<open>2 ^ -1074\<close>.\<close>

definition d_units :: "nat \<Rightarrow> nat" where
  "d_units w =
     (let e = w div 2 ^ 52; m = w mod 2 ^ 52
      in if e = 0 then m else (2 ^ 52 + m) * 2 ^ (e - 1))"

definition ulp :: real where "ulp = inverse (2 ^ 1074)"

definition d_finite :: "u64 \<Rightarrow> bool" where
  "d_finite w \<longleftrightarrow> unat w div 2 ^ 52 mod 2 ^ 11 \<noteq> 2 ^ 11 - 1"

definition d_real :: "u64 \<Rightarrow> real option" where
  "d_real w =
     (if d_finite w then Some (of_int (sgn (d_val w)) * of_nat (d_units (nat \<bar>d_val w\<bar>)) * ulp) else None)"

lemma ulp_pos: "0 < ulp"
  by (simp add: ulp_def)

lemma d_units_split: "m < 2 ^ 52 \<Longrightarrow> d_units (e * 2 ^ 52 + m) = (if e = 0 then m else (2 ^ 52 + m) * 2 ^ (e - 1))"
  by (simp add: d_units_def)

lemma d_units_0 [simp]: "d_units 0 = 0"
  by (simp add: d_units_def)

lemma d_units_Suc: "d_units w < d_units (Suc w)"
proof -
  define e m where "e = w div 2 ^ 52" and "m = w mod 2 ^ 52"
  have w: "w = e * 2 ^ 52 + m" "m < 2 ^ 52" by (simp_all add: e_def m_def)
  show ?thesis
  proof (cases "Suc m < 2 ^ 52")
    case True
    then show ?thesis
      using d_units_split[OF w(2), of e] d_units_split[OF True, of e] unfolding w(1) by simp
  next
    case False
    then have m: "m = 2 ^ 52 - 1" using w(2) by simp
    then have s: "Suc w = Suc e * 2 ^ 52 + 0" unfolding w(1) by simp
    have "d_units (Suc w) = 2 ^ 52 * 2 ^ e" unfolding s by (subst d_units_split) simp_all
    moreover have "d_units w < 2 ^ 52 * 2 ^ e"
    proof (cases e)
      case 0
      then show ?thesis using d_units_split[OF w(2), of e] w(2) unfolding w(1) by simp
    next
      case (Suc k)
      then have "d_units w = (2 ^ 52 + m) * 2 ^ k" using d_units_split[OF w(2), of e] unfolding w(1) by simp
      then show ?thesis using m Suc by simp
    qed
    ultimately show ?thesis by simp
  qed
qed

lemma d_units_less: "d_units a < d_units b \<longleftrightarrow> a < b"
  using strict_mono_less[of d_units a b] d_units_Suc strict_mono_Suc_iff by blast

lemma d_units_pos: "d_units a = 0 \<longleftrightarrow> a = 0"
  using d_units_less[of 0 a] by (cases "a = 0") simp_all

text \<open>Numbers are ordered as the signed magnitudes.\<close>

lemma signed_units_less:
  "(of_int (sgn x) * of_nat (d_units (nat \<bar>x\<bar>)) :: int) < of_int (sgn y) * of_nat (d_units (nat \<bar>y\<bar>)) \<longleftrightarrow> x < y"
proof -
  have pos: "0 < x \<Longrightarrow> (0 :: int) < int (d_units (nat \<bar>x\<bar>))" for x using d_units_pos[of "nat \<bar>x\<bar>"] by simp
  have neg: "x < 0 \<Longrightarrow> (0 :: int) < int (d_units (nat \<bar>x\<bar>))" for x using d_units_pos[of "nat \<bar>x\<bar>"] by simp
  consider "0 < x" "0 < y" | "x < 0" "y < 0" | "x = 0" | "y = 0" | "0 < x" "y < 0" | "x < 0" "0 < y" by linarith
  then show ?thesis
  proof cases
    case 1
    then show ?thesis using d_units_less[of "nat x" "nat y"] by simp
  next
    case 2
    then show ?thesis using d_units_less[of "nat (- y)" "nat (- x)"] by simp
  next
    case 3
    then show ?thesis using pos[of y] neg[of y] by (cases "y < 0"; cases "y = 0") simp_all
  next
    case 4
    then show ?thesis using pos[of x] neg[of x] by (cases "x < 0"; cases "x = 0") simp_all
  qed (use pos[of x] pos[of y] neg[of x] neg[of y] in simp_all)
qed

lemma d_real_less:
  assumes "d_real a = Some x" "d_real b = Some y"
  shows "x < y \<longleftrightarrow> d_val a < d_val b"
proof -
  let ?u = "\<lambda>w. of_int (sgn (d_val w)) * of_nat (d_units (nat \<bar>d_val w\<bar>)) :: int"
  have "x = of_int (?u a) * ulp" "y = of_int (?u b) * ulp" using assms by (auto simp: d_real_def split: if_splits)
  then have "x < y \<longleftrightarrow> ?u a < ?u b" using ulp_pos by (simp only: mult_less_cancel_right_pos of_int_less_iff)
  then show ?thesis by (simp only: signed_units_less)
qed

lemma d_real_not_nan: "d_real a = Some x \<Longrightarrow> \<not> d_nan a"
  by (auto simp: d_real_def d_finite_def d_nan_def split: if_splits)

lemma d_less_real:
  assumes "d_real a = Some x" "d_real b = Some y"
  shows "d_less a b \<longleftrightarrow> x < y"
  using d_real_less[OF assms] d_real_not_nan[OF assms(1)] d_real_not_nan[OF assms(2)] by (simp add: d_less_def)

text \<open>What \<open>cmp_index_s\<close> compares: the time marks as numbers, then the record numbers.\<close>

lemma cmp_index_s_real:
  assumes "d_real (time_mark a) = Some x" "d_real (time_mark b) = Some y"
  shows "cmp_index_s a b \<le> 0 \<longleftrightarrow> x < y \<or> x = y \<and> recno a \<le> recno b"
  using d_less_real[OF assms] d_less_real[OF assms(2,1)] by (auto simp: cmp_index_s_def)

section \<open>Bits of a multiple of one half\<close>

fun flog :: "nat \<Rightarrow> nat" where
  "flog n = (if n < 2 then 0 else Suc (flog (n div 2)))"

declare flog.simps [simp del]

lemma flog_bounds: "0 < n \<Longrightarrow> 2 ^ flog n \<le> n \<and> n < 2 ^ Suc (flog n)"
proof (induction n rule: flog.induct)
  case (1 n)
  then show ?case by (cases "n < 2") (auto simp: flog.simps[of n])
qed

definition half_bits :: "nat \<Rightarrow> u64" where
  "half_bits k =
     (let l = flog k in if k = 0 then 0 else of_nat ((l + 1022) * 2 ^ 52 + (k * 2 ^ (52 - l) - 2 ^ 52)))"

lemma d_real_half_bits:
  assumes "k < 2 ^ 53"
  shows "d_real (half_bits k) = Some (of_nat k / 2)"
proof (cases "k = 0")
  case True
  then show ?thesis by (simp add: half_bits_def d_real_def d_finite_def d_val_def)
next
  case False
  define l m where "l = flog k" and "m = k * 2 ^ (52 - l) - 2 ^ 52"
  have l: "2 ^ l \<le> k" "k < 2 ^ Suc l" using flog_bounds[of k] False by (simp_all add: l_def)
  then have "(2 :: nat) ^ l < 2 ^ 53" using assms by linarith
  then have "l < 53" by (rule power_less_imp_less_exp[rotated]) simp
  then have l52: "l \<le> 52" by simp
  have "(2 :: nat) ^ l * 2 ^ (52 - l) \<le> k * 2 ^ (52 - l)" "k * 2 ^ (52 - l) < 2 ^ Suc l * 2 ^ (52 - l)" using l by simp_all
  moreover have "(2 :: nat) ^ l * 2 ^ (52 - l) = 2 ^ 52" using l52 by (simp only: power_add[symmetric] le_add_diff_inverse)
  moreover from this have "(2 :: nat) ^ Suc l * 2 ^ (52 - l) = 2 * 2 ^ 52" by (simp only: power_Suc mult.assoc)
  ultimately have m: "2 ^ 52 + m = k * 2 ^ (52 - l)" "m < 2 ^ 52"
    unfolding m_def by linarith+
  let ?w = "(l + 1022) * 2 ^ 52 + m"
  have lt: "?w < 2 ^ 63" using l52 m(2) by simp
  have b: "half_bits k = of_nat ?w" using False by (simp add: half_bits_def m_def l_def Let_def)
  have u: "unat (half_bits k) = ?w" unfolding b unat_of_nat using lt by simp
  have "?w div 2 ^ 52 = l + 1022" using m(2) by simp
  then have fin: "d_finite (half_bits k)" unfolding d_finite_def u using l52 by simp
  have "d_units ?w = k * 2 ^ (52 - l) * 2 ^ (l + 1021)"
    using d_units_split[OF m(2), of "l + 1022"] m(1) by simp
  also have "\<dots> = k * 2 ^ 1073" using l52 by (simp add: mult.assoc power_add[symmetric])
  finally have units: "d_units ?w = k * 2 ^ 1073" .
  have half: "(2 :: real) ^ 1073 * ulp = 1 / 2"
  proof -
    have "(2 :: real) ^ 1074 = 2 * 2 ^ 1073" by (simp only: power_Suc[symmetric]) simp
    then show ?thesis unfolding ulp_def by (simp only:) (simp add: field_simps)
  qed
  have v: "d_val (half_bits k) = int ?w" using lt by (simp add: d_val_def u)
  have "sgn (int ?w) = 1" "nat \<bar>int ?w\<bar> = ?w" by (simp, simp only: abs_of_nat nat_int)
  then have "d_real (half_bits k) = Some (of_nat (d_units ?w) * ulp)" unfolding d_real_def v using fin by (simp only: if_True of_int_1 mult_1)
  also have "of_nat (d_units ?w) * ulp = of_nat k * (2 ^ 1073 * ulp)" unfolding units by (simp only: of_nat_mult of_nat_power of_nat_numeral mult.assoc)
  finally show ?thesis unfolding half by simp
qed

end
