(* ===== verification/Gen_Marks.thy ===== *)
theory Gen_Marks
  imports Index_Files Index_Doubles
begin

text \<open>
  lab06/src/gen.c: the time marks. The computation in \<open>double\<close> is written out with a function
  \<open>rnd\<close> applied after every operation, the rounding of the machine, and \<open>bits\<close>, the
  representation of a \<open>double\<close> in the file. \<open>rand_r\<close> is a function from the seed to a number and the next seed.
\<close>

section \<open>Marks in machine arithmetic\<close>

abbreviation RAND_MAX :: int where "RAND_MAX \<equiv> 2147483647"

type_synonym rng = "u32 \<Rightarrow> int \<times> u32"

definition mjd_now :: "(real \<Rightarrow> real) \<Rightarrow> int \<times> int \<times> int \<Rightarrow> int \<Rightarrow> int \<Rightarrow> int \<Rightarrow> real" where
  "mjd_now rnd date hour minute sec =
     (case date of (Y, M, D) \<Rightarrow>
        let day_frac = rnd (of_int (hour * 3600 + minute * 60 + sec) / 86400);
            JD = rnd (of_int (jdn Y M D) + day_frac)
        in rnd (JD - 24000005 / 10))"

definition mjd_min :: real where "mjd_min = 15020"

definition mjd_max_of :: "(real \<Rightarrow> real) \<Rightarrow> real \<Rightarrow> real" where
  "mjd_max_of rnd mjd_today = rnd (of_int \<lfloor>mjd_today\<rfloor> - 1)"

definition mark_of :: "(real \<Rightarrow> real) \<Rightarrow> real \<Rightarrow> int \<Rightarrow> int \<Rightarrow> real" where
  "mark_of rnd mjd_max r1 r2 =
     (let int_part = rnd (mjd_min + rnd (rnd (of_int r1 / of_int RAND_MAX) * rnd (mjd_max - mjd_min)));
          frac_part = rnd (of_int r2 / of_int RAND_MAX)
      in rnd (of_int \<lfloor>int_part\<rfloor> + frac_part))"

text \<open>The two numbers drawn for the entry \<open>i\<close>.\<close>

definition draws :: "rng \<Rightarrow> u32 \<Rightarrow> nat \<Rightarrow> int \<times> int" where
  "draws rand_r seed i =
     (let seed = ((snd \<circ> rand_r) ^^ (2 * i)) seed;
          (r1, seed) = rand_r seed;
          (r2, seed) = rand_r seed
      in (r1, r2))"

definition gen_marks :: "(real \<Rightarrow> real) \<Rightarrow> (real \<Rightarrow> u64) \<Rightarrow> rng \<Rightarrow> real \<Rightarrow> u32 \<Rightarrow> nat \<Rightarrow> u64" where
  "gen_marks rnd bits rand_r mjd_today seed i =
     (case draws rand_r seed i of (r1, r2) \<Rightarrow> bits (mark_of rnd (mjd_max_of rnd mjd_today) r1 r2))"

text \<open>\<open>main\<close> started on the given date and time.\<close>

definition gen_program :: "(real \<Rightarrow> real) \<Rightarrow> (real \<Rightarrow> u64) \<Rightarrow> rng \<Rightarrow> int \<times> int \<times> int \<Rightarrow> int \<Rightarrow> int \<Rightarrow> int \<Rightarrow> u32 \<Rightarrow>
    bool \<Rightarrow> u64 \<Rightarrow> index_file outcome" where
  "gen_program rnd bits rand_r date hour minute sec seed range_error records =
     gen_main range_error records (gen_marks rnd bits rand_r (mjd_now rnd date hour minute sec) seed)"

section \<open>What is used of the machine\<close>

text \<open>
  Rounding is monotone and leaves the multiples of one half up to \<open>2 ^ 52\<close> alone; \<open>rand_r\<close> returns
  numbers up to \<open>RAND_MAX\<close>; a rounded number is stored as the bits that stand for it.
\<close>

definition rounding :: "(real \<Rightarrow> real) \<Rightarrow> bool" where
  "rounding rnd \<longleftrightarrow> mono rnd \<and> (\<forall>k. \<bar>k\<bar> \<le> 2 ^ 53 \<longrightarrow> rnd (of_int k / 2) = of_int k / 2)"

definition stores :: "(real \<Rightarrow> real) \<Rightarrow> (real \<Rightarrow> u64) \<Rightarrow> bool" where
  "stores rnd bits \<longleftrightarrow> (\<forall>x. 0 \<le> rnd x \<and> rnd x \<le> 2 ^ 50 \<longrightarrow> d_real (bits (rnd x)) = Some (rnd x))"

definition rng_ok :: "rng \<Rightarrow> bool" where
  "rng_ok rand_r \<longleftrightarrow> (\<forall>seed. 0 \<le> fst (rand_r seed) \<and> fst (rand_r seed) \<le> RAND_MAX)"

lemma rounding_mono: "rounding rnd \<Longrightarrow> x \<le> y \<Longrightarrow> rnd x \<le> rnd y"
  by (simp add: rounding_def monoD)

lemma rounding_half: "rounding rnd \<Longrightarrow> \<bar>k\<bar> \<le> 2 ^ 53 \<Longrightarrow> rnd (of_int k / 2) = of_int k / 2"
  by (simp add: rounding_def)

lemma rounding_int: "rounding rnd \<Longrightarrow> \<bar>k\<bar> \<le> 2 ^ 52 \<Longrightarrow> rnd (of_int k) = of_int k"
  using rounding_half[of rnd "2 * k"] by simp

text \<open>A result between two such numbers stays between them.\<close>

lemma rounding_between:
  assumes "rounding rnd" "\<bar>a\<bar> \<le> 2 ^ 53" "\<bar>b\<bar> \<le> 2 ^ 53" "of_int a / 2 \<le> x" "x \<le> of_int b / 2"
  shows "of_int a / 2 \<le> rnd x \<and> rnd x \<le> of_int b / 2"
  using rounding_mono[OF assms(1,4)] rounding_mono[OF assms(1,5)] rounding_half[OF assms(1,2)] rounding_half[OF assms(1,3)] by simp

lemma rounding_between_int:
  assumes "rounding rnd" "\<bar>a\<bar> \<le> 2 ^ 52" "\<bar>b\<bar> \<le> 2 ^ 52" "of_int a \<le> x" "x \<le> of_int b"
  shows "of_int a \<le> rnd x \<and> rnd x \<le> of_int b"
  using rounding_between[OF assms(1), of "2 * a" "2 * b" x] assms(2-) by simp

lemma unit_fraction:
  assumes "rounding rnd" "0 \<le> r" "r \<le> RAND_MAX"
  shows "0 \<le> rnd (of_int r / of_int RAND_MAX) \<and> rnd (of_int r / of_int RAND_MAX) \<le> 1"
  using rounding_between_int[OF assms(1), of 0 1 "of_int r / of_int RAND_MAX"] assms(2,3) by simp

section \<open>Every mark lies between the start of 1900 and the end of the day\<close>

lemma mark_of_bounds:
  assumes "rounding rnd" "15020 \<le> m" "m < 2 ^ 50" "0 \<le> r1" "r1 \<le> RAND_MAX" "0 \<le> r2" "r2 \<le> RAND_MAX"
  shows "15020 \<le> mark_of rnd (of_int m) r1 r2 \<and> mark_of rnd (of_int m) r1 r2 \<le> of_int (m + 1)"
proof -
  define q where "q = rnd (of_int r1 / of_int RAND_MAX)"
  define p where "p = rnd (q * rnd (of_int m - mjd_min))"
  define n where "n = \<lfloor>rnd (mjd_min + p)\<rfloor>"
  have q: "0 \<le> q" "q \<le> 1" using unit_fraction[OF assms(1,4,5)] by (simp_all add: q_def)
  have d: "rnd (of_int m - mjd_min) = of_int (m - 15020)"
    using rounding_int[OF assms(1), of "m - 15020"] assms(2,3) by (simp add: mjd_min_def)
  have "q * of_int (m - 15020) \<le> of_int (m - 15020)" "0 \<le> q * of_int (m - 15020)"
    using q assms(2) by (simp_all add: mult_left_le_one_le)
  then have p: "0 \<le> p \<and> p \<le> of_int (m - 15020)"
    using rounding_between_int[OF assms(1), of 0 "m - 15020" "q * of_int (m - 15020)"] assms(2,3) by (simp add: p_def d)
  then have "of_int 15020 \<le> rnd (mjd_min + p) \<and> rnd (mjd_min + p) \<le> of_int m"
    using assms(2,3) by (intro rounding_between_int[OF assms(1)]) (simp_all add: mjd_min_def)
  then have n: "15020 \<le> n" "n \<le> m" unfolding n_def by linarith+
  have f: "0 \<le> rnd (of_int r2 / of_int RAND_MAX)" "rnd (of_int r2 / of_int RAND_MAX) \<le> 1" using unit_fraction[OF assms(1,6,7)] by simp_all
  have "of_int n \<le> rnd (of_int n + rnd (of_int r2 / of_int RAND_MAX)) \<and> rnd (of_int n + rnd (of_int r2 / of_int RAND_MAX)) \<le> of_int (n + 1)"
    using n assms(3) f by (intro rounding_between_int[OF assms(1)]) simp_all
  moreover have "mark_of rnd (of_int m) r1 r2 = rnd (of_int n + rnd (of_int r2 / of_int RAND_MAX))"
    by (simp add: mark_of_def n_def p_def q_def)
  moreover have "(15020 :: real) \<le> of_int n" "(of_int (n + 1) :: real) \<le> of_int (m + 1)" using n by simp_all
  ultimately show ?thesis by linarith
qed

text \<open>A time of day; the minute before a leap second has 61 seconds.\<close>

definition valid_time :: "int \<Rightarrow> int \<Rightarrow> int \<Rightarrow> bool" where
  "valid_time hour minute sec \<longleftrightarrow> 0 \<le> hour \<and> hour < 24 \<and> 0 \<le> minute \<and> minute < 60 \<and> 0 \<le> sec \<and> sec \<le> 60"

abbreviation day :: "nat \<Rightarrow> int \<times> int \<times> int" where
  "day n \<equiv> (next_day ^^ n) (1858, 11, 17)"

lemma jdn_day: "(case day n of (Y, M, D) \<Rightarrow> jdn Y M D) = 2400001 + int n"
proof -
  have "valid_date (1858, 11, 17)" by (simp add: valid_date_def month_len_def)
  moreover have "jdn 1858 11 17 = 2400001" by (simp add: jdn_def)
  ultimately show ?thesis using days_later[of "(1858, 11, 17)" n] by simp
qed

lemma mjd_now_bounds:
  assumes "rounding rnd" "n < 2 ^ 40" "valid_time hour minute sec"
  shows "of_nat n + 1 / 2 \<le> mjd_now rnd (day n) hour minute sec \<and> mjd_now rnd (day n) hour minute sec \<le> of_nat n + 3 / 2"
proof -
  obtain Y M D where d: "day n = (Y, M, D)" by (cases "day n") auto
  have j: "jdn Y M D = 2400001 + int n" using jdn_day[of n] d by simp
  define f where "f = rnd (of_int (hour * 3600 + minute * 60 + sec) / 86400)"
  define JD where "JD = rnd (of_int (jdn Y M D) + f)"
  have s: "0 \<le> hour * 3600 + minute * 60 + sec" "hour * 3600 + minute * 60 + sec \<le> 86400" using assms(3) by (simp_all add: valid_time_def)
  then have "(0 :: real) \<le> of_int (hour * 3600 + minute * 60 + sec)" "of_int (hour * 3600 + minute * 60 + sec) \<le> (86400 :: real)" by linarith+
  then have f: "0 \<le> f \<and> f \<le> 1"
    using rounding_between_int[OF assms(1), of 0 1 "of_int (hour * 3600 + minute * 60 + sec) / 86400"] by (simp add: f_def)
  have "of_int (2400001 + int n) \<le> JD \<and> JD \<le> of_int (2400002 + int n)"
    unfolding JD_def j using f assms(2) by (intro rounding_between_int[OF assms(1)]) simp_all
  then have "of_int (1 + 2 * int n) / 2 \<le> rnd (JD - 24000005 / 10) \<and> rnd (JD - 24000005 / 10) \<le> of_int (3 + 2 * int n) / 2"
    using assms(2) by (intro rounding_between[OF assms(1)]) simp_all
  then show ?thesis by (simp add: mjd_now_def d JD_def f_def field_simps)
qed

lemma mjd_max_bounds:
  assumes "rounding rnd" "15021 \<le> n" "n < 2 ^ 40" "valid_time hour minute sec"
  shows "\<exists>m. mjd_max_of rnd (mjd_now rnd (day n) hour minute sec) = of_int m \<and> 15020 \<le> m \<and> m \<le> int n"
proof -
  define k where "k = \<lfloor>mjd_now rnd (day n) hour minute sec\<rfloor>"
  have k: "int n \<le> k" "k \<le> int n + 1" using mjd_now_bounds[OF assms(1,3,4)] unfolding k_def by linarith+
  then have "rnd (of_int (k - 1)) = of_int (k - 1)" using assms(2,3) by (intro rounding_int[OF assms(1)]) simp
  then have "mjd_max_of rnd (mjd_now rnd (day n) hour minute sec) = of_int (k - 1)" by (simp add: mjd_max_of_def k_def)
  then show ?thesis using k assms(2) by (intro exI[of _ "k - 1"]) simp
qed

lemma draws_range: "rng_ok rand_r \<Longrightarrow> draws rand_r seed i = (r1, r2) \<Longrightarrow> 0 \<le> r1 \<and> r1 \<le> RAND_MAX \<and> 0 \<le> r2 \<and> r2 \<le> RAND_MAX"
  by (auto simp: draws_def rng_ok_def Let_def split: prod.splits) (metis fst_conv)+

lemma gen_marks_range:
  assumes "rounding rnd" "stores rnd bits" "rng_ok rand_r" "15021 \<le> n" "n < 2 ^ 40" "valid_time hour minute sec"
  shows "\<exists>t. d_real (gen_marks rnd bits rand_r (mjd_now rnd (day n) hour minute sec) seed i) = Some t \<and> 15020 \<le> t \<and> t \<le> of_nat (n + 1)"
proof -
  obtain m where m: "mjd_max_of rnd (mjd_now rnd (day n) hour minute sec) = of_int m" "15020 \<le> m" "m \<le> int n"
    using mjd_max_bounds[OF assms(1,4-6)] by blast
  obtain r1 r2 where r: "draws rand_r seed i = (r1, r2)" by (cases "draws rand_r seed i")
  let ?t = "mark_of rnd (of_int m) r1 r2"
  have m50: "m < 2 ^ 50" using m(3) assms(5) by simp
  have t: "15020 \<le> ?t" "?t \<le> of_int (m + 1)" using mark_of_bounds[OF assms(1) m(2) m50, of r1 r2] draws_range[OF assms(3) r] by simp_all
  have "(of_int (m + 1) :: real) \<le> 2 ^ 50" using m50 by simp
  then have "0 \<le> ?t" "?t \<le> 2 ^ 50" using t by linarith+
  then have "d_real (bits ?t) = Some ?t" using assms(2) by (simp add: stores_def mark_of_def Let_def)
  moreover have "(of_int (m + 1) :: real) \<le> of_nat (n + 1)" using m(3) by simp
  ultimately show ?thesis using t by (simp add: gen_marks_def r m(1))
qed

text \<open>
  The upper end is reached: the quotient of the random number can be 1, and the date is half
  a day late. In the evening \<open>gen\<close> can write a mark that lies in the future.
\<close>

lemma mark_in_the_future:
  "mark_of id (mjd_max_of id (mjd_now id (day n) 18 0 0)) RAND_MAX RAND_MAX = of_nat (n + 1)"
proof -
  obtain Y M D where d: "day n = (Y, M, D)" by (cases "day n") auto
  have j: "jdn Y M D = 2400001 + int n" using jdn_day[of n] d by simp
  have "mjd_now id (day n) 18 0 0 = of_int (int n + 1) + 1 / 4" by (simp add: mjd_now_def d j)
  then have "\<lfloor>mjd_now id (day n) 18 0 0\<rfloor> = int n + 1" by linarith
  then have "mjd_max_of id (mjd_now id (day n) 18 0 0) = of_nat n" by (simp add: mjd_max_of_def)
  then show ?thesis by (simp add: mark_of_def mjd_min_def)
qed

section \<open>A coarse machine\<close>

text \<open>A coarse machine: numbers are cut to multiples of one half and stored in the IEEE format.\<close>

definition half_rnd :: "real \<Rightarrow> real" where
  "half_rnd x = of_int \<lfloor>2 * x\<rfloor> / 2"

definition half_store :: "real \<Rightarrow> u64" where
  "half_store x = half_bits (nat \<lfloor>2 * x\<rfloor>)"

definition sample_rng :: rng where
  "sample_rng seed = (int (unat seed div 2), seed * 1103515245 + 12345)"

lemma half_machine: "rounding half_rnd" "stores half_rnd half_store"
proof -
  have "half_rnd x \<le> half_rnd y" if "x \<le> y" for x y
    using floor_mono[of "2 * x" "2 * y"] that by (simp add: half_rnd_def)
  moreover have "half_rnd (of_int k / 2) = of_int k / 2" for k by (simp add: half_rnd_def)
  ultimately show "rounding half_rnd" by (simp add: rounding_def mono_def)
  have "d_real (half_store (half_rnd x)) = Some (half_rnd x)" if "0 \<le> half_rnd x" "half_rnd x \<le> 2 ^ 50" for x
  proof -
    define k where "k = \<lfloor>2 * x\<rfloor>"
    have x: "half_rnd x = of_int k / 2" by (simp add: half_rnd_def k_def)
    then have k: "0 \<le> k" "k \<le> 2 ^ 51" using that by simp_all
    then have "d_real (half_bits (nat k)) = Some (of_nat (nat k) / 2)" by (intro d_real_half_bits) simp
    moreover have "\<lfloor>2 * half_rnd x\<rfloor> = k" by (simp add: x)
    ultimately show ?thesis using k(1) unfolding half_store_def by (simp only:) (simp add: x)
  qed
  then show "stores half_rnd half_store" by (simp add: stores_def)
qed

lemma sample_rng_ok: "rng_ok sample_rng"
proof -
  have "unat seed div 2 \<le> 2147483647" for seed :: u32
    using unsigned_less[of seed, where ?'a = nat] by simp
  then show ?thesis by (simp add: rng_ok_def sample_rng_def)
qed

end
