(* ===== verification/Sort_Threads.thy ===== *)
theory Sort_Threads
  imports Index_Sort
begin

text \<open>
  The worker threads of lab06/src/sort_index.c.

  \<^item> The local sort phase: threads claim blocks in \<open>block_map\<close> under the mutex and sort them. Any
    interleaving sorts every block exactly once.
  \<^item> A merge round in small steps, one array access at a time. A merge that is not interrupted
    is \<open>do_merge\<close>; but the first merge of a thread is not entered in \<open>merge_map\<close>, so another thread
    can merge the same pair at the same time, and a schedule is exhibited that loses a record.
\<close>

section \<open>Claims\<close>

text \<open>The \<open>for\<close> loop under the mutex: the first free entry is taken; the length if there is none.\<close>

fun claim :: "bool list \<Rightarrow> nat \<times> bool list" where
  "claim [] = (0, [])"
| "claim (True # m) = (case claim m of (k, m') \<Rightarrow> (Suc k, True # m'))"
| "claim (False # m) = (0, True # m)"

lemma claim_taken: "claim m = (k, m') \<Longrightarrow> k < length m \<Longrightarrow> \<not> m ! k \<and> m' = m[k := True]"
  by (induction m arbitrary: k m' rule: claim.induct) (auto split: prod.splits)

lemma claim_none: "claim m = (k, m') \<Longrightarrow> \<not> k < length m \<Longrightarrow> m' = m \<and> (\<forall>b \<in> set m. b)"
  by (induction m arbitrary: k m' rule: claim.induct) (auto split: prod.splits)

section \<open>The local sort phase\<close>

datatype bthr = SortB nat | ClaimB | DoneB

record bsys =
  b_arr :: "index_s list"
  b_map :: "bool list"
  b_thr :: "bthr list"

inductive bstep :: "nat \<Rightarrow> bsys \<Rightarrow> bsys \<Rightarrow> bool" for per where
  b_sort: "at_pc (b_thr s) i (SortB k) \<Longrightarrow> sort_block per k (b_arr s) = Done a \<Longrightarrow>
    bstep per s (s\<lparr>b_arr := a, b_thr := (b_thr s)[i := ClaimB]\<rparr>)"
| b_claim: "at_pc (b_thr s) i ClaimB \<Longrightarrow> claim (b_map s) = (k, m) \<Longrightarrow> k < length (b_map s) \<Longrightarrow>
    bstep per s (s\<lparr>b_map := m, b_thr := (b_thr s)[i := SortB k]\<rparr>)"
| b_none: "at_pc (b_thr s) i ClaimB \<Longrightarrow> claim (b_map s) = (k, m) \<Longrightarrow> \<not> k < length (b_map s) \<Longrightarrow>
    bstep per s (s\<lparr>b_thr := (b_thr s)[i := DoneB]\<rparr>)"

text \<open>Thread \<open>id\<close> starts with block \<open>id\<close>, already marked.\<close>

definition bstart :: "nat \<Rightarrow> nat \<Rightarrow> index_s list \<Rightarrow> bsys" where
  "bstart threads blocks a = \<lparr>b_arr = a, b_map = replicate threads True @ replicate (blocks - threads) False,
     b_thr = map SortB [0..<threads]\<rparr>"

definition sorting :: "nat \<Rightarrow> bthr \<Rightarrow> nat" where
  "sorting k p = of_bool (p = SortB k)"

text \<open>
  A block is free and untouched, or claimed and being sorted by exactly one thread and
  untouched, or claimed and sorted.
\<close>

definition binv :: "nat \<Rightarrow> index_s list list \<Rightarrow> index_s list \<Rightarrow> bsys \<Rightarrow> bool" where
  "binv per bs t s \<longleftrightarrow> length (b_map s) = length bs \<and>
     (\<exists>cs. b_arr s = concat cs @ t \<and> length cs = length bs \<and> (\<forall>c \<in> set cs. length c = per) \<and>
       (\<forall>k < length bs. cs ! k = (if b_map s ! k \<and> weight (sorting k) (b_thr s) = 0 then qsort_cmp cmp_index_s (bs ! k) else bs ! k))) \<and>
     (\<forall>k < length bs. weight (sorting k) (b_thr s) \<le> of_bool (b_map s ! k)) \<and>
     (\<forall>i k. at_pc (b_thr s) i (SortB k) \<longrightarrow> k < length bs) \<and>
     (\<forall>i. at_pc (b_thr s) i DoneB \<longrightarrow> (\<forall>b \<in> set (b_map s). b))"

lemma sorting_move:
  assumes "at_pc ps i p"
  shows "weight (sorting k) (ps[i := p']) + of_bool (p = SortB k) = weight (sorting k) ps + of_bool (p' = SortB k)"
  using at_pc_weight[OF assms, of "sorting k" p'] by (simp add: sorting_def)

lemma bstart_inv:
  assumes "length bs = blocks" "threads \<le> blocks" "\<forall>b \<in> set bs. length b = per"
  shows "binv per bs t (bstart threads blocks (concat bs @ t))"
proof -
  have w: "weight (sorting k) (map SortB [0..<n]) = of_bool (k < n)" for k n
    by (induction n) (auto simp: sorting_def)
  have m: "(replicate threads True @ replicate (blocks - threads) False) ! k = (k < threads)" if "k < blocks" for k
    using that by (simp add: nth_append)
  let ?s = "bstart threads blocks (concat bs @ t)"
  have map: "b_map ?s ! k = (k < threads)" if "k < length bs" for k using m that assms(1) by (simp add: bstart_def)
  have thr: "weight (sorting k) (b_thr ?s) = of_bool (k < threads)" for k using w by (simp add: bstart_def)
  have at0: "\<exists>k < threads. p = SortB k" if "at_pc (b_thr ?s) i p" for i p using that by (auto simp: bstart_def at_pc_def)
  have f1: "b_arr ?s = concat bs @ t" and f2: "length (b_map ?s) = length bs" using assms(1,2) by (simp_all add: bstart_def)
  have f3: "\<forall>k < length bs. bs ! k = (if b_map ?s ! k \<and> weight (sorting k) (b_thr ?s) = 0 then qsort_cmp cmp_index_s (bs ! k) else bs ! k)"
    using map thr by simp
  have f4: "\<forall>k < length bs. weight (sorting k) (b_thr ?s) \<le> of_bool (b_map ?s ! k)" using map thr by simp
  have f5: "\<forall>i k. at_pc (b_thr ?s) i (SortB k) \<longrightarrow> k < length bs"
  proof (intro allI impI)
    fix i k
    assume "at_pc (b_thr ?s) i (SortB k)"
    then have "k < threads" using at0 by blast
    then show "k < length bs" using assms(1,2) by simp
  qed
  have f6: "\<forall>i. at_pc (b_thr ?s) i DoneB \<longrightarrow> (\<forall>b \<in> set (b_map ?s). b)" using at0 by blast
  show ?thesis
    unfolding binv_def
    by (intro conjI exI[of _ bs]) (fact f1 f2 f3 f4 f5 f6 assms(3) refl)+
qed

lemma binvI:
  assumes "length (b_map s) = length bs" "b_arr s = concat cs @ t" "length cs = length bs" "\<forall>c \<in> set cs. length c = per"
    and "\<And>k. k < length bs \<Longrightarrow> cs ! k = (if b_map s ! k \<and> weight (sorting k) (b_thr s) = 0 then qsort_cmp cmp_index_s (bs ! k) else bs ! k)"
    and "\<And>k. k < length bs \<Longrightarrow> weight (sorting k) (b_thr s) \<le> of_bool (b_map s ! k)"
    and "\<And>i k. at_pc (b_thr s) i (SortB k) \<Longrightarrow> k < length bs"
    and "\<And>i. at_pc (b_thr s) i DoneB \<Longrightarrow> \<forall>b \<in> set (b_map s). b"
  shows "binv per bs t s"
  unfolding binv_def using assms by blast

lemma binvD:
  assumes "binv per bs t s"
  shows "length (b_map s) = length bs"
    and "k < length bs \<Longrightarrow> weight (sorting k) (b_thr s) \<le> of_bool (b_map s ! k)"
    and "at_pc (b_thr s) i (SortB k) \<Longrightarrow> k < length bs"
    and "at_pc (b_thr s) i DoneB \<Longrightarrow> \<forall>b \<in> set (b_map s). b"
  using assms unfolding binv_def by blast+

lemma bstep_inv:
  assumes "bstep per s s'" "binv per bs t s"
  shows "binv per bs t s'"
proof -
  obtain cs where cs: "b_arr s = concat cs @ t" "length cs = length bs" "\<forall>c \<in> set cs. length c = per"
    "\<forall>k < length bs. cs ! k = (if b_map s ! k \<and> weight (sorting k) (b_thr s) = 0 then qsort_cmp cmp_index_s (bs ! k) else bs ! k)"
    using assms(2) unfolding binv_def by blast
  note D = binvD[OF assms(2)]
  from assms(1) show ?thesis
  proof (cases rule: bstep.cases)
    case (b_sort i k a)
    have k: "k < length bs" using D(3)[OF b_sort(2)] .
    have "1 \<le> weight (sorting k) (b_thr s)" using at_pc_weight_ge[OF b_sort(2), of "sorting k"] by (simp add: sorting_def)
    then have w: "weight (sorting k) (b_thr s) = 1" "b_map s ! k" using D(2)[OF k] by (cases "b_map s ! k"; simp)+
    let ?cs = "cs[k := qsort_cmp cmp_index_s (cs ! k)]"
    have w': "weight (sorting j) (b_thr s') = (if j = k then 0 else weight (sorting j) (b_thr s))" for j
      using sorting_move[OF b_sort(2), of j ClaimB] b_sort(1) w(1) by (cases "j = k") simp_all
    show ?thesis
    proof (rule binvI[where cs = ?cs])
      show "b_arr s' = concat ?cs @ t" using sort_block_segment[of k cs per t] b_sort(1,3) cs(1-3) k by simp
      show "\<forall>c \<in> set ?cs. length c = per"
        using cs(2,3) k by (metis in_set_conv_nth length_list_update length_qsort_cmp nth_list_update nth_mem)
      show "?cs ! j = (if b_map s' ! j \<and> weight (sorting j) (b_thr s') = 0 then qsort_cmp cmp_index_s (bs ! j) else bs ! j)"
        if "j < length bs" for j
        using cs(2,4) w w' that b_sort(1) k by (cases "j = k") simp_all
      show "\<forall>b \<in> set (b_map s'). b" if "at_pc (b_thr s') j DoneB" for j
        using D(4)[of j] that b_sort(1,2) by (simp add: at_pc_update split: if_splits)
    qed (use D(1-3) w' cs(2) b_sort(1,2) in \<open>auto simp: at_pc_update split: if_splits\<close>)
  next
    case (b_claim i k m)
    have m: "\<not> b_map s ! k" "m = (b_map s)[k := True]" using claim_taken[OF b_claim(3,4)] by simp_all
    have k: "k < length bs" using D(1) b_claim(4) by simp
    have w: "weight (sorting k) (b_thr s) = 0" using D(2)[OF k] m(1) by simp
    have w': "weight (sorting j) (b_thr s') = (if j = k then 1 else weight (sorting j) (b_thr s))" for j
      using sorting_move[OF b_claim(2), of j "SortB k"] b_claim(1) w by (cases "j = k") simp_all
    have "\<not> at_pc (b_thr s) j DoneB" for j using D(4) m(1) b_claim(4) nth_mem by blast
    then show ?thesis
      using D w' cs b_claim(1,2) m k
      by (intro binvI[where cs = cs]) (auto simp: at_pc_update nth_list_update split: if_splits)
  next
    case (b_none i k m)
    have "\<forall>b \<in> set (b_map s). b" using claim_none[OF b_none(3,4)] by blast
    moreover have "weight (sorting j) (b_thr s') = weight (sorting j) (b_thr s)" for j
      using sorting_move[OF b_none(2), of j DoneB] b_none(1) by simp
    ultimately show ?thesis
      using D cs b_none(1,2) by (intro binvI[where cs = cs]) (auto simp: at_pc_update split: if_splits)
  qed
qed

lemma breach_inv:
  assumes "(bstep per)\<^sup>*\<^sup>* s0 s" "binv per bs t s0"
  shows "binv per bs t s"
  using assms by (induction rule: rtranclp_induct) (auto intro: bstep_inv)



section \<open>A merge round in small steps\<close>

text \<open>
  A thread in \<open>do_merge\<close> on pair \<open>j\<close>: reading (indices \<open>l\<close>, \<open>r\<close>, temporary array), copying back (next
  index), claiming the next pair, finished. One step is one iteration of a loop.
\<close>

datatype mthr = MRead nat nat nat "index_s list" | MCopy nat nat "index_s list" | MClaim | MDone

record msys =
  m_arr :: "index_s list"
  m_map :: "bool list"
  m_thr :: "mthr list"

fun mstep_thr :: "nat \<Rightarrow> mthr \<Rightarrow> index_s list \<Rightarrow> bool list \<Rightarrow> mthr \<times> index_s list \<times> bool list" where
  "mstep_thr span (MRead j l r tmp) a m =
     (let left = j * 2 * span; right = left + span
      in (if l < span \<and> r < span
          then if cmp_index_s (a ! (left + l)) (a ! (right + r)) \<le> 0
               then MRead j (Suc l) r (tmp @ [a ! (left + l)])
               else MRead j l (Suc r) (tmp @ [a ! (right + r)])
          else if l < span then MRead j (Suc l) r (tmp @ [a ! (left + l)])
          else if r < span then MRead j l (Suc r) (tmp @ [a ! (right + r)])
          else MCopy j 0 tmp, a, m))"
| "mstep_thr span (MCopy j i tmp) a m =
     (if i < length tmp then (MCopy j (Suc i) tmp, a[j * 2 * span + i := tmp ! i], m) else (MClaim, a, m))"
| "mstep_thr span MClaim a m =
     (case claim m of (k, m') \<Rightarrow> if k < length m then (MRead k 0 0 [], a, m') else (MDone, a, m))"
| "mstep_thr span MDone a m = (MDone, a, m)"

definition mstep :: "nat \<Rightarrow> nat \<Rightarrow> msys \<Rightarrow> msys" where
  "mstep span t s = (if t < length (m_thr s)
     then case mstep_thr span (m_thr s ! t) (m_arr s) (m_map s) of
       (p, a, m) \<Rightarrow> s\<lparr>m_thr := (m_thr s)[t := p], m_arr := a, m_map := m\<rparr>
     else s)"

text \<open>The start of a round: a thread whose number is below the number of pairs merges that pair, unmarked.\<close>

definition mstart :: "nat \<Rightarrow> nat \<Rightarrow> index_s list \<Rightarrow> msys" where
  "mstart num_pairs threads a = \<lparr>m_arr = a, m_map = replicate num_pairs False,
     m_thr = map (\<lambda>id. if id < num_pairs then MRead id 0 0 [] else MClaim) [0..<threads]\<rparr>"

fun run_schedule :: "nat \<Rightarrow> nat list \<Rightarrow> msys \<Rightarrow> msys" where
  "run_schedule span [] s = s"
| "run_schedule span (t # ts) s = run_schedule span ts (mstep span t s)"

lemma list_update_numeral: "(x # xs)[numeral k := y] = x # xs[pred_numeral k := y]"
  by (simp add: numeral_eq_Suc)

definition stamp :: "nat \<Rightarrow> index_s" where
  "stamp n = \<lparr>time_mark = of_nat n, recno = of_nat n\<rparr>"

lemma cmp_stamp:
  assumes "a < 256" "b < 256"
  shows "cmp_index_s (stamp a) (stamp b) \<le> 0 \<longleftrightarrow> a \<le> b"
proof -
  have u: "unat (of_nat n :: u64) = n" if "n < 256" for n using that by (simp add: unat_of_nat)
  have v: "d_val (of_nat n) = int n" "\<not> d_nan (of_nat n)" if "n < 256" for n
    using u[OF that] that by (simp_all add: d_val_def d_nan_def)
  have "(of_nat a :: u64) \<le> of_nat b \<longleftrightarrow> a \<le> b" using u assms by (simp add: word_le_nat_alt)
  then show ?thesis using v assms by (subst cmp_index_s_le) (auto simp: stamp_def)
qed

lemma run_schedule_append: "run_schedule span (ts @ us) s = run_schedule span us (run_schedule span ts s)"
  by (induction ts arbitrary: s) simp_all

text \<open>The pieces of the schedule: thread 1 merges its own pair and claims pair 0 while thread 0 has not
  started; thread 0 merges and copies back one record; both finish.\<close>

abbreviation rst :: "nat list \<Rightarrow> bool list \<Rightarrow> mthr \<Rightarrow> mthr \<Rightarrow> msys" where
  "rst a m p q \<equiv> \<lparr>m_arr = map stamp a, m_map = m, m_thr = [p, q]\<rparr>"

lemma race_start: "mstart 4 2 (map stamp [2, 1, 3, 4, 5, 6, 7, 8]) =
    rst [2, 1, 3, 4, 5, 6, 7, 8] [False, False, False, False] (MRead 0 0 0 []) (MRead 1 0 0 [])"
  by (simp add: mstart_def numeral_eq_Suc)

lemma race_claim: "run_schedule 1 [1, 1, 1, 1, 1, 1, 1]
    (rst [2, 1, 3, 4, 5, 6, 7, 8] [False, False, False, False] (MRead 0 0 0 []) (MRead 1 0 0 [])) =
    rst [2, 1, 3, 4, 5, 6, 7, 8] [True, False, False, False] (MRead 0 0 0 []) (MRead 0 0 0 [])"
  by (simp add: mstep_def cmp_stamp list_update_numeral)

lemma race_half: "run_schedule 1 [0, 0, 0, 0]
    (rst [2, 1, 3, 4, 5, 6, 7, 8] [True, False, False, False] (MRead 0 0 0 []) (MRead 0 0 0 [])) =
    rst [1, 1, 3, 4, 5, 6, 7, 8] [True, False, False, False] (MCopy 0 1 (map stamp [1, 2])) (MRead 0 0 0 [])"
  by (simp add: mstep_def cmp_stamp list_update_numeral)

lemma race_end: "run_schedule 1 [1, 1, 1, 0, 0, 1, 1, 1]
    (rst [1, 1, 3, 4, 5, 6, 7, 8] [True, False, False, False] (MCopy 0 1 (map stamp [1, 2])) (MRead 0 0 0 [])) =
    rst [1, 1, 3, 4, 5, 6, 7, 8] [True, False, False, False] MClaim MClaim"
  by (simp add: mstep_def cmp_stamp list_update_numeral)

text \<open>
  The merge rounds have a data race: with eight blocks of one record and two threads, a
  schedule of the first round brings both threads back to the claim loop with one record lost
  and another duplicated, because the pair thread 0 merges first is not marked and thread 1
  merges it at the same time.
\<close>

theorem merge_round_loses_record:
  "\<exists>ts s. run_schedule 1 ts (mstart 4 2 (map stamp [2, 1, 3, 4, 5, 6, 7, 8])) = s \<and>
     m_thr s = [MClaim, MClaim] \<and> m_arr s = map stamp [1, 1, 3, 4, 5, 6, 7, 8]"
proof -
  have "run_schedule 1 ([1, 1, 1, 1, 1, 1, 1] @ [0, 0, 0, 0] @ [1, 1, 1, 0, 0, 1, 1, 1])
      (mstart 4 2 (map stamp [2, 1, 3, 4, 5, 6, 7, 8])) = rst [1, 1, 3, 4, 5, 6, 7, 8] [True, False, False, False] MClaim MClaim"
    by (simp only: race_start run_schedule_append race_claim race_half race_end)
  then show ?thesis by (intro exI conjI) (assumption, simp_all)
qed

section \<open>An uninterrupted merge\<close>

lemma run_replicate: "run_schedule span (replicate (m + n) t) s = run_schedule span (replicate n t) (run_schedule span (replicate m t) s)"
  by (simp add: replicate_add run_schedule_append)

lemma mstep_at:
  assumes "t < length (m_thr s)" "mstep_thr span (m_thr s ! t) (m_arr s) (m_map s) = (p, a, m)"
  shows "mstep span t s = s\<lparr>m_thr := (m_thr s)[t := p], m_arr := a, m_map := m\<rparr>"
  using assms by (simp add: mstep_def)

text \<open>Reading: the temporary array becomes what \<open>merge_loop\<close> computes.\<close>

lemma read_run:
  assumes "t < length (m_thr s)" "m_thr s ! t = MRead j l r tmp" "l \<le> span" "r \<le> span"
    and "j * 2 * span + span * 2 \<le> length (m_arr s)"
  shows "run_schedule span (replicate ((span - l) + (span - r)) t) s =
    s\<lparr>m_thr := (m_thr s)[t := MRead j span span (merge_loop (take span (drop (j * 2 * span) (m_arr s)))
        (take span (drop (j * 2 * span + span) (m_arr s))) l r tmp)]\<rparr>"
  using assms
proof (induction "(span - l) + (span - r)" arbitrary: l r tmp s)
  case 0
  let ?L = "take span (drop (j * 2 * span) (m_arr s))" and ?R = "take span (drop (j * 2 * span + span) (m_arr s))"
  have "l = span" "r = span" using 0 by simp_all
  moreover have "merge_loop ?L ?R span span tmp = tmp" by (simp add: merge_loop_ref)
  moreover have "(m_thr s)[t := m_thr s ! t] = m_thr s" by simp
  ultimately show ?case using 0(2,3) by simp
next
  case (Suc n)
  let ?L = "take span (drop (j * 2 * span) (m_arr s))" and ?R = "take span (drop (j * 2 * span + span) (m_arr s))"
  have nth: "l < span \<Longrightarrow> m_arr s ! (j * 2 * span + l) = ?L ! l" "r < span \<Longrightarrow> m_arr s ! (j * 2 * span + span + r) = ?R ! r"
    using Suc(7) by simp_all
  have len: "length ?L = span" "length ?R = span" using Suc(7) by simp_all
  have loop: "merge_loop ?L ?R l r tmp = tmp @ merge_ref cmp_index_s (drop l ?L) (drop r ?R)" by (rule merge_loop_ref)
  have dropL: "l < span \<Longrightarrow> drop l ?L = ?L ! l # drop (Suc l) ?L" and dropR: "r < span \<Longrightarrow> drop r ?R = ?R ! r # drop (Suc r) ?R"
    using len by (metis Cons_nth_drop_Suc)+
  have "\<exists>l' r' tmp'. mstep span t s = s\<lparr>m_thr := (m_thr s)[t := MRead j l' r' tmp']\<rparr> \<and>
      merge_loop ?L ?R l' r' tmp' = merge_loop ?L ?R l r tmp \<and> l' \<le> span \<and> r' \<le> span \<and> (span - l') + (span - r') = n"
  proof (cases "l < span \<and> (r < span \<longrightarrow> cmp_index_s (?L ! l) (?R ! r) \<le> 0)")
    case True
    have "mstep_thr span (m_thr s ! t) (m_arr s) (m_map s) = (MRead j (Suc l) r (tmp @ [?L ! l]), m_arr s, m_map s)"
      using True Suc(4) nth by (auto simp: Let_def)
    moreover have "merge_loop ?L ?R (Suc l) r (tmp @ [?L ! l]) = merge_loop ?L ?R l r tmp"
      unfolding merge_loop_ref dropL[OF conjunct1[OF True]] using True dropR len by (cases "r < span") auto
    ultimately show ?thesis using mstep_at[OF Suc(3)] True Suc(2,5,6) by (intro exI[of _ "Suc l"] exI[of _ r] exI[of _ "tmp @ [?L ! l]"]) auto
  next
    case False
    then have r: "r < span" using Suc(2,5,6) by auto
    have "mstep_thr span (m_thr s ! t) (m_arr s) (m_map s) = (MRead j l (Suc r) (tmp @ [?R ! r]), m_arr s, m_map s)"
      using False r Suc(4) nth by (auto simp: Let_def)
    moreover have "merge_loop ?L ?R l (Suc r) (tmp @ [?R ! r]) = merge_loop ?L ?R l r tmp"
      unfolding merge_loop_ref dropR[OF r] using False r dropL len by (cases "l < span") auto
    ultimately show ?thesis using mstep_at[OF Suc(3)] r Suc(2,5,6) by (intro exI[of _ l] exI[of _ "Suc r"] exI[of _ "tmp @ [?R ! r]"]) auto
  qed
  then obtain l' r' tmp' where nxt: "mstep span t s = s\<lparr>m_thr := (m_thr s)[t := MRead j l' r' tmp']\<rparr>"
    "merge_loop ?L ?R l' r' tmp' = merge_loop ?L ?R l r tmp" "l' \<le> span" "r' \<le> span" "n = (span - l') + (span - r')"
    by blast
  show ?case
    using Suc(1)[OF nxt(5), of "mstep span t s" tmp'] nxt Suc(2,3,7) by (simp flip: Suc(2))
qed

text \<open>Copying back.\<close>

lemma copy_run:
  assumes "t < length (m_thr s)" "m_thr s ! t = MCopy j i tmp" "i \<le> length tmp" "j * 2 * span + length tmp \<le> length (m_arr s)"
  shows "run_schedule span (replicate (Suc (length tmp - i)) t) s =
    s\<lparr>m_thr := (m_thr s)[t := MClaim], m_arr := take (j * 2 * span + i) (m_arr s) @ drop i tmp @ drop (j * 2 * span + length tmp) (m_arr s)\<rparr>"
  using assms
proof (induction "length tmp - i" arbitrary: i s)
  case 0
  then show ?case by (simp add: mstep_at)
next
  case (Suc n)
  let ?p = "j * 2 * span + i" and ?a = "m_arr s"
  have i: "i < length tmp" using Suc(2) by simp
  have step: "mstep span t s = s\<lparr>m_thr := (m_thr s)[t := MCopy j (Suc i) tmp], m_arr := ?a[?p := tmp ! i]\<rparr>"
    using i Suc(3,4) by (simp add: mstep_at)
  have "take (Suc ?p) (?a[?p := tmp ! i]) = take ?p ?a @ [tmp ! i]"
    using Suc(6) i by (simp add: take_Suc_conv_app_nth)
  moreover have "drop i tmp = tmp ! i # drop (Suc i) tmp" using i by (simp add: Cons_nth_drop_Suc)
  moreover have "drop (j * 2 * span + length tmp) (?a[?p := tmp ! i]) = drop (j * 2 * span + length tmp) ?a" using i by simp
  moreover have n: "n = length tmp - Suc i" using Suc(2) by simp
  moreover have "run_schedule span (replicate (Suc (length tmp - i)) t) s =
      run_schedule span (replicate (Suc (length tmp - Suc i)) t) (mstep span t s)"
    unfolding Suc_diff_Suc[OF i, symmetric] by simp
  moreover have "run_schedule span (replicate (Suc (length tmp - Suc i)) t) (mstep span t s) = (mstep span t s)
      \<lparr>m_thr := (m_thr (mstep span t s))[t := MClaim],
       m_arr := take (j * 2 * span + Suc i) (m_arr (mstep span t s)) @ drop (Suc i) tmp @ drop (j * 2 * span + length tmp) (m_arr (mstep span t s))\<rparr>"
    using Suc(3-6) i step by (intro Suc(1)[OF n]) simp_all
  ultimately show ?case using step by simp
qed

text \<open>
  A merge that no other thread interrupts does what \<open>do_merge\<close> does: it ends, after two
  steps for each record and two more, with the pair merged and the thread in its claim loop.
\<close>

theorem merge_uninterrupted:
  assumes "t < length (m_thr s)" "m_thr s ! t = MRead j 0 0 []" "j * 2 * span + span * 2 \<le> length (m_arr s)"
  shows "\<exists>a. do_merge j span (m_arr s) = Done a \<and>
    run_schedule span (replicate (4 * span + 2) t) s = s\<lparr>m_thr := (m_thr s)[t := MClaim], m_arr := a\<rparr>"
proof -
  let ?L = "take span (drop (j * 2 * span) (m_arr s))" and ?R = "take span (drop (j * 2 * span + span) (m_arr s))"
  let ?tmp = "merge_loop ?L ?R 0 0 []"
  have len: "length ?tmp = 2 * span" using assms(3) by (simp add: merge_loop_ref)
  let ?s1 = "s\<lparr>m_thr := (m_thr s)[t := MRead j span span ?tmp]\<rparr>"
  let ?s2 = "s\<lparr>m_thr := (m_thr s)[t := MCopy j 0 ?tmp]\<rparr>"
  have 1: "run_schedule span (replicate (span + span) t) s = ?s1"
    using read_run[OF assms(1,2) _ _ assms(3)] by simp
  have 2: "run_schedule span (replicate 1 t) ?s1 = ?s2"
    using assms(1) by (simp add: mstep_at)
  have 3: "run_schedule span (replicate (Suc (2 * span)) t) ?s2 =
      s\<lparr>m_thr := (m_thr s)[t := MClaim], m_arr := take (j * 2 * span) (m_arr s) @ ?tmp @ drop (j * 2 * span + 2 * span) (m_arr s)\<rparr>"
    using copy_run[of t ?s2 j 0 ?tmp span] assms(1,3) len by simp
  have "4 * span + 2 = (span + span) + (1 + Suc (2 * span))" by simp
  then have "run_schedule span (replicate (4 * span + 2) t) s =
      run_schedule span (replicate (Suc (2 * span)) t) (run_schedule span (replicate 1 t) (run_schedule span (replicate (span + span) t) s))"
    by (simp only: run_replicate)
  then show ?thesis using 1 2 3 assms(3) by (simp add: do_merge_def Let_def mult.commute[of span 2])
qed

theorem merge_uninterrupted_witness:
  "\<exists>a. do_merge 0 1 (map stamp [2, 1]) = Done a \<and>
     m_arr (run_schedule 1 (replicate 6 0) (mstart 1 1 (map stamp [2, 1]))) = a"
  using merge_uninterrupted[of 0 "mstart 1 1 (map stamp [2, 1])" 0 1] by (auto simp: mstart_def)

end
