(* ===== verification/Index_Pipeline.thy ===== *)
theory Index_Pipeline
  imports Gen_Marks Sort_Threads
begin

text \<open>
  lab06: \<open>main\<close> of sort_index.c as a whole, the run of a single worker thread with its claims, and the three
  programs together: what \<open>gen\<close> writes, \<open>sort_index\<close> sorts and \<open>view\<close> lists.
\<close>

section \<open>A single worker thread\<close>

text \<open>The loops that claim an entry of a map and work on it until none is free.\<close>

function claim_loop :: "(nat \<Rightarrow> 'a \<Rightarrow> 'a outcome) \<Rightarrow> bool list \<Rightarrow> 'a \<Rightarrow> 'a outcome" where
  "claim_loop f m a =
     (case claim m of (k, m') \<Rightarrow> if k < length m then obind (f k a) (claim_loop f m') else Done a)"
  by pat_completeness auto
termination
proof (relation "measure (\<lambda>(f, m, a). count_list m False)")
  fix m k and m' :: "bool list" and f :: "nat \<Rightarrow> 'a \<Rightarrow> 'a outcome" and a b x y
  assume "(k, m') = claim m" "k < length m" 
  then have c: "\<not> m ! k" "m' = m[k := True]" "k < length m" using claim_taken[of m k m'] by auto
  have "count_list (m[k := True]) False < count_list m False"
    using c(1,3)
  proof (induction m arbitrary: k)
    case (Cons b m)
    then show ?case by (cases k) auto
  qed simp
  then show "((f, m', b), f, m, a) \<in> measure (\<lambda>(f, m, a). count_list m False)" using c(2) by simp
qed simp

declare claim_loop.simps [simp del]

lemma claim_next: "claim (replicate j True @ replicate (Suc n) False) = (j, replicate (Suc j) True @ replicate n False)"
  by (induction j) simp_all

lemma claim_full: "claim (replicate j True) = (j, replicate j True)"
  by (induction j) simp_all

lemma claim_loop_each: "claim_loop f (replicate j True @ replicate n False) a = each f [j..<j + n] a"
proof (induction n arbitrary: j a)
  case 0
  then show ?case by (subst claim_loop.simps) (simp add: claim_full)
next
  case (Suc n)
  have "claim_loop f (replicate (Suc j) True @ replicate n False) = each f [Suc j..<Suc j + n]" by (rule ext) (rule Suc)
  then show ?case by (subst claim_loop.simps, subst claim_next) (simp add: upt_rec[of j])
qed

text \<open>\<open>worker_thread\<close> with \<open>id\<close> 0 when it is the only thread: the barriers let it pass.\<close>

fun one_rounds :: "nat \<Rightarrow> nat \<Rightarrow> nat \<Rightarrow> nat \<Rightarrow> index_s list \<Rightarrow> index_s list outcome" where
  "one_rounds blocks per s 0 a = Done a"
| "one_rounds blocks per s (Suc n) a =
     (let span = 2 ^ s * per; num_pairs = blocks div 2 ^ (s + 1)
      in obind (if 0 < num_pairs then do_merge 0 span a else Done a) (\<lambda>a.
         obind (claim_loop (\<lambda>j. do_merge j span) (replicate num_pairs False) a) (\<lambda>a.
         one_rounds blocks per (Suc s) n a)))"

definition worker_one :: "nat \<Rightarrow> nat \<Rightarrow> index_s list \<Rightarrow> index_s list outcome" where
  "worker_one blocks per a =
     obind (sort_block per 0 a) (\<lambda>a.
     obind (claim_loop (sort_block per) (True # replicate (blocks - 1) False) a) (\<lambda>a.
     one_rounds blocks per 0 (levels_of blocks) a))"

text \<open>The order in which it works.\<close>

definition one_pairs :: "nat \<Rightarrow> nat \<Rightarrow> nat list" where
  "one_pairs blocks s = (if 0 < blocks div 2 ^ (s + 1) then [0] else []) @ [0..<blocks div 2 ^ (s + 1)]"

lemma each_append: "each f (xs @ ys) a = obind (each f xs a) (each f ys)"
proof (induction xs arbitrary: a)
  case (Cons x xs)
  then show ?case by (cases "f x a") simp_all
qed simp

lemma one_rounds_serial: "one_rounds blocks per s n a = merge_rounds per (one_pairs blocks) s n a"
proof (induction n arbitrary: s a)
  case (Suc n)
  have c: "claim_loop (\<lambda>j. do_merge j (2 ^ s * per)) (replicate (blocks div 2 ^ (s + 1)) False) = each (\<lambda>j. do_merge j (2 ^ s * per)) [0..<blocks div 2 ^ (s + 1)]"
    using claim_loop_each[of "\<lambda>j. do_merge j (2 ^ s * per)" 0] by (intro ext) simp
  have r: "one_rounds blocks per (Suc s) n = merge_rounds per (one_pairs blocks) (Suc s) n" by (rule ext) (rule Suc)
  show ?case
  proof (cases "0 < blocks div 2 ^ (s + 1)")
    case True
    then show ?thesis
      unfolding one_rounds.simps merge_rounds.simps one_pairs_def Let_def c r each_append
      by (cases "do_merge 0 (2 ^ s * per) a") simp_all
  next
    case False
    then show ?thesis unfolding one_rounds.simps merge_rounds.simps one_pairs_def Let_def c r by simp
  qed
qed simp

lemma worker_one_serial: "0 < blocks \<Longrightarrow> worker_one blocks per = worker_serial blocks per [0..<blocks] (one_pairs blocks)"
proof (rule ext)
  fix a assume b: "0 < blocks"
  have "claim_loop (sort_block per) (True # replicate (blocks - 1) False) = each (sort_block per) [1..<blocks]"
    using claim_loop_each[of "sort_block per" 1 "blocks - 1"] b by (intro ext) simp
  moreover have "one_rounds blocks per 0 (levels_of blocks) = merge_rounds per (one_pairs blocks) 0 (levels_of blocks)"
    by (rule ext) (rule one_rounds_serial)
  moreover have "each (sort_block per) [0..<blocks] a = obind (sort_block per 0 a) (each (sort_block per) [1..<blocks])"
    using b by (simp add: upt_rec)
  ultimately show "worker_one blocks per a = worker_serial blocks per [0..<blocks] (one_pairs blocks) a"
    by (simp add: worker_one_def worker_serial_def obind_assoc)
qed

lemma one_pairs_cover: "s < m \<Longrightarrow> covers (2 ^ (m - Suc s)) (one_pairs (2 ^ m) s)"
proof -
  assume "s < m"
  then have "m = (s + 1) + (m - Suc s)" by simp
  then have "(2 :: nat) ^ m = 2 ^ (s + 1) * 2 ^ (m - Suc s)" by (metis power_add)
  then have "(2 :: nat) ^ m div 2 ^ (s + 1) = 2 ^ (m - Suc s)" by simp
  then show ?thesis by (auto simp: covers_def one_pairs_def)
qed

section \<open>The main program\<close>

text \<open>
  \<open>args\<close> are the three numbers of the command line, \<open>None\<close> when there are not four arguments; \<open>file\<close> is
  the index file, \<open>None\<close> when it cannot be opened or read. The result is the exit status and the
  file afterwards; \<open>worker\<close> is what the threads do to the records of one chunk.
\<close>

definition sort_index_main :: "(nat \<Rightarrow> nat \<Rightarrow> nat \<Rightarrow> index_s list \<Rightarrow> index_s list outcome) \<Rightarrow> nat \<Rightarrow> int \<Rightarrow>
    (int \<times> int \<times> int) option \<Rightarrow> index_file option \<Rightarrow> (int \<times> index_file option) outcome" where
  "sort_index_main worker pagesize cores args file =
     (case args of
        None \<Rightarrow> Done (1, file)
      | Some (ms, bl, th) \<Rightarrow>
          (case check_args pagesize cores ms bl th of
             None \<Rightarrow> Done (1, file)
           | Some (memsize, blocks, threads) \<Rightarrow>
               (case file of
                  None \<Rightarrow> Done (1, None)
                | Some f \<Rightarrow>
                    if \<not> size_ok (f_size f) (f_records f) then Done (1, Some f)
                    else let block_size = memsize div blocks; per = block_size div 16
                         in obind (chunk_loop (worker threads blocks per) pagesize memsize 8 (unat (expected_size (f_records f))) (f_idx f))
                              (\<lambda>es. Done (0, Some (f\<lparr>f_idx := es\<rparr>))))))"

text \<open>Worker threads whose calls do not overlap in time, in any order their claims allow; a single one is an instance.\<close>

definition serial_worker :: "nat \<Rightarrow> (nat \<Rightarrow> index_s list \<Rightarrow> index_s list outcome) \<Rightarrow> bool" where
  "serial_worker blocks w \<longleftrightarrow>
     (\<exists>bo mo. covers blocks bo \<and> (\<forall>s < levels_of blocks. covers (blocks div 2 ^ (s + 1)) (mo s)) \<and> w = (\<lambda>per. worker_serial blocks per bo mo))"

lemma power_div_Suc: "s < m \<Longrightarrow> (2 :: nat) ^ m div 2 ^ (s + 1) = 2 ^ (m - Suc s)"
  by (simp add: power_diff[symmetric] del: power_Suc)

lemma worker_one_serial_worker: "serial_worker (2 ^ m) (worker_one (2 ^ m))"
  unfolding serial_worker_def
proof (intro exI conjI)
  show "covers (2 ^ m) [0..<2 ^ m]" by (auto simp: covers_def)
  show "\<forall>s < levels_of (2 ^ m). covers (2 ^ m div 2 ^ (s + 1)) (one_pairs (2 ^ m) s)"
    using one_pairs_cover power_div_Suc by simp
  show "worker_one (2 ^ m) = (\<lambda>per. worker_serial (2 ^ m) per [0..<2 ^ m] (one_pairs (2 ^ m)))"
    by (rule ext) (rule worker_one_serial, simp)
qed

lemma check_args_parts:
  assumes "check_args pagesize cores ms bl th = Some (memsize, blocks, threads)"
  shows "\<exists>m. blocks = 2 ^ m" "0 < memsize"
proof -
  have "0 < ms" "0 < bl" "nat bl AND (nat bl - 1) = 0" "memsize = nat ms" "blocks = nat bl"
    using assms by (auto simp: check_args_def Let_def split: if_splits)
  then show "\<exists>m. blocks = 2 ^ m" "0 < memsize" using and_pred_power_of_2[of "nat bl"] by simp_all
qed

section \<open>The three programs together\<close>

definition mark_num :: "index_s \<Rightarrow> real" where
  "mark_num e = the (d_real (time_mark e))"

lemma gen_program_done:
  assumes "records \<noteq> 0" "records mod 256 = 0" "unat records < 2 ^ 60 - 1"
  shows "gen_program rnd bits rand_r date hour minute sec seed False records =
    Done \<lparr>f_size = expected_size records, f_records = records,
      f_idx = map (\<lambda>i. \<lparr>time_mark = gen_marks rnd bits rand_r (mjd_now rnd date hour minute sec) seed i, recno = of_nat (i + 1)\<rparr>) [0..<unat records]\<rparr>"
    "unat (expected_size records) = 8 + 16 * unat records"
proof -
  show size: "unat (expected_size records) = 8 + 16 * unat records"
    using assms(3) by (simp add: expected_size_def unat_word_ariths)
  show "gen_program rnd bits rand_r date hour minute sec seed False records =
    Done \<lparr>f_size = expected_size records, f_records = records,
      f_idx = map (\<lambda>i. \<lparr>time_mark = gen_marks rnd bits rand_r (mjd_now rnd date hour minute sec) seed i, recno = of_nat (i + 1)\<rparr>) [0..<unat records]\<rparr>"
    using assms(1,2) size by (simp add: gen_program_def gen_main_def Let_def)
qed

lemma windows_by_time:
  assumes "\<forall>e \<in> set c. \<exists>t. d_real (time_mark e) = Some t" "sorted_cmp cmp_index_s c"
  shows "sorted_wrt (\<lambda>a b. mark_num a \<le> mark_num b) c"
proof (rule sorted_wrt_mono_rel[OF _ assms(2)])
  fix a b assume ab: "a \<in> set c" "b \<in> set c" "cmp_index_s a b \<le> 0"
  then obtain x y where "d_real (time_mark a) = Some x" "d_real (time_mark b) = Some y" using assms(1) by blast
  then show "mark_num a \<le> mark_num b" using cmp_index_s_real ab(3) by (fastforce simp: mark_num_def)
qed

lemma recnos_from_one: "map of_nat [1..<k + 1] = map (\<lambda>i. of_nat (i + 1)) [0..<k]"
  by (induction k) simp_all

lemma concat_mset_windows: "list_all2 (\<lambda>c a. mset c = mset a) cs as \<Longrightarrow> mset (concat cs) = mset (concat as)"
  by (induction rule: list_all2_induct) simp_all

lemma list_all2_left: "list_all2 P cs as \<Longrightarrow> c \<in> set cs \<Longrightarrow> \<exists>a \<in> set as. P c a"
  by (induction rule: list_all2_induct) auto



end
