(* ===== verification/Proc_Table.thy ===== *)
theory Proc_Table
  imports C_Strings
begin

text \<open>
  lab03/src/parent.c: the growing table of child processes, and lab03/src/child.c: the
  statistics of a child.

  The table is an array with a size and a capacity. Its operations refine operations on a list
  of entries (\<open>table_refines\<close>): appending, dropping the last, removing the entry of a process that
  has exited, changing a flag. The handler of \<open>SIGCHLD\<close> runs between two commands. \<open>signals\<close> and
  \<open>waited\<close> record what was sent and which processes were waited for.
\<close>

section \<open>The table\<close>

datatype signal3 = SIGTERM | SIGUSR1 | SIGUSR2

record process_info =
  p_pid :: int
  p_name :: string
  p_running :: bool

record table3 =
  capacity :: nat
  slots3 :: "process_info option list"
  size3 :: nat
  signals :: "(int \<times> signal3) list"
  waited :: "int list"

definition CAPACITY :: nat where
  "CAPACITY = 8"

text \<open>\<open>calloc\<close> zeroes the entries; no operation reads one at or beyond the size.\<close>

definition table_init :: table3 where
  "table_init = \<lparr>capacity = CAPACITY, slots3 = replicate CAPACITY None, size3 = 0, signals = [], waited = []\<rparr>"

definition load3 :: "table3 \<Rightarrow> nat \<Rightarrow> process_info outcome" where
  "load3 t i = obind (c_load (slots3 t) i) (\<lambda>c. case c of None \<Rightarrow> Faults | Some p \<Rightarrow> Done p)"

definition store3 :: "table3 \<Rightarrow> nat \<Rightarrow> process_info \<Rightarrow> table3 outcome" where
  "store3 t i p = obind (c_store (slots3 t) i (Some p)) (\<lambda>s. Done (t\<lparr>slots3 := s\<rparr>))"

text \<open>\<open>pid\<close> is what \<open>fork\<close> returns to the parent; \<open>full\<close> says that \<open>realloc\<close> fails.\<close>

definition CreateChild :: "bool \<Rightarrow> int \<Rightarrow> table3 \<Rightarrow> table3 outcome" where
  "CreateChild full pid t =
     (if pid = -1 then Done t
      else obind
        (if size3 t \<ge> capacity t
         then if full then Exits
              else Done (t\<lparr>capacity := capacity t * 2,
                slots3 := slots3 t @ replicate (capacity t * 2 - length (slots3 t)) None\<rparr>)
         else Done t)
        (\<lambda>t. obind (store3 t (size3 t) \<lparr>p_pid = pid, p_name = ''C_'' @ dec02 (size3 t), p_running = False\<rparr>)
        (\<lambda>t. Done (t\<lparr>size3 := size3 t + 1\<rparr>))))"

definition DeleteLastChild :: "table3 \<Rightarrow> table3 outcome" where
  "DeleteLastChild t =
     (if size3 t = 0 then Done t
      else obind (load3 t (size3 t - 1)) (\<lambda>p.
        Done (t\<lparr>signals := signals t @ [(p_pid p, SIGTERM)], size3 := size3 t - 1\<rparr>)))"

text \<open>The \<open>int\<close> index of the command is converted to \<open>size_t\<close>; \<open>None\<close> is the message "Invalid index".\<close>

definition set_running :: "bool \<Rightarrow> signal3 \<Rightarrow> c_int \<Rightarrow> table3 \<Rightarrow> table3 option outcome" where
  "set_running b sig i t =
     (let index = unat (scast i :: u64)
      in if index \<ge> size3 t then Done None
         else obind (load3 t index) (\<lambda>p.
           obind (store3 (t\<lparr>signals := signals t @ [(p_pid p, sig)]\<rparr>) index (p\<lparr>p_running := b\<rparr>)) (\<lambda>t.
           Done (Some t))))"

definition StartChild :: "c_int \<Rightarrow> table3 \<Rightarrow> table3 option outcome" where
  "StartChild = set_running True SIGUSR2"

definition StopChild :: "c_int \<Rightarrow> table3 \<Rightarrow> table3 option outcome" where
  "StopChild = set_running False SIGUSR1"

text \<open>The parent answers the request of a child (its process number comes with the signal) with \<open>SIGUSR2\<close>.\<close>

definition HandleSignal :: "signal3 \<Rightarrow> int \<Rightarrow> table3 \<Rightarrow> table3" where
  "HandleSignal signo child_pid t =
     (if signo = SIGUSR1 then t\<lparr>signals := signals t @ [(child_pid, SIGUSR2)]\<rparr> else t)"

text \<open>The inner loops of \<open>HandleExitChild\<close>: shift the entries behind \<open>j\<close> down; find the process.\<close>

fun shift_down :: "nat \<Rightarrow> nat \<Rightarrow> table3 \<Rightarrow> table3 outcome" where
  "shift_down j 0 t = Done t"
| "shift_down j (Suc n) t =
     obind (load3 t (j + 1)) (\<lambda>p. obind (store3 t j p) (\<lambda>t. shift_down (Suc j) n t))"

fun reap_from :: "int \<Rightarrow> nat \<Rightarrow> nat \<Rightarrow> table3 \<Rightarrow> table3 outcome" where
  "reap_from pid i 0 t = Done t"
| "reap_from pid i (Suc n) t =
     obind (load3 t i) (\<lambda>p.
     if p_pid p = pid
     then obind (shift_down i n t) (\<lambda>t. Done (t\<lparr>size3 := size3 t - 1\<rparr>))
     else reap_from pid (Suc i) n t)"

text \<open>\<open>HandleExitChild\<close> for the processes \<open>waitpid\<close> returns one after the other.\<close>

fun HandleExitChild :: "int list \<Rightarrow> table3 \<Rightarrow> table3 outcome" where
  "HandleExitChild [] t = Done t"
| "HandleExitChild (pid # pids) t =
     obind (reap_from pid 0 (size3 t) (t\<lparr>waited := waited t @ [pid]\<rparr>)) (HandleExitChild pids)"

fun delete_loop :: "nat \<Rightarrow> table3 \<Rightarrow> table3 outcome" where
  "delete_loop 0 t = Done t"
| "delete_loop (Suc n) t = obind (DeleteLastChild t) (delete_loop n)"

definition DeleteAllChild :: "table3 \<Rightarrow> table3 outcome" where
  "DeleteAllChild t = delete_loop (size3 t) t"

fun wait_loop :: "nat \<Rightarrow> table3 \<Rightarrow> table3 outcome" where
  "wait_loop 0 t = Done t"
| "wait_loop (Suc n) t =
     obind (load3 t (size3 t - 1)) (\<lambda>p.
     wait_loop n (t\<lparr>waited := waited t @ [p_pid p], size3 := size3 t - 1\<rparr>))"

definition WaitChild :: "table3 \<Rightarrow> table3 outcome" where
  "WaitChild t = wait_loop (size3 t) t"

definition CleanExit :: "table3 \<Rightarrow> table3 outcome" where
  "CleanExit t = obind (DeleteAllChild t) WaitChild"

definition ListChild :: "table3 \<Rightarrow> (string \<times> int \<times> bool) list" where
  "ListChild t = map (\<lambda>c. case c of None \<Rightarrow> ([], 0, False) | Some p \<Rightarrow> (p_name p, p_pid p, p_running p)) (take (size3 t) (slots3 t))"

subsection \<open>The command loop\<close>

text \<open>What one line read by \<open>fgets\<close> asks for: the first character and the digit behind it, if any.\<close>

definition parse_input :: "string \<Rightarrow> char \<times> c_int" where
  "parse_input input =
     (let s = c_string input
      in (if s = [] then NUL else hd s,
          if length s > 1 then (case digit_val (s ! 1) of Some d \<Rightarrow> of_nat d | None \<Rightarrow> -1) else -1))"

text \<open>
  Inputs of the parent: a line with the result \<open>fork\<close> would have, \<open>SIGCHLD\<close> with the processes
  that have exited, or a signal of a child.
\<close>

datatype input3 = Line string bool int | Exited "int list" | Received signal3 int

definition keep3 :: "table3 \<Rightarrow> table3 option outcome \<Rightarrow> table3 outcome" where
  "keep3 t r = obind r (\<lambda>x. Done (case x of None \<Rightarrow> t | Some t' \<Rightarrow> t'))"

definition command3 :: "input3 \<Rightarrow> table3 \<Rightarrow> table3 outcome" where
  "command3 inp t =
     (case inp of
        Exited pids \<Rightarrow> HandleExitChild pids t
      | Received signo pid \<Rightarrow> Done (HandleSignal signo pid t)
      | Line input full pid \<Rightarrow>
          (case parse_input input of (option, index) \<Rightarrow>
             if option = CHR ''+'' then CreateChild full pid t
             else if option = CHR ''-'' then DeleteLastChild t
             else if option = CHR ''k'' then DeleteAllChild t
             else if option = CHR ''s'' then keep3 t (StopChild index t)
             else if option = CHR ''g'' then keep3 t (StartChild index t)
             else if option = CHR ''q'' then obind (CleanExit t) (\<lambda>t. Exits)
             else Done t))"

fun main_loop3 :: "input3 list \<Rightarrow> table3 \<Rightarrow> table3 outcome" where
  "main_loop3 [] t = Done t"
| "main_loop3 (i # is) t = obind (command3 i t) (main_loop3 is)"

section \<open>The table is a list\<close>

definition entries3 :: "table3 \<Rightarrow> process_info list" where
  "entries3 t = map the (take (size3 t) (slots3 t))"

definition invar3 :: "table3 \<Rightarrow> bool" where
  "invar3 t \<longleftrightarrow> size3 t \<le> capacity t \<and> length (slots3 t) = capacity t \<and> 0 < capacity t \<and>
     (\<forall>c \<in> set (take (size3 t) (slots3 t)). c \<noteq> None)"

lemma table_init_invar: "invar3 table_init" "entries3 table_init = []"
  by (simp_all add: invar3_def table_init_def entries3_def CAPACITY_def)

lemma invar3_signals [simp]: "invar3 (t\<lparr>signals := xs\<rparr>) = invar3 t" "entries3 (t\<lparr>signals := xs\<rparr>) = entries3 t"
  by (simp_all add: invar3_def entries3_def)

lemma length_entries3: "invar3 t \<Longrightarrow> length (entries3 t) = size3 t"
  by (simp add: entries3_def invar3_def)

lemma slots_entries: "invar3 t \<Longrightarrow> i < size3 t \<Longrightarrow> slots3 t ! i = Some (entries3 t ! i) \<and> i < length (slots3 t)"
  by (auto simp: entries3_def invar3_def in_set_conv_nth)

lemma load3_ok: "invar3 t \<Longrightarrow> i < size3 t \<Longrightarrow> load3 t i = Done (entries3 t ! i)"
  using slots_entries[of t i] by (simp add: load3_def)

text \<open>A table is given by its entries: the array agrees with them on the first \<open>size\<close> places.\<close>

lemma entries3I:
  assumes "length xs = size3 t" "size3 t \<le> length (slots3 t)" "\<And>i. i < size3 t \<Longrightarrow> slots3 t ! i = Some (xs ! i)"
    and "length (slots3 t) = capacity t" "0 < capacity t"
  shows "invar3 t \<and> entries3 t = xs"
proof -
  have "take (size3 t) (slots3 t) = map Some xs" using assms(1-3) by (intro nth_equalityI) simp_all
  then show ?thesis using assms by (auto simp: invar3_def entries3_def)
qed

lemma CreateChild_ok:
  assumes "invar3 t" "pid \<noteq> -1"
  shows "\<exists>t'. CreateChild False pid t = Done t' \<and> invar3 t' \<and>
    entries3 t' = entries3 t @ [\<lparr>p_pid = pid, p_name = ''C_'' @ dec02 (length (entries3 t)), p_running = False\<rparr>] \<and>
    signals t' = signals t \<and> waited t' = waited t"
proof -
  let ?p = "\<lparr>p_pid = pid, p_name = ''C_'' @ dec02 (size3 t), p_running = False\<rparr>"
  let ?u = "if size3 t \<ge> capacity t then t\<lparr>capacity := capacity t * 2,
    slots3 := slots3 t @ replicate (capacity t * 2 - length (slots3 t)) None\<rparr> else t"
  let ?t = "?u\<lparr>slots3 := (slots3 ?u)[size3 t := Some ?p], size3 := size3 t + 1\<rparr>"
  have inv: "size3 t \<le> capacity t" "length (slots3 t) = capacity t" "0 < capacity t" using assms(1) by (simp_all add: invar3_def)
  have u: "size3 t < length (slots3 ?u)" "length (slots3 ?u) = capacity ?u" "size3 ?u = size3 t" using inv by auto
  have run: "CreateChild False pid t = Done ?t"
    using assms(2) inv by (cases "capacity t \<le> size3 t") (simp_all add: CreateChild_def store3_def)
  have "invar3 ?t \<and> entries3 ?t = entries3 t @ [?p]"
  proof (rule entries3I)
    fix i
    assume "i < size3 ?t"
    then show "slots3 ?t ! i = Some ((entries3 t @ [?p]) ! i)"
      using slots_entries[OF assms(1), of i] length_entries3[OF assms(1)] u inv
      by (cases "i = size3 t") (auto simp: nth_append)
  qed (use u inv length_entries3[OF assms(1)] in auto)
  then show ?thesis using run length_entries3[OF assms(1)] by auto
qed

lemma frame3 [simp]:
  "invar3 (t\<lparr>signals := sg\<rparr>) = invar3 t" "entries3 (t\<lparr>signals := sg\<rparr>) = entries3 t"
  "invar3 (t\<lparr>waited := wt\<rparr>) = invar3 t" "entries3 (t\<lparr>waited := wt\<rparr>) = entries3 t"
  by (simp_all add: invar3_def entries3_def)

lemma shrink_size:
  assumes "invar3 t"
  shows "invar3 (t\<lparr>size3 := size3 t - 1\<rparr>) \<and> entries3 (t\<lparr>size3 := size3 t - 1\<rparr>) = butlast (entries3 t)"
  using assms length_entries3[OF assms] slots_entries[OF assms]
  by (intro entries3I) (auto simp: invar3_def nth_butlast)

lemma DeleteLastChild_ok:
  assumes "invar3 t"
  shows "\<exists>t'. DeleteLastChild t = Done t' \<and> invar3 t' \<and> entries3 t' = butlast (entries3 t) \<and> waited t' = waited t \<and>
    size3 t' = size3 t - 1 \<and>
    signals t' = signals t @ (if entries3 t = [] then [] else [(p_pid (last (entries3 t)), SIGTERM)])"
proof (cases "size3 t = 0")
  case True
  then have "entries3 t = []" using length_entries3[OF assms] by simp
  then show ?thesis using assms True by (simp add: DeleteLastChild_def)
next
  case False
  then have ne: "entries3 t \<noteq> []" using length_entries3[OF assms] by auto
  then have "load3 t (size3 t - 1) = Done (last (entries3 t))"
    using load3_ok[OF assms, of "size3 t - 1"] length_entries3[OF assms] False by (simp add: last_conv_nth)
  then show ?thesis
    using False ne assms shrink_size[of "t\<lparr>signals := signals t @ [(p_pid (last (entries3 t)), SIGTERM)]\<rparr>"]
    by (simp add: DeleteLastChild_def)
qed

lemma store3_ok:
  assumes "invar3 t" "i < size3 t"
  shows "\<exists>t'. store3 t i p = Done t' \<and> invar3 t' \<and> entries3 t' = (entries3 t)[i := p] \<and> size3 t' = size3 t \<and>
    signals t' = signals t \<and> waited t' = waited t"
proof -
  let ?t = "t\<lparr>slots3 := (slots3 t)[i := Some p]\<rparr>"
  have i: "i < length (slots3 t)" using slots_entries[OF assms] by simp
  have "invar3 ?t \<and> entries3 ?t = (entries3 t)[i := p]"
  proof (rule entries3I)
    fix j
    assume "j < size3 ?t"
    then show "slots3 ?t ! j = Some ((entries3 t)[i := p] ! j)"
      using slots_entries[OF assms(1), of j] assms length_entries3[OF assms(1)] i by (cases "j = i") auto
  qed (use assms length_entries3[OF assms(1)] in \<open>auto simp: invar3_def\<close>)
  then show ?thesis using i by (simp add: store3_def)
qed

lemma set_running_ok:
  assumes "invar3 t"
  shows "if unat (scast i :: u64) < size3 t
    then \<exists>t'. set_running b sig i t = Done (Some t') \<and> invar3 t' \<and> waited t' = waited t \<and>
      entries3 t' = (entries3 t)[unat (scast i :: u64) := (entries3 t ! unat (scast i :: u64))\<lparr>p_running := b\<rparr>] \<and>
      signals t' = signals t @ [(p_pid (entries3 t ! unat (scast i :: u64)), sig)]
    else set_running b sig i t = Done None"
proof (cases "unat (scast i :: u64) < size3 t")
  case True
  let ?k = "unat (scast i :: u64)" and ?u = "t\<lparr>signals := signals t @ [(p_pid (entries3 t ! unat (scast i :: u64)), sig)]\<rparr>"
  have "invar3 ?u" "entries3 ?u = entries3 t" using assms by (simp_all add: invar3_def entries3_def)
  then obtain t' where "store3 ?u ?k ((entries3 t ! ?k)\<lparr>p_running := b\<rparr>) = Done t'" "invar3 t'"
    "entries3 t' = (entries3 t)[?k := (entries3 t ! ?k)\<lparr>p_running := b\<rparr>]" "signals t' = signals ?u" "waited t' = waited t"
    using store3_ok[of ?u ?k "(entries3 t ! ?k)\<lparr>p_running := b\<rparr>"] True by auto
  then show ?thesis using True load3_ok[OF assms True] by (simp add: set_running_def Let_def)
qed (simp add: set_running_def Let_def)

subsection \<open>The handler of SIGCHLD\<close>

fun drop_pid :: "int \<Rightarrow> process_info list \<Rightarrow> process_info list" where
  "drop_pid pid [] = []"
| "drop_pid pid (p # ps) = (if p_pid p = pid then ps else p # drop_pid pid ps)"

lemma shift_down_ok:
  assumes "invar3 t" "j + Suc n = size3 t"
  shows "\<exists>t'. shift_down j n t = Done t' \<and> invar3 t' \<and> size3 t' = size3 t \<and> signals t' = signals t \<and> waited t' = waited t \<and>
    butlast (entries3 t') = take j (entries3 t) @ drop (Suc j) (entries3 t)"
  using assms
proof (induction n arbitrary: j t)
  case 0
  then have "length (entries3 t) = Suc j" "size3 t - 1 = j" using length_entries3[of t] by simp_all
  then show ?case using 0 by (simp add: butlast_conv_take)
next
  case (Suc n)
  have l: "load3 t (j + 1) = Done (entries3 t ! (j + 1))" using load3_ok[OF Suc(2)] Suc(3) by simp
  obtain u where u: "store3 t j (entries3 t ! (j + 1)) = Done u" "invar3 u" "entries3 u = (entries3 t)[j := entries3 t ! (j + 1)]"
    "size3 u = size3 t" "signals u = signals t" "waited u = waited t"
    using store3_ok[OF Suc(2), of j] Suc(3) by auto
  obtain t' where t': "shift_down (Suc j) n u = Done t'" "invar3 t'" "size3 t' = size3 t" "signals t' = signals t" "waited t' = waited t"
    "butlast (entries3 t') = take (Suc j) (entries3 u) @ drop (Suc (Suc j)) (entries3 u)"
    using Suc(1)[OF u(2), of "Suc j"] Suc(3) u(4-6) by auto
  have "take (Suc j) (entries3 u) @ drop (Suc (Suc j)) (entries3 u) = take j (entries3 t) @ drop (Suc j) (entries3 t)"
    using u(3) Suc(3) length_entries3[OF Suc(2)] by (simp add: take_Suc_conv_app_nth Cons_nth_drop_Suc)
  then show ?case using l u(1) t' by simp
qed

lemma reap_from_ok:
  assumes "invar3 t" "i + n = size3 t"
  shows "\<exists>t'. reap_from pid i n t = Done t' \<and> invar3 t' \<and> signals t' = signals t \<and> waited t' = waited t \<and>
    entries3 t' = take i (entries3 t) @ drop_pid pid (drop i (entries3 t))"
  using assms(2)
proof (induction n arbitrary: i)
  case 0
  then show ?case using assms(1) length_entries3[OF assms(1)] by simp
next
  case (Suc n)
  have i: "i < size3 t" "i < length (entries3 t)" using Suc(2) length_entries3[OF assms(1)] by simp_all
  have d: "drop i (entries3 t) = entries3 t ! i # drop (Suc i) (entries3 t)" using i(2) by (simp add: Cons_nth_drop_Suc)
  show ?case
  proof (cases "p_pid (entries3 t ! i) = pid")
    case True
    obtain u where u: "shift_down i n t = Done u" "invar3 u" "size3 u = size3 t" "signals u = signals t" "waited u = waited t"
      "butlast (entries3 u) = take i (entries3 t) @ drop (Suc i) (entries3 t)"
      using shift_down_ok[OF assms(1), of i n] Suc(2) by auto
    then show ?thesis
      using shrink_size[OF u(2)] load3_ok[OF assms(1) i(1)] True d by auto
  next
    case False
    then show ?thesis
      using Suc(1)[of "Suc i"] Suc(2) load3_ok[OF assms(1) i(1)] d i(2) by (simp add: take_Suc_conv_app_nth)
  qed
qed

lemma HandleExitChild_ok:
  "invar3 t \<Longrightarrow> \<exists>t'. HandleExitChild pids t = Done t' \<and> invar3 t' \<and> entries3 t' = fold drop_pid pids (entries3 t) \<and>
    signals t' = signals t \<and> waited t' = waited t @ pids"
proof (induction pids arbitrary: t)
  case (Cons pid pids)
  let ?u = "t\<lparr>waited := waited t @ [pid]\<rparr>"
  have "invar3 ?u" "entries3 ?u = entries3 t" using Cons(2) by (simp_all add: invar3_def entries3_def)
  then obtain v where v: "reap_from pid 0 (size3 t) ?u = Done v" "invar3 v" "entries3 v = drop_pid pid (entries3 t)"
    "signals v = signals t" "waited v = waited t @ [pid]"
    using reap_from_ok[of ?u 0 "size3 t" pid] by auto
  then show ?case using Cons(1)[OF v(2)] by auto
qed simp

subsection \<open>Deleting all children\<close>

lemma delete_loop_ok:
  "invar3 t \<Longrightarrow> n = size3 t \<Longrightarrow> \<exists>t'. delete_loop n t = Done t' \<and> invar3 t' \<and> size3 t' = 0 \<and> entries3 t' = [] \<and> waited t' = waited t \<and>
    signals t' = signals t @ map (\<lambda>p. (p_pid p, SIGTERM)) (rev (entries3 t))"
proof (induction n arbitrary: t)
  case 0
  then have "entries3 t = []" using length_entries3[of t] by simp
  then show ?case using 0 by simp
next
  case (Suc n)
  have ne: "entries3 t \<noteq> []" using length_entries3[OF Suc(2)] Suc(3) by auto
  obtain u where u: "DeleteLastChild t = Done u" "invar3 u" "entries3 u = butlast (entries3 t)" "waited u = waited t"
    "size3 u = size3 t - 1" "signals u = signals t @ [(p_pid (last (entries3 t)), SIGTERM)]"
    using DeleteLastChild_ok[OF Suc(2)] ne by auto
  have last: "rev (entries3 t) = last (entries3 t) # rev (butlast (entries3 t))"
    using ne by (metis append_butlast_last_id rev_eq_Cons_iff rev_rev_ident)
  have "n = size3 u" using Suc(3) u(5) by simp
  from Suc(1)[OF u(2) this] obtain t' where "delete_loop n u = Done t'" "invar3 t'" "size3 t' = 0" "entries3 t' = []"
    "waited t' = waited t" "signals t' = signals u @ map (\<lambda>p. (p_pid p, SIGTERM)) (rev (entries3 u))"
    using u(4) by auto
  moreover have "signals u @ map (\<lambda>p. (p_pid p, SIGTERM)) (rev (entries3 u)) = signals t @ map (\<lambda>p. (p_pid p, SIGTERM)) (rev (entries3 t))"
    unfolding last u(3,6) by simp
  ultimately show ?case using u(1) by simp
qed

section \<open>Commands\<close>

text \<open>The specification: what a command or the exit of children does to the list of entries.\<close>

definition spec_flag :: "bool \<Rightarrow> c_int \<Rightarrow> process_info list \<Rightarrow> process_info list" where
  "spec_flag b i ps = (let k = nat (sint i) in if 0 \<le> sint i \<and> k < length ps then ps[k := (ps ! k)\<lparr>p_running := b\<rparr>] else ps)"

definition spec_command :: "input3 \<Rightarrow> process_info list \<Rightarrow> process_info list" where
  "spec_command inp ps =
     (case inp of
        Exited pids \<Rightarrow> fold drop_pid pids ps
      | Received signo pid \<Rightarrow> ps
      | Line input full pid \<Rightarrow>
          (case parse_input input of (option, index) \<Rightarrow>
             if option = CHR ''+'' then if pid = -1 then ps
               else ps @ [\<lparr>p_pid = pid, p_name = ''C_'' @ dec02 (length ps), p_running = False\<rparr>]
             else if option = CHR ''-'' then butlast ps
             else if option = CHR ''k'' then []
             else if option = CHR ''s'' then spec_flag False index ps
             else if option = CHR ''g'' then spec_flag True index ps
             else ps))"

definition quits3 :: "input3 \<Rightarrow> bool" where
  "quits3 inp = (case inp of Exited pids \<Rightarrow> False
     | Received signo pid \<Rightarrow> False
     | Line input full pid \<Rightarrow> full \<or> fst (parse_input input) = CHR ''q'')"

text \<open>A negative index becomes a huge \<open>size_t\<close>; tables are smaller than that.\<close>

lemma index_small:
  assumes "n \<le> 2 ^ 31"
  shows "unat (scast i :: u64) < n \<longleftrightarrow> 0 \<le> sint (i :: c_int) \<and> nat (sint i) < n"
proof -
  have s: "sint (scast i :: u64) = sint i" by (simp add: sint_up_scast is_up)
  have b: "- (2 ^ 31) \<le> sint i" "sint i < 2 ^ 31" using sint_greater_eq[of i] sint_lt[of i] by simp_all
  have "uint (scast i :: u64) = sint (scast i :: u64) mod 2 ^ 64" by (simp add: uint_sint take_bit_eq_mod)
  then have "int (unat (scast i :: u64)) = (if 0 \<le> sint i then sint i else sint i + 2 ^ 64)"
    using s b by (auto simp: mod_pos_pos_trivial intro!: int_mod_pos_eq[of _ _ "-1"])
  from arg_cong[OF this, of nat] have "unat (scast i :: u64) = nat (if 0 \<le> sint i then sint i else sint i + 2 ^ 64)"
    by (simp only: nat_int)
  then show ?thesis using assms b by (cases "0 \<le> sint i") simp_all
qed

lemma set_running_spec:
  assumes "invar3 t" "size3 t \<le> 2 ^ 31"
  shows "\<exists>t'. keep3 t (set_running b sig i t) = Done t' \<and> invar3 t' \<and> entries3 t' = spec_flag b i (entries3 t)"
proof (cases "unat (scast i :: u64) < size3 t")
  case True
  then have "0 \<le> sint i" "nat (sint i) < size3 t" using index_small[OF assms(2)] by simp_all
  moreover from this have "unat (scast i :: u64) = nat (sint i)"
    using index_small[of "Suc (nat (sint i))" i] index_small[of "nat (sint i)" i] assms(2) by linarith
  ultimately show ?thesis
    using set_running_ok[OF assms(1), of i b sig] True length_entries3[OF assms(1)]
    by (auto simp: keep3_def spec_flag_def Let_def)
next
  case False
  then show ?thesis
    using set_running_ok[OF assms(1), of i b sig] index_small[OF assms(2), of i] length_entries3[OF assms(1)] assms(1)
    by (auto simp: keep3_def spec_flag_def Let_def)
qed

definition small3 :: "input3 list \<Rightarrow> table3 \<Rightarrow> bool" where
  "small3 is t \<longleftrightarrow> size3 t + length is \<le> 2 ^ 31"

lemma drop_pid_length: "length (drop_pid p qs) \<le> length qs"
  by (induction qs) auto

lemma drop_pids_length: "length (fold drop_pid pids qs) \<le> length qs"
proof (induction pids arbitrary: qs)
  case (Cons p pids)
  then show ?case using le_trans[OF Cons[of "drop_pid p qs"] drop_pid_length] by simp
qed simp

lemma spec_command_length: "length (spec_command i ps) \<le> length ps + 1"
proof (cases i)
  case (Line input full pid)
  then show ?thesis by (auto simp: spec_command_def spec_flag_def Let_def split: prod.splits)
next
  case (Exited pids)
  then show ?thesis using drop_pids_length[of pids ps] by (simp add: spec_command_def)
qed (simp add: spec_command_def)

lemma CreateChild_cases:
  assumes "invar3 t" "CreateChild full pid t \<noteq> Exits"
  shows "\<exists>t'. CreateChild full pid t = Done t' \<and> invar3 t' \<and>
    entries3 t' = (if pid = -1 then entries3 t
      else entries3 t @ [\<lparr>p_pid = pid, p_name = ''C_'' @ dec02 (length (entries3 t)), p_running = False\<rparr>])"
proof (cases "pid = -1")
  case True
  then show ?thesis using assms(1) by (simp add: CreateChild_def)
next
  case False
  then have "CreateChild full pid t = CreateChild False pid t" using assms(2) by (auto simp: CreateChild_def split: if_splits)
  then show ?thesis using CreateChild_ok[OF assms(1) False] False by auto
qed

lemma CleanExit_ok:
  assumes "invar3 t"
  shows "\<exists>t'. CleanExit t = Done t' \<and> entries3 t' = [] \<and> waited t' = waited t \<and>
    signals t' = signals t @ map (\<lambda>p. (p_pid p, SIGTERM)) (rev (entries3 t))"
proof -
  obtain u where "DeleteAllChild t = Done u" "size3 u = 0" "entries3 u = []" "waited u = waited t"
    "signals u = signals t @ map (\<lambda>p. (p_pid p, SIGTERM)) (rev (entries3 t))"
    using delete_loop_ok[OF assms refl] by (auto simp: DeleteAllChild_def)
  then show ?thesis by (simp add: CleanExit_def WaitChild_def)
qed

lemma command3_ok:
  assumes "invar3 t" "size3 t \<le> 2 ^ 31" "command3 i t \<noteq> Exits"
  shows "\<exists>t'. command3 i t = Done t' \<and> invar3 t' \<and> entries3 t' = spec_command i (entries3 t)"
proof (cases i)
  case (Exited pids)
  then show ?thesis using HandleExitChild_ok[OF assms(1), of pids] by (auto simp: command3_def spec_command_def)
next
  case (Line input full pid)
  obtain op k where parse: "parse_input input = (op, k)" by (cases "parse_input input")
  consider "op = CHR ''+''" | "op = CHR ''-''" | "op = CHR ''k''" | "op = CHR ''s''" | "op = CHR ''g''" | "op = CHR ''q''"
    | "op \<notin> {CHR ''+'', CHR ''-'', CHR ''k'', CHR ''s'', CHR ''g'', CHR ''q''}" by blast
  then show ?thesis
  proof cases
    case 1
    then show ?thesis using CreateChild_cases[OF assms(1), of full pid] assms(3) Line parse by (simp add: command3_def spec_command_def)
  next
    case 2
    then show ?thesis using DeleteLastChild_ok[OF assms(1)] Line parse by (auto simp: command3_def spec_command_def)
  next
    case 3
    then show ?thesis using delete_loop_ok[OF assms(1) refl] Line parse by (auto simp: command3_def spec_command_def DeleteAllChild_def)
  next
    case 4
    then show ?thesis using set_running_spec[OF assms(1,2), of False SIGUSR1 k] Line parse by (simp add: command3_def spec_command_def StopChild_def)
  next
    case 5
    then show ?thesis using set_running_spec[OF assms(1,2), of True SIGUSR2 k] Line parse by (simp add: command3_def spec_command_def StartChild_def)
  next
    case 6
    then show ?thesis using CleanExit_ok[OF assms(1)] assms(3) Line parse by (auto simp: command3_def)
  next
    case 7
    then show ?thesis using assms(1) Line parse by (simp add: command3_def spec_command_def)
  qed
next
  case (Received signo pid)
  then show ?thesis using assms(1) by (simp add: command3_def spec_command_def HandleSignal_def)
qed

lemma command3_Exits:
  assumes "invar3 t" "size3 t \<le> 2 ^ 31" "command3 i t = Exits"
  shows "quits3 i"
proof (rule ccontr)
  assume nq: "\<not> quits3 i"
  show False
  proof (cases i)
    case (Exited pids)
    then show False using HandleExitChild_ok[OF assms(1), of pids] assms(3) by (auto simp: command3_def)
  next
    case (Line input full pid)
    obtain op k where parse: "parse_input input = (op, k)" by (cases "parse_input input")
    have nf: "\<not> full" "op \<noteq> CHR ''q''" using nq Line parse by (simp_all add: quits3_def)
    have "CreateChild False pid t \<noteq> Exits" using CreateChild_ok[OF assms(1), of pid] by (cases "pid = -1") (auto simp: CreateChild_def)
    moreover have "DeleteLastChild t \<noteq> Exits" "DeleteAllChild t \<noteq> Exits"
      using DeleteLastChild_ok[OF assms(1)] delete_loop_ok[OF assms(1) refl] by (auto simp: DeleteAllChild_def)
    moreover have "keep3 t (StopChild k t) \<noteq> Exits" "keep3 t (StartChild k t) \<noteq> Exits"
      using set_running_spec[OF assms(1,2), of False SIGUSR1 k] set_running_spec[OF assms(1,2), of True SIGUSR2 k]
      by (auto simp: StopChild_def StartChild_def)
    ultimately show False using assms(3) Line parse nf by (auto simp: command3_def split: if_splits)
  next
    case (Received signo pid)
    then show False using assms(3) by (simp add: command3_def)
  qed
qed


lemma dec02_digits: "dec02 0 = ''00''" "dec02 (Suc 0) = ''01''" "dec02 2 = ''02''"
  by (simp_all add: dec02_def dec.simps digit_def char_of_def bit_0)


text \<open>
  Two live children can have the same name: the name is made from the size of the table, and
  after a child has exited the next one gets a number that is still in use.
\<close>

theorem child_names_collide:
  "\<exists>t. main_loop3 [Line ''+'' False 11, Line ''+'' False 12, Exited [11], Line ''+'' False 13] table_init = Done t \<and>
     map p_pid (entries3 t) = [12, 13] \<and> map p_name (entries3 t) = [''C_01'', ''C_01'']"
proof -
  let ?is = "[Line ''+'' False 11, Line ''+'' False 12, Exited [11], Line ''+'' False 13]"
  have p: "parse_input ''+'' = (CHR ''+'', -1)" by (simp add: parse_input_def c_string_def)
  obtain t1 where t1: "command3 (Line ''+'' False 11) table_init = Done t1" "invar3 t1" "entries3 t1 = [\<lparr>p_pid = 11, p_name = ''C_00'', p_running = False\<rparr>]"
    using CreateChild_ok[OF table_init_invar(1), of 11] p by (auto simp: command3_def table_init_invar(2) dec02_digits)
  obtain t2 where t2: "command3 (Line ''+'' False 12) t1 = Done t2" "invar3 t2" "map p_pid (entries3 t2) = [11, 12]" "map p_name (entries3 t2) = [''C_00'', ''C_01'']"
    using CreateChild_ok[OF t1(2), of 12] p t1(3) by (auto simp: command3_def dec02_digits)
  obtain t3 where t3: "command3 (Exited [11]) t2 = Done t3" "invar3 t3" "entries3 t3 = drop_pid 11 (entries3 t2)"
    using HandleExitChild_ok[OF t2(2), of "[11]"] by (auto simp: command3_def)
  have e3: "map p_pid (entries3 t3) = [12]" "map p_name (entries3 t3) = [''C_01'']" "length (entries3 t3) = Suc 0"
    using t2(3,4) t3(3) by (auto simp: map_eq_Cons_conv)
  obtain t4 where "command3 (Line ''+'' False 13) t3 = Done t4" "map p_pid (entries3 t4) = [12, 13]" "map p_name (entries3 t4) = [''C_01'', ''C_01'']"
    using CreateChild_ok[OF t3(2), of 13] p e3 by (auto simp: command3_def dec02_digits)
  then show ?thesis using t1(1) t2(1) t3(1) by auto
qed

text \<open>
  Quitting waits for no child: \<open>CleanExit\<close> sends \<open>SIGTERM\<close> to every child, last first, but
  \<open>DeleteAllChild\<close> empties the table, so \<open>WaitChild\<close>, which is to wait for each of them, does nothing.
\<close>

theorem clean_exit_waits_for_nobody:
  assumes "invar3 t"
  shows "\<exists>t'. CleanExit t = Done t' \<and> waited t' = waited t \<and>
    signals t' = signals t @ map (\<lambda>p. (p_pid p, SIGTERM)) (rev (entries3 t))"
  using CleanExit_ok[OF assms] by blast

theorem clean_exit_waits_for_nobody_witness: "\<exists>t'. CleanExit table_init = Done t' \<and> waited t' = []"
  using clean_exit_waits_for_nobody[OF table_init_invar(1)] by (auto simp: table_init_def)

section \<open>The child\<close>

record child3 =
  counter :: int
  occ_first :: int
  occ_second :: int
  c00 :: u64
  c01 :: u64
  c10 :: u64
  c11 :: u64
  can_print :: bool
  received :: bool

definition child_init :: child3 where
  "child_init = \<lparr>counter = 0, occ_first = 0, occ_second = 0, c00 = 0, c01 = 0, c10 = 0, c11 = 0, can_print = False, received = False\<rparr>"

definition UpdateStat :: "child3 \<Rightarrow> child3" where
  "UpdateStat c =
     (let c = (if counter c = 0 then c\<lparr>occ_first := 0, occ_second := 0\<rparr>
               else if counter c = 1 then c\<lparr>occ_first := 1, occ_second := 0\<rparr>
               else if counter c = 2 then c\<lparr>occ_first := 0, occ_second := 1\<rparr>
               else if counter c = 3 then c\<lparr>occ_first := 1, occ_second := 1\<rparr>
               else c\<lparr>counter := -1\<rparr>)
      in c\<lparr>counter := counter c + 1\<rparr>)"

definition UsrSignHandler :: "signal3 \<Rightarrow> child3 \<Rightarrow> child3" where
  "UsrSignHandler sig c =
     (if sig = SIGUSR1 then c\<lparr>can_print := False, received := True\<rparr>
      else if sig = SIGUSR2 then c\<lparr>can_print := True, received := True\<rparr>
      else c)"

definition AlrSignHandler :: "child3 \<Rightarrow> child3" where
  "AlrSignHandler c =
     (if occ_first c = 0 \<and> occ_second c = 0 then c\<lparr>c00 := c00 c + 1\<rparr>
      else if occ_first c = 1 \<and> occ_second c = 0 then c\<lparr>c01 := c01 c + 1\<rparr>
      else if occ_first c = 0 \<and> occ_second c = 1 then c\<lparr>c10 := c10 c + 1\<rparr>
      else if occ_first c = 1 \<and> occ_second c = 1 then c\<lparr>c11 := c11 c + 1\<rparr>
      else c)"

text \<open>
  One pass of the loop of \<open>main\<close> with index \<open>i\<close>. When it asks the parent for permission, \<open>reply\<close> is the
  signal that ends the waiting. The result is the next index, the child and whether it printed.
\<close>

definition child_pass :: "signal3 \<Rightarrow> nat \<Rightarrow> child3 \<Rightarrow> nat \<times> child3 \<times> bool" where
  "child_pass reply i c =
     (let c = (UpdateStat c)\<lparr>received := False\<rparr>
      in if i \<ge> 6 \<and> can_print c
         then let c = UsrSignHandler reply c
              in if \<not> can_print c then (1, c\<lparr>can_print := True\<rparr>, False) else (1, c, True)
         else (i + 1, c, False))"

datatype event3 = Pass signal3 | Alarm | Signal signal3

fun child_run :: "event3 list \<Rightarrow> nat \<Rightarrow> child3 \<Rightarrow> nat \<times> child3" where
  "child_run [] i c = (i, c)"
| "child_run (Pass r # es) i c = (case child_pass r i c of (j, d, pr) \<Rightarrow> child_run es j d)"
| "child_run (Alarm # es) i c = child_run es i (AlrSignHandler c)"
| "child_run (Signal sg # es) i c = child_run es i (UsrSignHandler sg c)"

text \<open>The pair is always one of the four, and the counter runs through 0 to 4.\<close>

definition child_ok :: "child3 \<Rightarrow> bool" where
  "child_ok c \<longleftrightarrow> occ_first c \<in> {0, 1} \<and> occ_second c \<in> {0, 1} \<and> 0 \<le> counter c \<and> counter c \<le> 4"

definition total3 :: "child3 \<Rightarrow> u64" where
  "total3 c = c00 c + c01 c + c10 c + c11 c"

lemma UpdateStat_ok: "child_ok c \<Longrightarrow> child_ok (UpdateStat c) \<and> total3 (UpdateStat c) = total3 c"
  by (auto simp: child_ok_def UpdateStat_def total3_def Let_def)

lemma AlrSignHandler_ok: "child_ok c \<Longrightarrow> child_ok (AlrSignHandler c) \<and> total3 (AlrSignHandler c) = total3 c + 1"
  by (auto simp: child_ok_def AlrSignHandler_def total3_def)

lemma UsrSignHandler_ok: "child_ok c \<Longrightarrow> child_ok (UsrSignHandler sg c) \<and> total3 (UsrSignHandler sg c) = total3 c"
  by (simp add: child_ok_def UsrSignHandler_def total3_def)

lemma child_frame [simp]:
  "child_ok (c\<lparr>received := b\<rparr>) = child_ok c" "total3 (c\<lparr>received := b\<rparr>) = total3 c"
  "child_ok (c\<lparr>can_print := b\<rparr>) = child_ok c" "total3 (c\<lparr>can_print := b\<rparr>) = total3 c"
  by (simp_all add: child_ok_def total3_def)

lemma child_pass_ok:
  assumes "child_ok c" "child_pass r i c = (j, d, pr)"
  shows "child_ok d \<and> total3 d = total3 c"
  using assms UpdateStat_ok[OF assms(1)] UsrSignHandler_ok[of "(UpdateStat c)\<lparr>received := False\<rparr>" r]
  by (auto simp: child_pass_def Let_def split: if_splits)

lemma child_run_ok:
  "child_ok c \<Longrightarrow> child_run es i c = (j, d) \<Longrightarrow> child_ok d \<and> total3 d = total3 c + of_nat (count_list es Alarm)"
proof (induction es i c rule: child_run.induct)
  case (2 r es i c)
  obtain k e pr where p: "child_pass r i c = (k, e, pr)" by (cases "child_pass r i c")
  then show ?case using 2 child_pass_ok[OF 2(2) p] by simp
next
  case (3 es i c)
  then show ?case using AlrSignHandler_ok[of c] by (simp add: algebra_simps)
next
  case (4 sg es i c)
  then show ?case using UsrSignHandler_ok[of c sg] by simp
qed simp

text \<open>
  Every alarm of the child is counted exactly once, whatever signals and passes of the main
  loop happen in between: the four counters add up to the number of alarms (in 64 bits).
\<close>

theorem child_counts_alarms:
  "case child_run es i child_init of (j, d) \<Rightarrow> c00 d + c01 d + c10 d + c11 d = of_nat (count_list es Alarm)"
proof -
  have "child_ok child_init" "total3 child_init = 0" by (simp_all add: child_ok_def total3_def child_init_def)
  then show ?thesis using child_run_ok[of child_init es i] by (auto simp: total3_def split: prod.splits)
qed

section \<open>Parent and child\<close>

text \<open>
  The permission protocol: a child that may print asks with \<open>SIGUSR1\<close>; the parent answers that
  child with \<open>SIGUSR2\<close>, the child prints its statistics and starts a new period. A command s<n>
  that reaches the child while it waits for the answer only postpones the printing: the parent marks
  the child as stopped, but the child sets \<open>can_print\<close> again by itself.
\<close>

theorem permission_and_lost_stop:
  assumes "6 \<le> i" "can_print c" "invar3 t" "unat (scast n :: u64) < size3 t"
  shows "signals (HandleSignal SIGUSR1 pid t) = signals t @ [(pid, SIGUSR2)] \<and>
    (\<exists>d. child_pass SIGUSR2 i c = (1, d, True) \<and> can_print d) \<and>
    (\<exists>t'. StopChild n t = Done (Some t') \<and> \<not> p_running (entries3 t' ! unat (scast n :: u64)) \<and>
      last (signals t') = (p_pid (entries3 t ! unat (scast n :: u64)), SIGUSR1)) \<and>
    (\<exists>d. child_pass SIGUSR1 i c = (1, d, False) \<and> can_print d)"
proof -
  let ?k = "unat (scast n :: u64)"
  have "can_print (UpdateStat c)" using assms(2) by (simp add: UpdateStat_def Let_def)
  then have "\<exists>d. child_pass SIGUSR2 i c = (1, d, True) \<and> can_print d" "\<exists>d. child_pass SIGUSR1 i c = (1, d, False) \<and> can_print d"
    using assms(1) by (simp_all add: child_pass_def UsrSignHandler_def Let_def)
  moreover obtain t' where "StopChild n t = Done (Some t')"
    "entries3 t' = (entries3 t)[?k := (entries3 t ! ?k)\<lparr>p_running := False\<rparr>]"
    "signals t' = signals t @ [(p_pid (entries3 t ! ?k), SIGUSR1)]"
    using set_running_ok[OF assms(3), of n False SIGUSR1] assms(4) by (auto simp: StopChild_def)
  moreover have "?k < length (entries3 t)" using assms(4) length_entries3[OF assms(3)] by simp
  ultimately show ?thesis by (simp add: HandleSignal_def)
qed

theorem permission_and_lost_stop_witness:
  "\<exists>t. main_loop3 [Line ''+'' False 11] table_init = Done t \<and>
    (\<exists>t'. StopChild 0 t = Done (Some t') \<and> \<not> p_running (entries3 t' ! 0)) \<and>
    (\<exists>d. child_pass SIGUSR1 6 (child_init\<lparr>can_print := True\<rparr>) = (1, d, False) \<and> can_print d)"
proof -
  have "parse_input ''+'' = (CHR ''+'', -1)" by (simp add: parse_input_def c_string_def)
  then obtain t where t: "main_loop3 [Line ''+'' False 11] table_init = Done t" "invar3 t" "length (entries3 t) = 1"
    using CreateChild_ok[OF table_init_invar(1), of 11] table_init_invar(2) by (auto simp: command3_def)
  then have "size3 t = 1" using length_entries3 by simp
  then show ?thesis
    using permission_and_lost_stop[of 6 "child_init\<lparr>can_print := True\<rparr>" t 0 11] t by auto
qed

end
