(* ===== verification/Proc_Async.thy ===== *)
theory Proc_Async
  imports Proc_Table
begin

text \<open>
  lab03/src/parent.c with signals that arrive inside a command. \<open>Proc_Table\<close> lets the handlers run between
  two commands; here they run between two accesses of one command. The handler of \<open>SIGUSR1\<close> and
  \<open>SIGUSR2\<close> does not touch the table. The handler of \<open>SIGCHLD\<close> does: the command k blocks the
  signal, the commands + and - do not.
\<close>

section \<open>SIGCHLD inside a command\<close>

text \<open>\<open>child_processes_size--\<close> on a \<open>size_t\<close>.\<close>

definition size_dec :: "nat \<Rightarrow> nat" where
  "size_dec n = (if n = 0 then 2 ^ 64 - 1 else n - 1)"

text \<open>The processes \<open>gone1\<close> are reaped between \<open>kill\<close> and \<open>printf\<close>, \<open>gone2\<close> between \<open>printf\<close> and the decrement.\<close>

definition DeleteLastChild_interrupted :: "int list \<Rightarrow> int list \<Rightarrow> table3 \<Rightarrow> table3 outcome" where
  "DeleteLastChild_interrupted gone1 gone2 t =
     (if size3 t = 0 then Done t
      else obind (load3 t (size3 t - 1)) (\<lambda>p.
        obind (HandleExitChild gone1 (t\<lparr>signals := signals t @ [(p_pid p, SIGTERM)]\<rparr>)) (\<lambda>t.
        obind (load3 t (size_dec (size3 t))) (\<lambda>shown.
        obind (HandleExitChild gone2 t) (\<lambda>t.
        Done (t\<lparr>size3 := size_dec (size3 t)\<rparr>))))))"

text \<open>The processes \<open>gone\<close> are reaped between \<open>fork\<close> and the first access to the table.\<close>

definition CreateChild_interrupted :: "int list \<Rightarrow> bool \<Rightarrow> int \<Rightarrow> table3 \<Rightarrow> table3 outcome" where
  "CreateChild_interrupted gone full pid t =
     (if pid = -1 then Done t else obind (HandleExitChild gone t) (CreateChild full pid))"

lemma exit_step:
  assumes "invar3 t"
  shows "\<exists>u. HandleExitChild gone (t\<lparr>signals := sg\<rparr>) = Done u \<and> invar3 u \<and> entries3 u = fold drop_pid gone (entries3 t) \<and>
    signals u = sg \<and> waited u = waited t @ gone"
  using HandleExitChild_ok[of "t\<lparr>signals := sg\<rparr>" gone] assms by simp

lemma last_loaded: "invar3 t \<Longrightarrow> entries3 t = es @ [p] \<Longrightarrow> size3 t = Suc (length es) \<and> load3 t (length es) = Done p"
  using length_entries3[of t] load3_ok[of t "length es"] by simp

lemma load3_outside: "length (slots3 t) \<le> i \<Longrightarrow> load3 t i = Faults"
  by (simp add: load3_def c_load_def)

lemma drop_pid_last: "pid \<notin> set (map p_pid es) \<Longrightarrow> p_pid p = pid \<Longrightarrow> drop_pid pid (es @ [p]) = es"
  by (induction es) auto

lemma store3_length: "store3 t i p = Done t' \<Longrightarrow> length (slots3 t') = length (slots3 t)"
  by (auto simp: store3_def c_store_def split: if_splits)

lemma shift_down_length: "shift_down j n t = Done t' \<Longrightarrow> length (slots3 t') = length (slots3 t)"
  by (induction j n t rule: shift_down.induct) (auto dest: store3_length)

lemma reap_from_length: "reap_from pid i n t = Done t' \<Longrightarrow> length (slots3 t') = length (slots3 t)"
  by (induction pid i n t rule: reap_from.induct) (auto dest: shift_down_length split: if_splits)

lemma HandleExitChild_length: "HandleExitChild pids t = Done t' \<Longrightarrow> length (slots3 t') = length (slots3 t)"
proof (induction pids arbitrary: t)
  case (Cons pid pids)
  then obtain x where "reap_from pid 0 (size3 t) (t\<lparr>waited := waited t @ [pid]\<rparr>) = Done x" "HandleExitChild pids x = Done t'" by auto
  then show ?case using Cons(1)[of x] reap_from_length by fastforce
qed simp

lemma delete_uninterrupted:
  assumes "invar3 t"
  shows "DeleteLastChild_interrupted [] [] t = DeleteLastChild t"
  using load3_ok[OF assms, of "size3 t - 1"] load3_ok[of "t\<lparr>signals := s\<rparr>" "size3 t - 1" for s] assms
  by (auto simp: DeleteLastChild_interrupted_def DeleteLastChild_def size_dec_def)

text \<open>
  C40. The command - is not safe against \<open>SIGCHLD\<close>. If the signal of the child it has just killed arrives
  before the size is decremented, the entry is removed twice. With other children in the table the
  last of them disappears from it although it is alive and was not signalled; with no
  other, the size wraps to \<open>2 ^ 64 - 1\<close>, or \<open>printf\<close> already reads outside the array.
  Without the interruption the command is the one of \<open>Proc_Table\<close>.
\<close>

theorem delete_interrupted:
  assumes "invar3 t" "entries3 t = es @ [p]" "p_pid p \<notin> set (map p_pid es)" "Suc (length (slots3 t)) < 2 ^ 64"
  shows "DeleteLastChild_interrupted [] [] t = DeleteLastChild t \<and>
    (\<exists>u. DeleteLastChild_interrupted [] [p_pid p] t = Done u \<and> signals u = signals t @ [(p_pid p, SIGTERM)] \<and>
      (if es = [] then size3 u = 2 ^ 64 - 1 \<and> \<not> invar3 u else entries3 u = butlast es)) \<and>
    (es = [] \<longrightarrow> DeleteLastChild_interrupted [p_pid p] [] t = Faults)"
proof (intro conjI impI)
  let ?s = "t\<lparr>signals := signals t @ [(p_pid p, SIGTERM)]\<rparr>"
  show "DeleteLastChild_interrupted [] [] t = DeleteLastChild t" by (rule delete_uninterrupted[OF assms(1)])
  have sz: "size3 t = Suc (length es)" "load3 t (length es) = Done p" using last_loaded[OF assms(1,2)] by simp_all
  have l: "load3 ?s (length es) = Done p" using last_loaded[of ?s es p] assms(1,2) by simp
  obtain u where u: "HandleExitChild [p_pid p] ?s = Done u" "invar3 u" "entries3 u = es" "signals u = signals t @ [(p_pid p, SIGTERM)]"
    using exit_step[OF assms(1), of "[p_pid p]" "signals t @ [(p_pid p, SIGTERM)]"] assms(2) drop_pid_last[OF assms(3) refl] by auto
  have su: "size3 u = length es" "Suc (length (slots3 u)) < 2 ^ 64" using length_entries3[OF u(2)] u(3) HandleExitChild_length[OF u(1)] assms(4) by simp_all
  show "\<exists>u. DeleteLastChild_interrupted [] [p_pid p] t = Done u \<and> signals u = signals t @ [(p_pid p, SIGTERM)] \<and>
      (if es = [] then size3 u = 2 ^ 64 - 1 \<and> \<not> invar3 u else entries3 u = butlast es)"
  proof (intro exI conjI)
    show "DeleteLastChild_interrupted [] [p_pid p] t = Done (u\<lparr>size3 := size_dec (size3 u)\<rparr>)"
      using sz l u(1) by (simp add: DeleteLastChild_interrupted_def size_dec_def del: HandleExitChild.simps(2))
    show "if es = [] then size3 (u\<lparr>size3 := size_dec (size3 u)\<rparr>) = 2 ^ 64 - 1 \<and> \<not> invar3 (u\<lparr>size3 := size_dec (size3 u)\<rparr>)
      else entries3 (u\<lparr>size3 := size_dec (size3 u)\<rparr>) = butlast es"
      using su shrink_size[OF u(2)] u(3) by (auto simp: size_dec_def invar3_def)
  qed (use u(4) in simp)
  assume "es = []"
  then have "load3 u (size_dec (size3 u)) = Faults" using su by (intro load3_outside) (simp add: size_dec_def)
  then show "DeleteLastChild_interrupted [p_pid p] [] t = Faults" using sz u(1) by (simp add: DeleteLastChild_interrupted_def del: HandleExitChild.simps(2))
qed

text \<open>Three children; the last one is deleted, its signal arrives at once, and the second is lost.\<close>

definition sample3 :: table3 where
  "sample3 = table_init\<lparr>slots3 := map (\<lambda>i. Some \<lparr>p_pid = int i + 11, p_name = ''C_'' @ dec02 i, p_running = False\<rparr>) [0..<3] @ replicate 5 None, size3 := 3\<rparr>"

theorem delete_interrupted_witness:
  "\<exists>u. DeleteLastChild_interrupted [] [13] sample3 = Done u \<and> map p_pid (entries3 u) = [11] \<and> signals u = [(13, SIGTERM)]"
proof -
  let ?p = "\<lambda>i. \<lparr>p_pid = int i + 11, p_name = ''C_'' @ dec02 i, p_running = False\<rparr>"
  have e: "entries3 sample3 = [?p 0, ?p 1] @ [?p 2]" by (simp add: entries3_def sample3_def upt_rec numeral_2_eq_2)
  have i: "invar3 sample3" by (auto simp: invar3_def sample3_def table_init_def CAPACITY_def)
  show ?thesis
    using delete_interrupted[OF i e] by (auto simp: sample3_def table_init_def)
qed

text \<open>
  A child that ends before the parent has entered it (for instance because \<open>execl\<close> fails) is waited
  for, but its entry is made afterwards and stays: later commands send signals to a process
  number that no longer belongs to a child.
\<close>

theorem create_interrupted:
  assumes "invar3 t" "pid \<noteq> -1" "pid \<notin> set (map p_pid (entries3 t))"
  shows "\<exists>u. CreateChild_interrupted [pid] False pid t = Done u \<and> invar3 u \<and> pid \<in> set (waited u) \<and> p_pid (last (entries3 u)) = pid \<and>
    (\<exists>v. DeleteLastChild u = Done v \<and> last (signals v) = (pid, SIGTERM))"
proof -
  obtain a where a: "HandleExitChild [pid] t = Done a" "invar3 a" "waited a = waited t @ [pid]"
    using HandleExitChild_ok[OF assms(1), of "[pid]"] by auto
  obtain u where u: "CreateChild False pid a = Done u" "invar3 u"
    "entries3 u = entries3 a @ [\<lparr>p_pid = pid, p_name = ''C_'' @ dec02 (length (entries3 a)), p_running = False\<rparr>]" "waited u = waited a"
    using CreateChild_ok[OF a(2) assms(2)] by auto
  then show ?thesis using a assms(2) DeleteLastChild_ok[OF u(2)] by (auto simp: CreateChild_interrupted_def)
qed

theorem create_interrupted_witness:
  "\<exists>u. CreateChild_interrupted [14] False 14 sample3 = Done u \<and> 14 \<in> set (waited u) \<and> p_pid (last (entries3 u)) = 14"
proof -
  have "invar3 sample3" "14 \<notin> set (map p_pid (entries3 sample3))"
    by (auto simp: invar3_def sample3_def table_init_def CAPACITY_def entries3_def upt_rec)
  then show ?thesis using create_interrupted[of sample3 14] by auto
qed

section \<open>Where the signals are harmless\<close>

text \<open>The handler of the requests of children commutes with every command: it only sends signals.\<close>

lemma HandleSignal_frame: "invar3 t \<Longrightarrow> invar3 (HandleSignal s p t) \<and> entries3 (HandleSignal s p t) = entries3 t"
  by (simp add: HandleSignal_def)

text \<open>
  The command k is safe: it blocks \<open>SIGCHLD\<close>, so the handler runs after it. Every child is sent
  \<open>SIGTERM\<close>, last first; whenever and in whatever order the children then exit, the handler
  waits for all of them and finds the table empty.
\<close>

theorem delete_all_safe:
  assumes "invar3 t" "set pids = set (map p_pid (entries3 t))"
  shows "\<exists>u v. DeleteAllChild t = Done u \<and> signals u = signals t @ map (\<lambda>p. (p_pid p, SIGTERM)) (rev (entries3 t)) \<and>
    HandleExitChild pids u = Done v \<and> entries3 v = [] \<and> waited v = waited t @ pids"
proof -
  have nil: "fold drop_pid ps [] = []" for ps by (induction ps) simp_all
  obtain u where u: "DeleteAllChild t = Done u" "invar3 u" "entries3 u = []" "waited u = waited t"
    "signals u = signals t @ map (\<lambda>p. (p_pid p, SIGTERM)) (rev (entries3 t))"
    using delete_loop_ok[OF assms(1) refl] by (auto simp: DeleteAllChild_def)
  then show ?thesis using HandleExitChild_ok[OF u(2), of pids] nil by auto
qed

end
