(* ===== verification/Trash.thy ===== *)
theory Trash
  imports C_Strings "HOL-Library.Sublist"
begin

text \<open>
  CourseWork: the interceptor of \<open>unlink\<close> and \<open>unlinkat\<close> (src/interceptor/trash_unlink.c) that moves files
  to a trash directory, and the commands list, restore and purge of trashctl (src/cli).

  The file system is a map from absolute paths without symbolic links to files and
  directories. The clock, the value of \<open>rand\<close>, the formatted time and the size \<open>stat\<close> gives a
  directory are parameters. Strings are cut where the sources format them into buffers.
\<close>

section \<open>The file system\<close>

datatype node = FileN string | DirN

type_synonym fs = "string \<rightharpoonup> node"

text \<open>\<open>dirname\<close> and \<open>basename\<close> of a path without a trailing slash.\<close>

definition base_of :: "string \<Rightarrow> string" where
  "base_of p = rev (takeWhile (\<lambda>c. c \<noteq> slash) (rev p))"

definition dir_of :: "string \<Rightarrow> string" where
  "dir_of p = (case dropWhile (\<lambda>c. c \<noteq> slash) (rev p) of [] \<Rightarrow> ''.'' | [_] \<Rightarrow> ''/'' | _ # d \<Rightarrow> rev d)"

definition under :: "string \<Rightarrow> string \<Rightarrow> bool" where
  "under d p \<longleftrightarrow> prefix (d @ [slash]) p"

definition fs_mkdir :: "string \<Rightarrow> fs \<Rightarrow> fs" where
  "fs_mkdir p fs = (if fs p = None \<and> fs (dir_of p) = Some DirN then fs(p \<mapsto> DirN) else fs)"

definition fs_moved :: "string \<Rightarrow> string \<Rightarrow> fs \<Rightarrow> fs" where
  "fs_moved src dst fs = (\<lambda>q.
     if q = dst then fs src
     else if under dst q then fs (src @ drop (length dst) q)
     else if q = src \<or> under src q then None
     else fs q)"

text \<open>
  \<open>rename\<close>: a file replaces a file, a directory needs a free name and cannot move below itself;
  \<open>None\<close> is an error.
\<close>

definition fs_rename :: "string \<Rightarrow> string \<Rightarrow> fs \<Rightarrow> fs option" where
  "fs_rename src dst fs =
     (case fs src of None \<Rightarrow> None
      | Some n \<Rightarrow>
          if fs (dir_of dst) \<noteq> Some DirN \<or> under src dst then None
          else if fs dst = None \<or> n \<noteq> DirN \<and> fs dst \<noteq> Some DirN
          then Some (fs_moved src dst fs)
          else None)"

definition real_unlink :: "string \<Rightarrow> fs \<Rightarrow> fs option" where
  "real_unlink p fs = (case fs p of Some (FileN c) \<Rightarrow> Some (fs(p := None)) | _ \<Rightarrow> None)"

definition fs_create :: "string \<Rightarrow> string \<Rightarrow> fs \<Rightarrow> fs option" where
  "fs_create p c fs = (if fs (dir_of p) = Some DirN \<and> fs p \<noteq> Some DirN then Some (fs(p \<mapsto> FileN c)) else None)"

section \<open>The interceptor\<close>

definition path_fmt :: "string \<Rightarrow> string" where
  "path_fmt s = snprintf PATH_MAX s"

definition get_trash_base :: "string option \<Rightarrow> string" where
  "get_trash_base env = (case env of Some b \<Rightarrow> b | None \<Rightarrow> ''.'')"

definition trash_root :: "string \<Rightarrow> string" where
  "trash_root base = path_fmt (base @ ''/.trash'')"

definition trash_files :: "string \<Rightarrow> string" where
  "trash_files base = path_fmt (base @ ''/.trash/files'')"

definition trash_info :: "string \<Rightarrow> string" where
  "trash_info base = path_fmt (base @ ''/.trash/info'')"

definition file_path :: "string \<Rightarrow> string \<Rightarrow> string" where
  "file_path base name = path_fmt (base @ ''/.trash/files/'' @ name)"

definition info_path :: "string \<Rightarrow> string \<Rightarrow> string" where
  "info_path base name = path_fmt (base @ ''/.trash/info/'' @ name @ ''.info'')"

definition ensure_directories :: "string \<Rightarrow> fs \<Rightarrow> fs" where
  "ensure_directories base fs =
     fs_mkdir (trash_info base) (fs_mkdir (trash_files base) (fs_mkdir (trash_root base) fs))"

text \<open>From the last dot on, unless it is the first character.\<close>

definition get_file_extension :: "string \<Rightarrow> string option" where
  "get_file_extension filename =
     (let after = takeWhile (\<lambda>c. c \<noteq> CHR ''.'') (rev filename)
      in if length after + 1 \<ge> length filename then None
         else Some (CHR ''.'' # rev after))"

definition dec05 :: "nat \<Rightarrow> string" where
  "dec05 r = replicate (5 - length (dec r)) (digit 0) @ dec r"

definition generate_unique_name :: "nat \<Rightarrow> nat \<Rightarrow> string \<Rightarrow> string" where
  "generate_unique_name now rnd orig_name =
     (let r = rnd mod 100000
      in take 255 (case get_file_extension orig_name of
           Some ext \<Rightarrow> dec now @ ''_'' @ dec05 r @ ext
         | None \<Rightarrow> dec now @ ''_'' @ dec05 r))"

definition info_text :: "string \<Rightarrow> string \<Rightarrow> nat \<Rightarrow> string" where
  "info_text orig_path timestr sz =
     ''original_path='' @ orig_path @ [newline] @ ''deleted_time='' @ timestr @ [newline] @ ''size='' @ dec sz @ [newline]"

definition write_info_file :: "string \<Rightarrow> string \<Rightarrow> string \<Rightarrow> string \<Rightarrow> nat \<Rightarrow> fs \<Rightarrow> fs" where
  "write_info_file base newname orig_path timestr sz fs =
     (case fs_create (info_path base newname) (info_text orig_path timestr sz) fs of None \<Rightarrow> fs | Some fs' \<Rightarrow> fs')"

record env =
  e_base :: "string option"
  e_now :: nat
  e_rand :: nat
  e_time :: string
  e_dirsize :: nat
  e_cwd :: string

definition st_size :: "env \<Rightarrow> node \<Rightarrow> nat" where
  "st_size e n = (case n of FileN c \<Rightarrow> length c | DirN \<Rightarrow> e_dirsize e)"

definition move_to_trash :: "env \<Rightarrow> string \<Rightarrow> fs \<Rightarrow> int \<times> fs" where
  "move_to_trash e abs_path fs =
     (let base = get_trash_base (e_base e);
          fs = ensure_directories base fs
      in case fs abs_path of None \<Rightarrow> (-1, fs)
         | Some n \<Rightarrow>
             if prefix (trash_root base) abs_path
             then (case real_unlink abs_path fs of Some fs' \<Rightarrow> (0, fs') | None \<Rightarrow> (-1, fs))
             else let newname = generate_unique_name (e_now e) (e_rand e) (base_of abs_path)
                  in case fs_rename abs_path (file_path base newname) fs of
                       None \<Rightarrow> (-1, fs)
                     | Some fs' \<Rightarrow> (0, write_info_file base newname abs_path (e_time e) (st_size e n) fs'))"

text \<open>
  \<open>dir\<close> is the directory behind a descriptor other than \<open>AT_FDCWD\<close>; \<open>None\<close> if it cannot be read.
  \<open>strncpy\<close> leaves a path of \<open>PATH_MAX\<close> bytes unterminated.
\<close>

datatype dirfd = AtFdCwd | Fd "string option"

definition build_abs_path :: "env \<Rightarrow> dirfd \<Rightarrow> string \<Rightarrow> string option outcome" where
  "build_abs_path e d pathname =
     (if pathname \<noteq> [] \<and> hd pathname = slash
      then if length pathname \<ge> PATH_MAX then Faults else Done (Some pathname)
      else case d of
             AtFdCwd \<Rightarrow> Done (Some (path_fmt (e_cwd e @ ''/'' @ pathname)))
           | Fd None \<Rightarrow> Done None
           | Fd (Some dir) \<Rightarrow> Done (Some (path_fmt (dir @ ''/'' @ pathname))))"

text \<open>The path the kernel resolves when the call is passed on.\<close>

definition kernel_path :: "env \<Rightarrow> dirfd \<Rightarrow> string \<Rightarrow> string" where
  "kernel_path e d p = (if p \<noteq> [] \<and> hd p = slash then p
     else case d of Fd (Some dir) \<Rightarrow> dir @ ''/'' @ p | _ \<Rightarrow> e_cwd e @ ''/'' @ p)"

definition pass_on :: "string \<Rightarrow> fs \<Rightarrow> int \<times> fs" where
  "pass_on p fs = (case real_unlink p fs of Some fs' \<Rightarrow> (0, fs') | None \<Rightarrow> (-1, fs))"

definition unlink_at :: "env \<Rightarrow> dirfd \<Rightarrow> string \<Rightarrow> fs \<Rightarrow> (int \<times> fs) outcome" where
  "unlink_at e d pathname fs =
     obind (build_abs_path e d pathname) (\<lambda>a.
     case a of None \<Rightarrow> Done (pass_on (kernel_path e d pathname) fs)
     | Some abs_path \<Rightarrow>
         (case move_to_trash e abs_path fs of (ret, fs') \<Rightarrow>
            if ret = 0 then Done (0, fs') else Done (pass_on (kernel_path e d pathname) fs')))"

definition unlink :: "env \<Rightarrow> string \<Rightarrow> fs \<Rightarrow> (int \<times> fs) outcome" where
  "unlink e pathname fs = unlink_at e AtFdCwd pathname fs"

text \<open>With \<open>AT_REMOVEDIR\<close> the call goes to the kernel: an empty directory is removed.\<close>

definition rmdir_at :: "string \<Rightarrow> fs \<Rightarrow> int \<times> fs" where
  "rmdir_at p fs = (if fs p = Some DirN \<and> (\<forall>q. under p q \<longrightarrow> fs q = None) then (0, fs(p := None)) else (-1, fs))"

definition unlinkat :: "env \<Rightarrow> dirfd \<Rightarrow> string \<Rightarrow> bool \<Rightarrow> fs \<Rightarrow> (int \<times> fs) outcome" where
  "unlinkat e d pathname removedir fs =
     (if removedir then Done (rmdir_at (kernel_path e d pathname) fs) else unlink_at e d pathname fs)"

section \<open>trashctl\<close>

text \<open>The lines \<open>fgets\<close> delivers with a buffer of 256 bytes.\<close>

function file_lines :: "string \<Rightarrow> string list" where
  "file_lines inp = (case fgets 256 inp of None \<Rightarrow> [] | Some (l, r) \<Rightarrow> l # file_lines r)"
  by pat_completeness auto
termination
  by (relation "measure length") (auto dest!: fgets_split(3))

declare file_lines.simps [simp del]

text \<open>\<open>sscanf(line, "key%[^\n]", ...) == 1\<close> and \<open>sscanf(line, "size=%ld", ...) == 1\<close>\<close>

definition scan_field :: "string \<Rightarrow> string \<Rightarrow> string option" where
  "scan_field key line =
     (if prefix key line
      then let v = takeWhile (\<lambda>c. c \<noteq> newline \<and> c \<noteq> NUL) (drop (length key) line)
           in if v = [] then None else Some v
      else None)"

definition scan_size :: "string \<Rightarrow> int option" where
  "scan_size line =
     (if prefix ''size='' line
      then let v = dropWhile is_space (drop 5 line);
               neg = (v \<noteq> [] \<and> hd v = CHR ''-'');
               w = (if v \<noteq> [] \<and> (hd v = CHR ''-'' \<or> hd v = CHR ''+'') then tl v else v)
           in if w \<noteq> [] \<and> digit_val (hd w) \<noteq> None
              then Some (clamp_long (if neg then - int (read_digits 0 w) else int (read_digits 0 w)))
              else None
      else None)"

fun first_original :: "string list \<Rightarrow> string" where
  "first_original [] = []"
| "first_original (l # ls) = (case scan_field ''original_path='' l of Some v \<Rightarrow> v | None \<Rightarrow> first_original ls)"

definition cmd_restore :: "string \<Rightarrow> string \<Rightarrow> fs \<Rightarrow> int \<times> fs" where
  "cmd_restore base ident fs =
     (case fs (info_path base ident) of
        Some (FileN txt) \<Rightarrow>
          let original = first_original (file_lines txt)
          in if original = [] then (1, fs)
             else if fs (dir_of original) = None then (1, fs)
             else (case fs_rename (file_path base ident) original fs of
                     None \<Rightarrow> (1, fs)
                   | Some fs' \<Rightarrow> (0, snd (pass_on (info_path base ident) fs')))
      | _ \<Rightarrow> (1, fs))"

text \<open>The identifier of an entry of the info directory: the buffer has 64 bytes. \<open>None\<close> skips the entry.\<close>

definition entry_id :: "string \<Rightarrow> string option outcome" where
  "entry_id d_name =
     (let len = length d_name
      in if len < 6 \<or> drop (len - 5) d_name \<noteq> ''.info'' then Done None
         else if len - 5 \<ge> 64 then Faults
         else Done (Some (take (len - 5) d_name)))"

fun scan_info :: "string list \<Rightarrow> string \<times> string \<times> int \<Rightarrow> (string \<times> string \<times> int) outcome" where
  "scan_info [] acc = Done acc"
| "scan_info (l # ls) (original, deleted, sz) =
     (case scan_field ''original_path='' l of Some v \<Rightarrow> scan_info ls (v, deleted, sz)
      | None \<Rightarrow>
          case scan_field ''deleted_time='' l of
            Some v \<Rightarrow> if length v \<ge> 32 then Faults else scan_info ls (original, v, sz)
          | None \<Rightarrow>
              case scan_size l of Some n \<Rightarrow> scan_info ls (original, deleted, n)
              | None \<Rightarrow> scan_info ls (original, deleted, sz))"

text \<open>
  \<open>names\<close> is what \<open>readdir\<close> delivers. A row is identifier, time, size and original path. A directory can
  be opened but delivers no line.
\<close>

fun list_rows_trash :: "string \<Rightarrow> fs \<Rightarrow> string list \<Rightarrow> (string \<times> string \<times> int \<times> string) list outcome" where
  "list_rows_trash base fs [] = Done []"
| "list_rows_trash base fs (nm # names) =
     obind (entry_id nm) (\<lambda>i.
     case i of None \<Rightarrow> list_rows_trash base fs names
     | Some ident \<Rightarrow>
         (case fs (trash_info base @ ''/'' @ nm) of
            None \<Rightarrow> list_rows_trash base fs names
          | Some n \<Rightarrow>
              obind (scan_info (case n of FileN txt \<Rightarrow> file_lines txt | DirN \<Rightarrow> []) ([], [], 0)) (\<lambda>(original, deleted, sz).
              obind (list_rows_trash base fs names) (\<lambda>rows. Done ((ident, deleted, sz, original) # rows)))))"

definition cmd_list :: "string \<Rightarrow> fs \<Rightarrow> string list \<Rightarrow> (int \<times> (string \<times> string \<times> int \<times> string) list) outcome" where
  "cmd_list base fs names =
     (if fs (trash_info base) \<noteq> Some DirN then Done (1, [])
      else obind (list_rows_trash base fs names) (\<lambda>rows. Done (0, rows)))"

text \<open>\<open>remove_tree\<close> deletes everything below, then the directory.\<close>

definition remove_tree :: "string \<Rightarrow> fs \<Rightarrow> fs" where
  "remove_tree p fs = (\<lambda>q. if q = p \<or> under p q then None else fs q)"

definition cmd_purge :: "string \<Rightarrow> string \<Rightarrow> fs \<Rightarrow> int \<times> fs" where
  "cmd_purge base ident fs =
     (let (ok1, fs) =
            (case fs (file_path base ident) of
               None \<Rightarrow> (0 :: nat, fs)
             | Some DirN \<Rightarrow> (1, remove_tree (file_path base ident) fs)
             | Some (FileN c) \<Rightarrow> (case pass_on (file_path base ident) fs of (r, fs') \<Rightarrow> (if r = 0 then 1 else 0, fs')));
          (ok2, fs) = (case pass_on (info_path base ident) fs of (r, fs') \<Rightarrow> (if r = 0 then 1 else 0, fs'))
      in (if ok1 + ok2 = 2 then 0 else 1, fs))"

fun purge_loop :: "string \<Rightarrow> string list \<Rightarrow> int \<Rightarrow> fs \<Rightarrow> (int \<times> fs) outcome" where
  "purge_loop base [] status fs = Done (status, fs)"
| "purge_loop base (nm # names) status fs =
     obind (entry_id nm) (\<lambda>i.
     case i of None \<Rightarrow> purge_loop base names status fs
     | Some ident \<Rightarrow> (case cmd_purge base ident fs of (r, fs') \<Rightarrow>
         purge_loop base names (if r \<noteq> 0 then 1 else status) fs'))"

definition cmd_purge_all :: "string \<Rightarrow> string list \<Rightarrow> fs \<Rightarrow> (int \<times> fs) outcome" where
  "cmd_purge_all base names fs =
     (if fs (trash_info base) \<noteq> Some DirN then Done (1, fs) else purge_loop base names 0 fs)"

section \<open>Paths\<close>

lemma dir_of_join: "slash \<notin> set x \<Longrightarrow> d \<noteq> [] \<Longrightarrow> dir_of (d @ slash # x) = d"
proof -
  assume x: "slash \<notin> set x" and d: "d \<noteq> []"
  then have "dropWhile (\<lambda>c. c \<noteq> slash) (rev (d @ slash # x)) = slash # rev d"
    by (auto simp: dropWhile_append)
  moreover obtain c r where "rev d = c # r" using d by (cases "rev d") auto
  ultimately show ?thesis by (simp add: dir_of_def)
qed

lemma slash_base_of: "slash \<notin> set (base_of p)"
  by (auto simp: base_of_def dest: set_takeWhileD)

lemma under_join: "under p (d @ slash # x) \<Longrightarrow> slash \<notin> set x \<Longrightarrow> p = d \<or> under p d"
proof -
  assume "under p (d @ slash # x)" and x: "slash \<notin> set x"
  then obtain r where "(p @ [slash]) @ r = d @ (slash # x)" by (auto simp: under_def prefix_def)
  then consider us where "p @ [slash] = d @ us" "us @ r = slash # x" | us where "(p @ [slash]) @ us = d"
    by (metis append_eq_append_conv2)
  then show ?thesis
  proof cases
    case 1
    show ?thesis
    proof (cases us)
      case Nil
      then show ?thesis using 1(1) by (auto simp: under_def prefix_def)
    next
      case (Cons c vs)
      then have c: "c = slash" "vs @ r = x" using 1(2) by simp_all
      show ?thesis
      proof (cases "vs = []")
        case True
        then show ?thesis using 1(1) Cons c by simp
      next
        case False
        then have "last (p @ [slash]) = last vs" using 1(1) Cons by simp
        then have "slash \<in> set x" using False c(2) by (metis Un_iff last_in_set last_snoc set_append)
        then show ?thesis using x by simp
      qed
    qed
  next
    case 2
    then show ?thesis by (auto simp: under_def prefix_def)
  qed
qed

definition leaf :: "fs \<Rightarrow> string \<Rightarrow> bool" where
  "leaf fs p \<longleftrightarrow> (\<forall>q. under p q \<longrightarrow> fs q = None)"

lemma fs_moved_leaf:
  assumes "leaf fs src" "leaf fs dst" "src \<noteq> dst"
  shows "fs_moved src dst fs = fs(src := None, dst := fs src)"
proof
  fix q
  show "fs_moved src dst fs q = (fs(src := None, dst := fs src)) q"
  proof (cases "under dst q")
    case True
    then obtain r where q: "q = dst @ slash # r" by (auto simp: under_def prefix_def)
    then have "under src (src @ drop (length dst) q)" by (simp add: under_def)
    then have "fs (src @ drop (length dst) q) = None" "fs q = None" using assms(1,2) True by (simp_all add: leaf_def)
    then show ?thesis using True q by (auto simp: fs_moved_def under_def)
  next
    case False
    then show ?thesis using assms by (auto simp: fs_moved_def leaf_def)
  qed
qed

text \<open>Names in the trash contain no slash and the paths made from them are not cut.\<close>

lemma set_dec05: "c \<in> set (dec05 r) \<Longrightarrow> \<exists>d < 10. c = digit d"
  unfolding dec05_def using set_dec[of c r] by (auto intro: exI[of _ 0])

lemma extension_chars: "get_file_extension f = Some ext \<Longrightarrow> set ext \<subseteq> insert CHR ''.'' (set f)"
  using set_takeWhileD by (fastforce simp: get_file_extension_def Let_def split: if_splits)

lemma unique_name_slash: "slash \<notin> set f \<Longrightarrow> slash \<notin> set (generate_unique_name now r f)"
proof -
  assume f: "slash \<notin> set f"
  have "slash \<notin> set (dec n)" "slash \<notin> set (dec05 n)" for n
    by (auto dest!: set_dec set_dec05) (metis digit_neq(3))+
  then show ?thesis
    using f extension_chars[of f] by (fastforce simp: generate_unique_name_def Let_def dest!: in_set_takeD split: option.splits)
qed

lemma unique_name_length: "length (generate_unique_name now r f) \<le> 255"
  by (simp add: generate_unique_name_def Let_def)

definition trash_ready :: "string \<Rightarrow> fs \<Rightarrow> bool" where
  "trash_ready base fs \<longleftrightarrow> base \<noteq> [] \<and> length base \<le> 3800 \<and>
     fs (trash_root base) = Some DirN \<and> fs (trash_files base) = Some DirN \<and> fs (trash_info base) = Some DirN"

lemma trash_paths:
  assumes "trash_ready base fs" "length n \<le> 255"
  shows "file_path base n = trash_files base @ slash # n" "info_path base n = trash_info base @ slash # n @ ''.info''"
    "trash_files base \<noteq> []" "trash_info base \<noteq> []"
    "trash_files base = base @ ''/.trash/files''" "trash_info base = base @ ''/.trash/info''" "trash_root base = base @ ''/.trash''"
proof -
  have b: "base \<noteq> []" "length base \<le> 3800" using assms(1) by (simp_all add: trash_ready_def)
  have short: "path_fmt (base @ x) = base @ x" if "length x \<le> 290" for x using b(2) that by (simp add: path_fmt_def snprintf_def)
  show "trash_files base = base @ ''/.trash/files''" "trash_info base = base @ ''/.trash/info''" "trash_root base = base @ ''/.trash''"
    by (simp_all add: trash_files_def trash_info_def trash_root_def short)
  then show "file_path base n = trash_files base @ slash # n" "info_path base n = trash_info base @ slash # n @ ''.info''"
    "trash_files base \<noteq> []" "trash_info base \<noteq> []"
    using assms(2) b(1) by (simp_all add: file_path_def info_path_def short)
qed

lemma ensure_ready: "trash_ready base fs \<Longrightarrow> ensure_directories base fs = fs"
  by (simp add: ensure_directories_def fs_mkdir_def trash_ready_def)

lemma trash_dirs:
  assumes "trash_ready base fs" "length n \<le> 255" "slash \<notin> set n"
  shows "dir_of (file_path base n) = trash_files base" "dir_of (info_path base n) = trash_info base"
    "file_path base n \<noteq> info_path base n"
proof -
  note tp = trash_paths[OF assms(1,2)]
  show "dir_of (file_path base n) = trash_files base" "dir_of (info_path base n) = trash_info base"
    using dir_of_join[of n "trash_files base"] dir_of_join[of "n @ ''.info''" "trash_info base"] assms(3) tp(1-4) by simp_all
  then show "file_path base n \<noteq> info_path base n" using tp(5,6) by auto
qed

section \<open>The info file\<close>

lemma original_short:
  assumes "newline \<notin> set p" "NUL \<notin> set p" "p \<noteq> []" "length p \<le> 240"
  shows "first_original (file_lines (info_text p t sz)) = p"
proof -
  have tw: "takeWhile (\<lambda>c. c \<noteq> newline \<and> c \<noteq> NUL) (p @ [newline]) = p" using assms(1,2) by (auto simp: takeWhile_append)
  obtain rest where e: "info_text p t sz = (''original_path='' @ p) @ newline # rest" by (simp add: info_text_def)
  have f: "fgets 256 ((''original_path='' @ p) @ newline # rest) = Some ((''original_path='' @ p) @ [newline], rest)"
    using assms by (intro fgets_newline) auto
  have "file_lines (info_text p t sz) = ((''original_path='' @ p) @ [newline]) # file_lines rest"
    unfolding e by (subst file_lines.simps) (simp only: f option.case prod.case)
  moreover have "scan_field ''original_path='' ((''original_path='' @ p) @ [newline]) = Some p"
    using tw assms(3) by (simp add: scan_field_def)
  ultimately show ?thesis by simp
qed

lemma line_of_full: "newline \<notin> set (take n s) \<Longrightarrow> n \<le> length s \<Longrightarrow> line_of n s = (take n s, drop n s)"
  by (induction n s rule: line_of.induct) auto

text \<open>
  An original path of more than 240 bytes cannot be restored: the line buffer of
  \<open>cmd_restore\<close> (and of \<open>cmd_list\<close>) has 256 bytes, so only the first 241 bytes of the path that the
  interceptor recorded are read back. Shorter paths are read back exactly.
\<close>

theorem info_path_cut_at_241:
  assumes "newline \<notin> set p" "NUL \<notin> set p" "p \<noteq> []"
  shows "first_original (file_lines (info_text p t sz)) = (if length p \<le> 240 then p else take 241 p)"
proof (cases "length p \<le> 240")
  case True
  then show ?thesis using original_short[OF assms] by simp
next
  case False
  let ?s = "info_text p t sz" and ?k = "''original_path=''"
  have t: "take 255 ?s = ?k @ take 241 p" using False by (simp add: info_text_def)
  have "newline \<notin> set (take 255 ?s)" unfolding t using assms(1) by (auto dest: in_set_takeD)
  moreover have "255 \<le> length ?s" using False by (simp add: info_text_def)
  ultimately have "fgets 256 ?s = Some (?k @ take 241 p, drop 255 ?s)"
    using line_of_full[of 255 ?s] t by (auto simp: fgets_def info_text_def)
  moreover have "scan_field ?k (?k @ take 241 p) = Some (take 241 p)"
  proof -
    have "takeWhile (\<lambda>c. c \<noteq> newline \<and> c \<noteq> NUL) (take 241 p) = take 241 p"
      using assms(1,2) by (auto simp: takeWhile_eq_all_conv dest: in_set_takeD)
    moreover have "take 241 p \<noteq> []" using assms(3) by (cases p) auto
    moreover have "scan_field ?k (?k @ v) = (let w = takeWhile (\<lambda>c. c \<noteq> newline \<and> c \<noteq> NUL) v in if w = [] then None else Some w)" for v
      by (simp add: scan_field_def)
    ultimately show ?thesis by (simp only: Let_def if_False)
  qed
  ultimately show ?thesis using False by (subst file_lines.simps) simp
qed

theorem info_path_cut_at_241_witness:
  "first_original (file_lines (info_text (replicate 300 CHR ''a'') ''t'' 0)) = replicate 241 CHR ''a''"
  using info_path_cut_at_241[of "replicate 300 CHR ''a''" "''t''" 0] by simp

section \<open>Moving to the trash and back\<close>

text \<open>A deletable file: absolute, below no trash directory, with nothing below it.\<close>

definition deletable :: "string \<Rightarrow> string \<Rightarrow> string \<Rightarrow> fs \<Rightarrow> bool" where
  "deletable base p c fs \<longleftrightarrow> fs p = Some (FileN c) \<and> p \<noteq> [] \<and> hd p = slash \<and> length p < PATH_MAX \<and>
     \<not> prefix (trash_root base) p \<and> leaf fs p"

definition free_entry :: "string \<Rightarrow> string \<Rightarrow> fs \<Rightarrow> bool" where
  "free_entry base n fs \<longleftrightarrow> fs (file_path base n) = None \<and> leaf fs (file_path base n) \<and> fs (info_path base n) = None"

abbreviation entry_name :: "env \<Rightarrow> string \<Rightarrow> string" where
  "entry_name e p \<equiv> generate_unique_name (e_now e) (e_rand e) (base_of p)"

lemma entry_name_ok: "length (entry_name e p) \<le> 255" "slash \<notin> set (entry_name e p)"
  by (simp_all add: unique_name_length unique_name_slash slash_base_of)

text \<open>What \<open>unlink\<close> does to a deletable file, whether or not the entry's name is in use by a file.\<close>

lemma unlink_moves:
  assumes "trash_ready base fs" "base = get_trash_base (e_base e)" "deletable base p c fs"
    and "n = entry_name e p" "fs (file_path base n) \<noteq> Some DirN" "leaf fs (file_path base n)" "fs (info_path base n) \<noteq> Some DirN"
  shows "unlink e p fs = Done (0, fs(p := None, file_path base n \<mapsto> FileN c,
    info_path base n \<mapsto> FileN (info_text p (e_time e) (length c))))"
proof -
  let ?d = "file_path base n" and ?i = "info_path base n"
  have n: "length n \<le> 255" "slash \<notin> set n" using entry_name_ok assms(4) by simp_all
  note dirs = trash_dirs[OF assms(1) n]
  have p: "fs p = Some (FileN c)" "leaf fs p" "\<not> prefix (trash_root base) p" "p \<noteq> []" "hd p = slash" "length p < PATH_MAX"
    using assms(3) by (auto simp: deletable_def)
  have pre: "prefix (trash_root base) ?d" "prefix (trash_root base) ?i"
    using trash_paths[OF assms(1) n(1)] by (auto simp: prefix_def)
  have ne: "p \<noteq> ?d" "p \<noteq> ?i" "p \<noteq> trash_files base" "p \<noteq> trash_info base"
    using p(1,3) pre assms(1) by (auto simp: trash_ready_def)
  have "\<not> under p (trash_files base @ slash # n)"
    using under_join[OF _ n(2), of p "trash_files base"] p(1,2) assms(1) by (auto simp: leaf_def trash_ready_def)
  then have ren: "fs_rename p ?d fs = Some (fs(p := None, ?d \<mapsto> FileN c))"
    using trash_paths(1)[OF assms(1) n(1)] p(1) dirs(1) assms(1,5) fs_moved_leaf[OF p(2) assms(6) ne(1)]
    by (auto simp: fs_rename_def trash_ready_def)
  have "fs_create ?i (info_text p (e_time e) (length c)) (fs(p := None, ?d \<mapsto> FileN c)) =
      Some (fs(p := None, ?d \<mapsto> FileN c, ?i \<mapsto> FileN (info_text p (e_time e) (length c))))"
    using dirs assms(1,7) ne trash_paths[OF assms(1) n(1)] by (auto simp: fs_create_def trash_ready_def)
  then have "move_to_trash e p fs = (0, fs(p := None, ?d \<mapsto> FileN c, ?i \<mapsto> FileN (info_text p (e_time e) (length c))))"
    using ensure_ready[OF assms(1)] assms(2,4) p ren
    by (simp add: move_to_trash_def Let_def write_info_file_def st_size_def)
  then show ?thesis using p by (simp add: unlink_def unlink_at_def build_abs_path_def)
qed

text \<open>A file system with an empty trash below \<open>/t\<close> and two files, and an environment that uses it.\<close>

definition sample_fs :: fs where
  "sample_fs = map_of [(''/'', DirN), (''/t'', DirN), (''/t/.trash'', DirN), (''/t/.trash/files'', DirN),
     (''/t/.trash/info'', DirN), (''/a.c'', FileN ''one''), (''/b.c'', FileN ''two'')]"

definition sample_env :: env where
  "sample_env = \<lparr>e_base = Some ''/t'', e_now = 17, e_rand = 38383, e_time = ''now'', e_dirsize = 4096, e_cwd = ''/''\<rparr>"

lemma leaf_map_of: "list_all (\<lambda>(q, _). \<not> under p q) kvs \<Longrightarrow> leaf (map_of kvs) p"
  by (auto simp: leaf_def list_all_iff map_of_eq_None_iff)

lemma sample_digits: "dec 17 = ''17''" "dec05 38383 = ''38383''"
  by (simp_all add: dec05_def dec.simps digit_def char_of_def bit_0)

lemma sample_name: "entry_name sample_env ''/a.c'' = ''17_38383.c''" "entry_name sample_env ''/b.c'' = ''17_38383.c''"
  by (simp_all add: sample_env_def generate_unique_name_def base_of_def get_file_extension_def sample_digits)

lemma sample_paths: "trash_root ''/t'' = ''/t/.trash''" "trash_files ''/t'' = ''/t/.trash/files''"
  "trash_info ''/t'' = ''/t/.trash/info''" "file_path ''/t'' ''17_38383.c'' = ''/t/.trash/files/17_38383.c''"
  "info_path ''/t'' ''17_38383.c'' = ''/t/.trash/info/17_38383.c.info''"
  by code_simp+

lemma sample_leaf: "leaf sample_fs ''/t/.trash/files/17_38383.c''" "leaf sample_fs ''/a.c''" "leaf sample_fs ''/b.c''"
  unfolding sample_fs_def by (rule leaf_map_of, code_simp)+

lemma sample_ready: "trash_ready ''/t'' sample_fs" "free_entry ''/t'' ''17_38383.c'' sample_fs"
  "deletable ''/t'' ''/a.c'' ''one'' sample_fs" "deletable ''/t'' ''/b.c'' ''two'' sample_fs"
  unfolding trash_ready_def free_entry_def deletable_def sample_paths
  using sample_leaf by (simp_all add: sample_fs_def)



text \<open>
  Deleting for good: after \<open>unlink\<close> moved a file to the trash, \<open>cmd_purge\<close> of its entry succeeds
  and removes both the stored content and the info file; what is left is the file system
  before the deletion without the file.
\<close>

theorem purge_completes_unlink:
  assumes "trash_ready base fs" "base = get_trash_base (e_base e)" "deletable base p c fs" "n = entry_name e p" "free_entry base n fs"
  shows "\<exists>fs1. unlink e p fs = Done (0, fs1) \<and> cmd_purge base n fs1 = (0, fs(p := None))"
proof -
  let ?d = "file_path base n" and ?i = "info_path base n"
  have n: "length n \<le> 255" "slash \<notin> set n" using entry_name_ok assms(4) by simp_all
  note dirs = trash_dirs[OF assms(1) n]
  have fr: "fs ?d = None" "leaf fs ?d" "fs ?i = None" using assms(5) by (auto simp: free_entry_def)
  have "p \<noteq> ?d" "p \<noteq> ?i" using assms(3) fr by (auto simp: deletable_def)
  then have "cmd_purge base n (fs(p := None, ?d \<mapsto> FileN c, ?i \<mapsto> FileN x)) = (0, fs(p := None))" for x
    using dirs(3) fr by (auto simp: cmd_purge_def pass_on_def real_unlink_def fun_eq_iff)
  then show ?thesis using unlink_moves[OF assms(1-4)] fr by auto
qed

theorem purge_completes_unlink_witness:
  "\<exists>fs1. unlink sample_env ''/a.c'' sample_fs = Done (0, fs1) \<and> cmd_purge ''/t'' ''17_38383.c'' fs1 = (0, sample_fs(''/a.c'' := None))"
proof (rule purge_completes_unlink[where c = "''one''"])
  show "''/t'' = get_trash_base (e_base sample_env)" by (simp add: sample_env_def get_trash_base_def)
qed (simp_all add: sample_ready sample_name)

text \<open>
  Two deletions can get the same name in the trash, when they happen in the same second, draw
  the same random number and the files have the same extension. The second then silently
  replaces the first in the trash: the first file is neither at its place nor in the trash.
\<close>

theorem unlink_collision_loses_file:
  assumes "trash_ready base fs" "base = get_trash_base (e_base e)" "deletable base p c fs" "deletable base p' c' fs" "p \<noteq> p'"
    and "entry_name e p = n" "entry_name e p' = n" "free_entry base n fs"
  shows "\<exists>fs1 fs2. unlink e p fs = Done (0, fs1) \<and> unlink e p' fs1 = Done (0, fs2) \<and>
    fs2 p = None \<and> fs2 (file_path base n) = Some (FileN c') \<and>
    (\<forall>q. q \<noteq> file_path base n \<and> q \<noteq> info_path base n \<longrightarrow> fs2 q = None \<or> fs2 q = fs q)"
proof -
  let ?d = "file_path base n" and ?i = "info_path base n"
  let ?fs = "fs(p := None, ?d \<mapsto> FileN c, ?i \<mapsto> FileN (info_text p (e_time e) (length c)))"
  have n: "length n \<le> 255" "slash \<notin> set n" using entry_name_ok assms(6) by auto
  note tp = trash_paths[OF assms(1) n(1)] and dirs = trash_dirs[OF assms(1) n]
  have fr: "fs ?d = None" "leaf fs ?d" "fs ?i = None" using assms(8) by (auto simp: free_entry_def)
  have p: "fs p = Some (FileN c)" "fs p' = Some (FileN c')" "leaf fs p'" using assms(3,4) by (auto simp: deletable_def)
  have ne: "p \<noteq> ?d" "p \<noteq> ?i" "p' \<noteq> ?d" "p' \<noteq> ?i" using p fr by auto
  have un: "unlink e p fs = Done (0, ?fs)" using unlink_moves[OF assms(1-3) assms(6)[symmetric]] fr by simp
  have "\<not> under p' (d @ slash # x)" if "fs d = Some DirN" "slash \<notin> set x" for d x
    using under_join[OF _ that(2), of p' d] that(1) p by (auto simp: leaf_def)
  then have up: "\<not> under p' ?d" "\<not> under p' ?i" using n(2) assms(1) tp(1,2) by (auto simp: trash_ready_def)
  have ud: "\<not> under ?d ?i"
    using under_join[of ?d "trash_info base" "n @ ''.info''"] n(2) tp by (auto simp: under_def prefix_def)
  have "trash_ready base ?fs" using assms(1) p fr by (auto simp: trash_ready_def)
  moreover have "deletable base p' c' ?fs" using assms(4,5) p ne up by (auto simp: deletable_def leaf_def)
  moreover have "leaf ?fs ?d" using fr(2) ud by (auto simp: leaf_def under_def)
  ultimately have "unlink e p' ?fs = Done (0, ?fs(p' := None, ?d \<mapsto> FileN c', ?i \<mapsto> FileN (info_text p' (e_time e) (length c'))))"
    using unlink_moves[OF _ assms(2) _ assms(7)[symmetric], of ?fs c'] dirs(3) by auto
  then show ?thesis using un ne dirs(3) by (intro exI conjI) (assumption | simp)+
qed

theorem unlink_collision_loses_file_witness:
  "\<exists>fs1 fs2. unlink sample_env ''/a.c'' sample_fs = Done (0, fs1) \<and> unlink sample_env ''/b.c'' fs1 = Done (0, fs2) \<and>
    fs2 ''/a.c'' = None \<and> fs2 (file_path ''/t'' ''17_38383.c'') = Some (FileN ''two'') \<and>
    (\<forall>q. q \<noteq> file_path ''/t'' ''17_38383.c'' \<and> q \<noteq> info_path ''/t'' ''17_38383.c'' \<longrightarrow> fs2 q = None \<or> fs2 q = sample_fs q)"
proof (rule unlink_collision_loses_file[where c = "''one''"])
  show "''/t'' = get_trash_base (e_base sample_env)" by (simp add: sample_env_def get_trash_base_def)
qed (simp_all add: sample_ready sample_name)

end
