(* ===== verification/Browser.thy ===== *)
theory Browser
  imports Trash
begin

text \<open>
  CourseWork/src/cli/browser.c: the two-panel browser of files and trash. The state is the mode, the
  highlighted index, the scroll offset, the current directory, the size of the screen and the
  message in the status line; a key is a function on this state and the file system of theory
  \<open>Trash\<close>. What is drawn is a value: the rows of the list, the lines of the info panel.

  The last definition is \<open>main\<close> of trashctl (cli/main.c), which starts the browser or one of the commands
  of \<open>Trash\<close>.

  The order in which \<open>readdir\<close> delivers entries and what \<open>stat\<close> finds behind a path that may contain
  \<open>.\<close> and \<open>..\<close> are parameters (\<open>bos\<close>).
\<close>

section \<open>Entries of the trash\<close>

record bos =
  b_readdir :: "fs \<Rightarrow> string \<Rightarrow> string list option"
  b_stat :: "fs \<Rightarrow> string \<Rightarrow> node option"

abbreviation NAME_MAX :: nat where "NAME_MAX \<equiv> 255"

datatype browse_mode = MODE_FS | MODE_TRASH

record browser_entry =
  be_id :: string
  be_disp :: string
  be_is_dir :: bool

definition cmp_entry :: "browser_entry \<Rightarrow> browser_entry \<Rightarrow> int" where
  "cmp_entry ea eb =
     (if be_is_dir ea \<noteq> be_is_dir eb then (if be_is_dir eb then 1 else 0) - (if be_is_dir ea then 1 else 0)
      else strcasecmp (be_disp ea) (be_disp eb))"

text \<open>
  \<open>strncpy(disp, src, NAME_MAX)\<close>, then the newline is replaced. A source of \<open>NAME_MAX\<close> bytes or more
  leaves the buffer, which is fresh memory, without a terminator.
\<close>

definition copy_disp :: "string \<Rightarrow> string outcome" where
  "copy_disp src =
     (let b = take NAME_MAX src
      in if newline \<in> set b then Done (takeWhile (\<lambda>c. c \<noteq> newline) b)
         else if length src < NAME_MAX then Done src
         else Faults)"

function path_lines :: "string \<Rightarrow> string list" where
  "path_lines inp = (case fgets PATH_MAX inp of None \<Rightarrow> [] | Some (l, r) \<Rightarrow> l # path_lines r)"
  by pat_completeness auto
termination
  by (relation "measure length") (auto dest!: fgets_split(3))

declare path_lines.simps [simp del]

fun find_disp :: "string list \<Rightarrow> string outcome" where
  "find_disp [] = Done []"
| "find_disp (line # lines) =
     (if prefix ''original_path='' (c_string line) then copy_disp (base_of (drop 14 (c_string line))) else find_disp lines)"

definition info_lines :: "fs \<Rightarrow> string \<Rightarrow> string list option" where
  "info_lines fs path = (case fs path of None \<Rightarrow> None | Some (FileN t) \<Rightarrow> Some (path_lines t) | Some DirN \<Rightarrow> Some [])"

definition trash_entry :: "fs \<Rightarrow> string \<Rightarrow> string \<Rightarrow> browser_entry outcome" where
  "trash_entry fs base name =
     obind (case info_lines fs (snprintf PATH_MAX (trash_info base @ ''/'' @ name @ ''.info'')) of
              None \<Rightarrow> Done [] | Some ls \<Rightarrow> find_disp ls) (\<lambda>disp.
     Done \<lparr>be_id = take NAME_MAX name, be_disp = disp,
       be_is_dir = (fs (snprintf PATH_MAX (trash_files base @ ''/'' @ name)) = Some DirN)\<rparr>)"

definition is_dot :: "string \<Rightarrow> bool" where
  "is_dot n \<longleftrightarrow> n = ''.'' \<or> n = ''..''"

fun trash_entries :: "fs \<Rightarrow> string \<Rightarrow> string list \<Rightarrow> browser_entry list outcome" where
  "trash_entries fs base [] = Done []"
| "trash_entries fs base (n # ns) =
     (if is_dot n then trash_entries fs base ns
      else obind (trash_entry fs base n) (\<lambda>e. obind (trash_entries fs base ns) (\<lambda>es. Done (e # es))))"

definition build_trash_entries :: "bos \<Rightarrow> fs \<Rightarrow> string \<Rightarrow> browser_entry list outcome" where
  "build_trash_entries os fs base =
     (case b_readdir os fs (trash_files base) of
        None \<Rightarrow> Done []
      | Some names \<Rightarrow> obind (trash_entries fs base names) (\<lambda>arr. Done (qsort_cmp cmp_entry arr)))"

section \<open>The screen\<close>

record browser =
  b_base :: string
  b_mode :: browse_mode
  b_highlight :: int
  b_scroll :: int
  b_cwd :: string
  b_rows :: int
  b_cols :: int
  b_panel :: int
  b_feedback :: string

definition panel_width :: "int \<Rightarrow> int" where
  "panel_width cols = (let w = cols div 3; w = (if w < 20 then 20 else w) in if w > 60 then 60 else w)"

definition visible_items :: "browser \<Rightarrow> int" where
  "visible_items s = (b_rows s - 1) - 2"

definition build_items_count :: "bos \<Rightarrow> fs \<Rightarrow> browser \<Rightarrow> int" where
  "build_items_count os fs s =
     (if b_mode s = MODE_FS
      then (case b_readdir os fs (b_cwd s) of None \<Rightarrow> 0 | Some ns \<Rightarrow> int (length ns))
      else (case b_readdir os fs (trash_files (b_base s)) of None \<Rightarrow> 0 | Some ns \<Rightarrow> int (length (filter (\<lambda>n. \<not> is_dot n) ns))))"

text \<open>A row: its text, the identifier at its right end if there is room, and whether it is highlighted.\<close>

type_synonym row = "string \<times> string option \<times> bool"

text \<open>The loop of the file list: the entry index and the screen line.\<close>

fun fs_rows :: "browser \<Rightarrow> int \<Rightarrow> int \<Rightarrow> string list \<Rightarrow> row list" where
  "fs_rows s idx y [] = []"
| "fs_rows s idx y (n # ns) =
     (if idx < b_scroll s then fs_rows s (idx + 1) y ns
      else if y > visible_items s then []
      else (n, None, idx = b_highlight s) # fs_rows s (idx + 1) (y + 1) ns)"

fun trash_rows :: "browser \<Rightarrow> int \<Rightarrow> int \<Rightarrow> browser_entry list \<Rightarrow> row list" where
  "trash_rows s i y [] = []"
| "trash_rows s i y (e # es) =
     (if y \<le> visible_items s
      then (be_disp e,
            if b_panel s - int (length (be_id e)) - 2 > int (length (be_disp e)) + 2 then Some (be_id e) else None,
            i = b_highlight s) # trash_rows s (i + 1) (y + 1) es
      else [])"

definition adjust_scroll :: "browser \<Rightarrow> browser" where
  "adjust_scroll s =
     (if b_highlight s < b_scroll s then s\<lparr>b_scroll := b_highlight s\<rparr>
      else if b_highlight s \<ge> b_scroll s + visible_items s then s\<lparr>b_scroll := b_highlight s - visible_items s + 1\<rparr>
      else s)"

definition draw_list :: "bos \<Rightarrow> fs \<Rightarrow> browser \<Rightarrow> (browser \<times> row list) outcome" where
  "draw_list os fs s =
     (if b_mode s = MODE_FS
      then Done (s, case b_readdir os fs (b_cwd s) of None \<Rightarrow> [(''Cannot open'', None, False)] | Some ns \<Rightarrow> fs_rows s 0 1 ns)
      else obind (build_trash_entries os fs (b_base s)) (\<lambda>arr.
        if arr = [] then Done (s, [(''Empty'', None, False)])
        else let s' = adjust_scroll s
             in Done (s', trash_rows s' (b_scroll s') 1 (drop (nat (b_scroll s')) arr))))"

text \<open>The info panel. For files: the name, what \<open>stat\<close> found; the mode bits are left out.\<close>

datatype info_view = FileInfo string node | NoInfo | InvalidInfo | CannotOpenInfo | TrashInfo "string list"

fun info_row :: "string \<Rightarrow> string option" where
  "info_row line =
     (if prefix ''original_path='' line then Some (''Orig: '' @ drop 14 line)
      else if prefix ''deleted_time='' line then Some (''Del:  '' @ drop 13 line)
      else if prefix ''size='' line then Some (''Size: '' @ drop 5 line)
      else None)"

definition pick :: "'a list \<Rightarrow> int \<Rightarrow> 'a option" where
  "pick xs i = (if 0 \<le> i \<and> i < int (length xs) then Some (xs ! nat i) else None)"

definition draw_info :: "bos \<Rightarrow> fs \<Rightarrow> browser \<Rightarrow> info_view outcome" where
  "draw_info os fs s =
     (if b_mode s = MODE_FS
      then Done (case b_readdir os fs (b_cwd s) of
                   None \<Rightarrow> NoInfo
                 | Some ns \<Rightarrow>
                     (case pick ns (b_highlight s) of
                        None \<Rightarrow> NoInfo
                      | Some n \<Rightarrow> (case b_stat os fs (snprintf PATH_MAX (b_cwd s @ ''/'' @ n)) of
                                     None \<Rightarrow> NoInfo | Some nd \<Rightarrow> FileInfo n nd)))
      else obind (build_trash_entries os fs (b_base s)) (\<lambda>arr.
        case pick arr (b_highlight s) of
          None \<Rightarrow> Done InvalidInfo
        | Some e \<Rightarrow>
            (case info_lines fs (info_path (b_base s) (be_id e)) of
               None \<Rightarrow> Done CannotOpenInfo
             | Some ls \<Rightarrow> Done (TrashInfo (List.map_filter info_row (map c_string ls))))))"

definition draw_status :: "browser \<Rightarrow> string \<times> (int \<times> string) option" where
  "draw_status s =
     (if b_mode s = MODE_FS
      then ''Arrows Move Enter Open Backspace Up Del Trash  T TrashMode F1 Help q Quit''
      else ''Arrows Move r Restore d Purge one  D Purge all  T FSMode F1 Help q Quit'',
      let len = int (length (b_feedback s))
      in if len > 0 \<and> len < b_cols s - 2 then Some (b_cols s - len - 1, b_feedback s) else None)"

section \<open>Keys\<close>

datatype key = KToggle | KUp | KDown | KEnter | KBackspace | KDelete env | KRestore | KPurge | KPurgeAll | KHelp
  | KResize int int | KOther | KQuit

definition key_toggle :: "browser \<Rightarrow> browser" where
  "key_toggle s = s\<lparr>b_mode := (if b_mode s = MODE_FS then MODE_TRASH else MODE_FS), b_highlight := 0, b_scroll := 0\<rparr>"

definition key_up :: "browser \<Rightarrow> browser" where
  "key_up s = (if b_highlight s > 0 then s\<lparr>b_highlight := b_highlight s - 1\<rparr> else s)"

definition key_down :: "int \<Rightarrow> browser \<Rightarrow> browser" where
  "key_down cnt s = (if b_highlight s < cnt - 1 then s\<lparr>b_highlight := b_highlight s + 1\<rparr> else s)"

definition key_enter :: "bos \<Rightarrow> fs \<Rightarrow> browser \<Rightarrow> browser" where
  "key_enter os fs s =
     (if b_mode s \<noteq> MODE_FS then s
      else case b_readdir os fs (b_cwd s) of
             None \<Rightarrow> s
           | Some ns \<Rightarrow>
               (case pick ns (b_highlight s) of
                  None \<Rightarrow> s
                | Some n \<Rightarrow>
                    let full = snprintf PATH_MAX (b_cwd s @ ''/'' @ n)
                    in if b_stat os fs full = Some DirN
                       then s\<lparr>b_cwd := take (PATH_MAX - 1) full, b_highlight := 0, b_scroll := 0\<rparr>
                       else s))"

text \<open>Everything before the last slash, unless that is the first character or there is none.\<close>

definition parent_dir :: "string \<Rightarrow> string" where
  "parent_dir p =
     (let before = rev (dropWhile (\<lambda>c. c \<noteq> slash) (rev p))
      in if length before > 1 then butlast before else ''/'')"

definition key_backspace :: "browser \<Rightarrow> browser" where
  "key_backspace s =
     (if b_mode s = MODE_FS then s\<lparr>b_cwd := parent_dir (b_cwd s), b_highlight := 0, b_scroll := 0\<rparr> else s)"

text \<open>
  \<open>unlink\<close> is the interceptor's when it is preloaded, else the kernel's. The clock and the random number of the
  interceptor at this moment come with the key.
\<close>

definition del_file :: "bool \<Rightarrow> env \<Rightarrow> string \<Rightarrow> fs \<Rightarrow> fs outcome" where
  "del_file pre e path fs =
     (if pre then obind (unlink e path fs) (\<lambda>(r, fs'). Done fs') else Done (snd (pass_on path fs)))"

definition key_delete :: "bos \<Rightarrow> bool \<Rightarrow> env \<Rightarrow> fs \<Rightarrow> browser \<Rightarrow> fs outcome" where
  "key_delete os pre e fs s =
     (if b_mode s \<noteq> MODE_FS then Done fs
      else case b_readdir os fs (b_cwd s) of
             None \<Rightarrow> Done fs
           | Some ns \<Rightarrow>
               (case pick ns (b_highlight s) of
                  None \<Rightarrow> Done fs
                | Some n \<Rightarrow> del_file pre e (snprintf PATH_MAX (b_cwd s @ ''/'' @ n)) fs))"

definition key_restore :: "bos \<Rightarrow> fs \<Rightarrow> browser \<Rightarrow> (browser \<times> fs) outcome" where
  "key_restore os fs s =
     (if b_mode s \<noteq> MODE_TRASH then Done (s, fs)
      else obind (build_trash_entries os fs (b_base s)) (\<lambda>arr.
        case pick arr (b_highlight s) of
          None \<Rightarrow> Done (s, fs)
        | Some e \<Rightarrow>
            (case cmd_restore (b_base s) (be_id e) fs of (ret, fs') \<Rightarrow>
               Done (s\<lparr>b_feedback := snprintf 80 (if ret = 0 then ''Restored '' @ be_id e else ''Restore failed'')\<rparr>, fs'))))"

definition key_purge :: "bos \<Rightarrow> fs \<Rightarrow> browser \<Rightarrow> (browser \<times> fs) outcome" where
  "key_purge os fs s =
     (if b_mode s \<noteq> MODE_TRASH then Done (s, fs)
      else obind (build_trash_entries os fs (b_base s)) (\<lambda>arr.
        case pick arr (b_highlight s) of
          None \<Rightarrow> Done (s, fs)
        | Some e \<Rightarrow>
            (case cmd_purge (b_base s) (be_id e) fs of (ret, fs') \<Rightarrow>
               if ret = 0
               then Done (s\<lparr>b_feedback := snprintf 80 (''Purged '' @ be_id e),
                 b_highlight := (if b_highlight s - 1 < 0 then 0 else b_highlight s - 1)\<rparr>, fs')
               else Done (s\<lparr>b_feedback := ''Purge failed''\<rparr>, fs'))))"

definition trash_names :: "bos \<Rightarrow> fs \<Rightarrow> string \<Rightarrow> string list" where
  "trash_names os fs base = (case b_readdir os fs (trash_info base) of None \<Rightarrow> [] | Some ns \<Rightarrow> ns)"

definition key_purge_all :: "bos \<Rightarrow> fs \<Rightarrow> browser \<Rightarrow> (browser \<times> fs) outcome" where
  "key_purge_all os fs s =
     (if b_mode s \<noteq> MODE_TRASH then Done (s, fs)
      else obind (cmd_purge_all (b_base s) (trash_names os fs (b_base s)) fs) (\<lambda>(ret, fs').
        Done (s\<lparr>b_feedback := (if ret = 0 then ''Trash emptied'' else ''Failed to empty trash''), b_highlight := 0, b_scroll := 0\<rparr>, fs')))"

definition resize :: "int \<Rightarrow> int \<Rightarrow> browser \<Rightarrow> browser" where
  "resize rows cols s = s\<lparr>b_rows := rows, b_cols := cols, b_panel := panel_width cols\<rparr>"

text \<open>One pass of the loop of \<open>cmd_browse\<close>, drawing included.\<close>

definition redraw :: "bos \<Rightarrow> fs \<Rightarrow> browser \<Rightarrow> (browser \<times> fs) outcome" where
  "redraw os fs s = obind (draw_list os fs s) (\<lambda>(s', rs). obind (draw_info os fs s') (\<lambda>v. Done (s', fs)))"

text \<open>Restoring and purging draw by themselves, too.\<close>

definition redraw_trash :: "bos \<Rightarrow> browser \<times> fs \<Rightarrow> (browser \<times> fs) outcome" where
  "redraw_trash os = (\<lambda>(s, fs). if b_mode s = MODE_TRASH then redraw os fs s else Done (s, fs))"

definition browse_key :: "bos \<Rightarrow> bool \<Rightarrow> key \<Rightarrow> browser \<times> fs \<Rightarrow> (browser \<times> fs) outcome" where
  "browse_key os pre k = (\<lambda>(s, fs).
     case k of
       KResize rows cols \<Rightarrow> redraw os fs (resize rows cols s)
     | _ \<Rightarrow>
         let s = s\<lparr>b_feedback := []\<rparr>; cnt = build_items_count os fs s
         in obind
              (case k of
                 KToggle \<Rightarrow> Done (key_toggle s, fs)
               | KUp \<Rightarrow> Done (key_up s, fs)
               | KDown \<Rightarrow> Done (key_down cnt s, fs)
               | KEnter \<Rightarrow> Done (key_enter os fs s, fs)
               | KBackspace \<Rightarrow> Done (key_backspace s, fs)
               | KDelete e \<Rightarrow> obind (key_delete os pre e fs s) (\<lambda>fs'. Done (s, fs'))
               | KRestore \<Rightarrow> obind (key_restore os fs s) (redraw_trash os)
               | KPurge \<Rightarrow> obind (key_purge os fs s) (redraw_trash os)
               | KPurgeAll \<Rightarrow> key_purge_all os fs s
               | _ \<Rightarrow> Done (s, fs))
              (\<lambda>(s', fs'). redraw os fs' s'))"

fun browse_loop :: "bos \<Rightarrow> bool \<Rightarrow> key list \<Rightarrow> browser \<times> fs \<Rightarrow> (browser \<times> fs) outcome" where
  "browse_loop os pre [] st = Done st"
| "browse_loop os pre (k # ks) st =
     (if k = KQuit then Done st else obind (browse_key os pre k st) (browse_loop os pre ks))"

definition browse_start :: "string \<Rightarrow> string \<Rightarrow> int \<Rightarrow> int \<Rightarrow> browser" where
  "browse_start base start_dir rows cols =
     \<lparr>b_base = take (PATH_MAX - 1) base, b_mode = MODE_FS, b_highlight = 0, b_scroll = 0, b_cwd = take (PATH_MAX - 1) start_dir,
      b_rows = rows, b_cols = cols, b_panel = panel_width cols, b_feedback = []\<rparr>"

definition cmd_browse :: "bos \<Rightarrow> bool \<Rightarrow> string \<Rightarrow> string \<Rightarrow> int \<Rightarrow> int \<Rightarrow> key list \<Rightarrow> fs \<Rightarrow> (browser \<times> fs) outcome" where
  "cmd_browse os pre base start_dir rows cols keys fs =
     obind (redraw os fs (browse_start base start_dir rows cols)) (browse_loop os pre keys)"

section \<open>The command line\<close>

text \<open>\<open>main\<close> of trashctl: exit status and file system; the size of the terminal and the keys are for \<open>browse\<close>.\<close>

definition trashctl :: "bos \<Rightarrow> bool \<Rightarrow> string option \<Rightarrow> int \<times> int \<Rightarrow> key list \<Rightarrow> string list \<Rightarrow> fs \<Rightarrow> (int \<times> fs) outcome" where
  "trashctl os pre env screen keys args fs =
     (let base = get_trash_base env
      in case args of
           [] \<Rightarrow> Done (1, fs)
         | cmd # rest \<Rightarrow>
             if cmd = ''list'' then obind (cmd_list base fs (trash_names os fs base)) (\<lambda>(r, rows). Done (r, fs))
             else if cmd = ''browse''
             then let start = (if rest = [] then ''.'' else hd rest)
                  in obind (cmd_browse os pre base start (fst screen) (snd screen) keys fs) (\<lambda>(s, fs'). Done (0, fs'))
             else if cmd = ''restore'' \<and> length rest = 1 then Done (cmd_restore base (hd rest) fs)
             else if cmd = ''purge'' \<and> length rest = 1
             then if hd rest = ''--all'' then cmd_purge_all base (trash_names os fs base) fs else Done (cmd_purge base (hd rest) fs)
             else Done (1, fs))"

section \<open>The entries are sorted\<close>

lemma copy_disp_no_nul: "copy_disp src = Done d \<Longrightarrow> no_nul src \<Longrightarrow> no_nul d"
  by (auto simp: copy_disp_def no_nul_def Let_def split: if_splits dest: in_set_takeD set_takeWhileD)

lemma no_nul_line: "no_nul (base_of (drop n (c_string l)))"
  by (auto simp: no_nul_def base_of_def c_string_def dest!: set_takeWhileD in_set_dropD)

lemma find_disp_no_nul: "find_disp ls = Done d \<Longrightarrow> no_nul d"
proof (induction ls)
  case (Cons l ls)
  then show ?case using copy_disp_no_nul[OF _ no_nul_line] by (auto split: if_splits)
qed (simp add: no_nul_def)

abbreviation shown_ok :: "browser_entry \<Rightarrow> bool" where
  "shown_ok e \<equiv> no_nul (be_disp e)"

lemma trash_entry_ok: "trash_entry fs base n = Done e \<Longrightarrow> shown_ok e \<and> be_id e = take NAME_MAX n"
  by (auto simp: trash_entry_def no_nul_def[of "[]"] split: option.splits dest: find_disp_no_nul)

lemma trash_entries_ok:
  "trash_entries fs base ns = Done es \<Longrightarrow>
   list_all shown_ok es \<and> map be_id es = map (take NAME_MAX) (filter (\<lambda>n. \<not> is_dot n) ns)"
proof (induction ns arbitrary: es)
  case (Cons n ns)
  then show ?case using trash_entry_ok[of fs base n] by (cases "is_dot n") auto
qed simp

interpretation ents: comparator cmp_entry "\<lambda>e. no_nul (be_disp e)"
proof
  fix a b c
  show "cmp_entry a b \<le> 0 \<or> cmp_entry b a \<le> 0"
    using strcmp_flip[of "map to_lower (be_disp a)" "map to_lower (be_disp b)"] by (auto simp: cmp_entry_def strcasecmp_def)
  show "cmp_entry a c \<le> 0" if "no_nul (be_disp a)" "no_nul (be_disp b)" "no_nul (be_disp c)" "cmp_entry a b \<le> 0" "cmp_entry b c \<le> 0"
    using that strcmp_trans[OF no_nul_lower no_nul_lower no_nul_lower, of "be_disp a" "be_disp b" "be_disp c"]
    by (auto simp: cmp_entry_def strcasecmp_def split: if_splits)
qed

text \<open>
  The trash list holds every entry of the trash directory exactly once, directories before
  files and each group ordered by name without regard to case.
\<close>

theorem build_trash_entries_sorted:
  assumes "b_readdir os fs (trash_files base) = Some names" "build_trash_entries os fs base = Done arr"
  shows "sorted_cmp cmp_entry arr \<and> mset (map be_id arr) = mset (map (take NAME_MAX) (filter (\<lambda>n. \<not> is_dot n) names)) \<and>
    (\<forall>i j. i < j \<longrightarrow> j < length arr \<longrightarrow> be_is_dir (arr ! j) \<longrightarrow> be_is_dir (arr ! i))"
proof -
  obtain es where es: "trash_entries fs base names = Done es" "arr = qsort_cmp cmp_entry es"
    using assms by (auto simp: build_trash_entries_def)
  note ok = trash_entries_ok[OF es(1)]
  have srt: "sorted_cmp cmp_entry arr" using ents.qsort_sorted[of es] ok es(2) by (simp add: list_all_iff)
  have "mset (map be_id arr) = mset (map be_id es)" using es(2) by (metis mset_map mset_qsort_cmp)
  moreover have "be_is_dir (arr ! i)" if "i < j" "j < length arr" "be_is_dir (arr ! j)" for i j
    using sorted_wrt_nth_less[OF srt that(1,2)] that(3) by (auto simp: cmp_entry_def split: if_splits)
  ultimately show ?thesis using srt ok by auto
qed

section \<open>Moving around\<close>

lemma parent_dir_join: "slash \<notin> set n \<Longrightarrow> d \<noteq> [] \<Longrightarrow> parent_dir (d @ slash # n) = d"
proof -
  assume n: "slash \<notin> set n" and d: "d \<noteq> []"
  then have "dropWhile (\<lambda>c. c \<noteq> slash) (rev (d @ slash # n)) = slash # rev d" by (auto simp: dropWhile_append)
  then show ?thesis using d by (simp add: parent_dir_def Let_def)
qed

text \<open>
  Opening a directory and going back is the identity on the current directory, also in the
  root, for paths that fit the buffer.
\<close>

theorem enter_then_back:
  assumes "b_mode s = MODE_FS" "b_cwd s \<noteq> []" "b_readdir os fs (b_cwd s) = Some ns" "pick ns (b_highlight s) = Some n"
    and "slash \<notin> set n" "length (b_cwd s) + length n + 1 < PATH_MAX"
  shows "key_backspace (key_enter os fs s) =
    (if b_stat os fs (b_cwd s @ ''/'' @ n) = Some DirN then s\<lparr>b_highlight := 0, b_scroll := 0\<rparr> else key_backspace s)"
  using assms parent_dir_join[OF assms(5,2)] by (simp add: key_enter_def key_backspace_def Let_def)

theorem enter_then_back_witness:
  "key_backspace (key_enter \<lparr>b_readdir = (\<lambda>fs p. Some [''sub'']), b_stat = (\<lambda>fs p. Some DirN)\<rparr> Map.empty (browse_start ''/t'' ''/home'' 24 80)) =
   browse_start ''/t'' ''/home'' 24 80"
  using enter_then_back[of "browse_start ''/t'' ''/home'' 24 80" "\<lparr>b_readdir = (\<lambda>fs p. Some [''sub'']), b_stat = (\<lambda>fs p. Some DirN)\<rparr>"
    Map.empty "[''sub'']" "''sub''"]
  by (simp add: browse_start_def pick_def)

section \<open>What is visible\<close>

definition view_ok :: "browser \<Rightarrow> bool" where
  "view_ok s \<longleftrightarrow> 0 \<le> b_highlight s \<and> 0 \<le> b_scroll s \<and> (b_mode s = MODE_FS \<longrightarrow> b_scroll s = 0)"

lemma adjust_scroll_ok: "view_ok s \<Longrightarrow> b_mode s = MODE_TRASH \<Longrightarrow> view_ok (adjust_scroll s)"
  by (auto simp: view_ok_def adjust_scroll_def)

lemma adjust_scroll_frame [simp]: "b_highlight (adjust_scroll s) = b_highlight s" "b_mode (adjust_scroll s) = b_mode s"
  "visible_items (adjust_scroll s) = visible_items s" "b_base (adjust_scroll s) = b_base s"
  by (simp_all add: adjust_scroll_def visible_items_def)

lemma adjust_scroll_visible:
  "0 < visible_items s \<Longrightarrow> b_scroll (adjust_scroll s) \<le> b_highlight s \<and> b_highlight s < b_scroll (adjust_scroll s) + visible_items s"
  by (auto simp: adjust_scroll_def)

text \<open>What drawing establishes: in the trash list the highlighted index is on the screen.\<close>

definition drawn :: "bos \<Rightarrow> fs \<Rightarrow> browser \<Rightarrow> bool" where
  "drawn os fs s \<longleftrightarrow> view_ok s \<and>
     (\<forall>arr. b_mode s = MODE_TRASH \<longrightarrow> build_trash_entries os fs (b_base s) = Done arr \<longrightarrow> arr \<noteq> [] \<longrightarrow> 0 < visible_items s \<longrightarrow>
        b_scroll s \<le> b_highlight s \<and> b_highlight s < b_scroll s + visible_items s)"

lemma draw_list_drawn:
  assumes "view_ok s" "draw_list os fs s = Done (s', rs)"
  shows "drawn os fs s'"
proof (cases "b_mode s = MODE_FS")
  case True
  then show ?thesis using assms by (simp add: draw_list_def drawn_def)
next
  case False
  then have t: "b_mode s = MODE_TRASH" by (cases "b_mode s") simp_all
  obtain arr where arr: "build_trash_entries os fs (b_base s) = Done arr" using assms(2) t by (auto simp: draw_list_def)
  show ?thesis
  proof (cases "arr = []")
    case True
    then show ?thesis using assms arr t by (simp add: draw_list_def drawn_def)
  next
    case False
    then have "s' = adjust_scroll s" using assms(2) arr t by (simp add: draw_list_def Let_def)
    then show ?thesis using adjust_scroll_ok[OF assms(1) t] adjust_scroll_visible by (auto simp: drawn_def)
  qed
qed

lemma redraw_drawn: "view_ok s \<Longrightarrow> redraw os fs s = Done (s', fs') \<Longrightarrow> drawn os fs' s' \<and> fs' = fs"
  by (auto simp: redraw_def dest: draw_list_drawn)

lemma redraw_trash_ok: "view_ok s \<Longrightarrow> redraw_trash os (s, fs) = Done (s', fs') \<Longrightarrow> view_ok s'"
  using redraw_drawn[of s os fs s' fs'] by (auto simp: redraw_trash_def drawn_def split: if_splits)

lemma view_ok_simps [simp]: "view_ok (s\<lparr>b_feedback := f\<rparr>) = view_ok s" "view_ok (resize r c s) = view_ok s" "view_ok (key_toggle s)"
  by (simp_all add: view_ok_def resize_def key_toggle_def)

lemma key_arrows_view: "view_ok s \<Longrightarrow> view_ok (key_up s)" "view_ok s \<Longrightarrow> view_ok (key_down n s)"
  by (simp_all add: view_ok_def key_up_def key_down_def)

lemma key_moves_view: "view_ok s \<Longrightarrow> view_ok (key_enter os fs s)" "view_ok s \<Longrightarrow> view_ok (key_backspace s)"
  by (auto simp: view_ok_def key_enter_def key_backspace_def Let_def split: option.splits)

lemma key_restore_view:
  assumes "view_ok s" "key_restore os fs s = Done (s', fs')"
  shows "view_ok s'"
proof (cases "b_mode s = MODE_TRASH")
  case True
  then obtain arr where arr: "build_trash_entries os fs (b_base s) = Done arr" using assms(2) by (auto simp: key_restore_def)
  show ?thesis
  proof (cases "pick arr (b_highlight s)")
    case None
    then show ?thesis using assms arr True by (simp add: key_restore_def)
  next
    case (Some e)
    obtain ret fs1 where "cmd_restore (b_base s) (be_id e) fs = (ret, fs1)" by fastforce
    then show ?thesis using assms arr True Some by (auto simp: key_restore_def)
  qed
qed (use assms in \<open>simp add: key_restore_def\<close>)

lemma key_purge_view:
  assumes "view_ok s" "key_purge os fs s = Done (s', fs')"
  shows "view_ok s'"
proof (cases "b_mode s = MODE_TRASH")
  case True
  then obtain arr where arr: "build_trash_entries os fs (b_base s) = Done arr" using assms(2) by (auto simp: key_purge_def)
  show ?thesis
  proof (cases "pick arr (b_highlight s)")
    case None
    then show ?thesis using assms arr True by (simp add: key_purge_def)
  next
    case (Some e)
    obtain ret fs1 where "cmd_purge (b_base s) (be_id e) fs = (ret, fs1)" by fastforce
    then show ?thesis using assms arr True Some by (auto simp: key_purge_def view_ok_def split: if_splits)
  qed
qed (use assms in \<open>simp add: key_purge_def\<close>)

lemma key_purge_all_view: "view_ok s \<Longrightarrow> key_purge_all os fs s = Done (s', fs') \<Longrightarrow> view_ok s'"
  by (auto simp: key_purge_all_def view_ok_def split: if_splits)

lemma browse_key_drawn:
  assumes "view_ok s" "browse_key os pre k (s, fs) = Done (s', fs')"
  shows "drawn os fs' s'"
proof (cases "\<exists>r c. k = KResize r c")
  case True
  then show ?thesis using assms redraw_drawn[of "resize _ _ s"] by (auto simp: browse_key_def)
next
  case False
  let ?s = "s\<lparr>b_feedback := []\<rparr>"
  have v: "view_ok ?s" using assms(1) by simp
  obtain u fs1 where u: "redraw os fs1 u = Done (s', fs')" "view_ok u"
  proof (cases k)
    case KRestore
    then obtain a b aa ba where "key_restore os fs ?s = Done (aa, ba)" "redraw_trash os (aa, ba) = Done (a, b)" "redraw os b a = Done (s', fs')"
      using assms(2) by (auto simp: browse_key_def)
    then show ?thesis using that key_restore_view[OF v] redraw_trash_ok by blast
  next
    case KPurge
    then obtain a b aa ba where "key_purge os fs ?s = Done (aa, ba)" "redraw_trash os (aa, ba) = Done (a, b)" "redraw os b a = Done (s', fs')"
      using assms(2) by (auto simp: browse_key_def)
    then show ?thesis using that key_purge_view[OF v] redraw_trash_ok by blast
  next
    case KPurgeAll
    then show ?thesis using assms(2) that key_purge_all_view[OF v] by (auto simp: browse_key_def)
  next
    case KEnter
    then show ?thesis using assms(2) that key_moves_view(1)[OF v] by (simp add: browse_key_def)
  next
    case KBackspace
    then show ?thesis using assms(2) that key_moves_view(2)[OF v] by (simp add: browse_key_def)
  next
    case KToggle
    then show ?thesis using assms(2) that by (simp add: browse_key_def)
  next
    case KUp
    then show ?thesis using assms(2) that key_arrows_view(1)[OF v] by (simp add: browse_key_def)
  next
    case KDown
    then show ?thesis using assms(2) that key_arrows_view(2)[OF v] by (simp add: browse_key_def Let_def)
  next
    case (KDelete e)
    then obtain fs2 where "redraw os fs2 ?s = Done (s', fs')" using assms(2) by (auto simp: browse_key_def Let_def)
    then show ?thesis using that v by blast
  qed (use assms(2) that v False in \<open>auto simp: browse_key_def\<close>)
  then show ?thesis using redraw_drawn by blast
qed

lemma browse_loop_drawn: "drawn os fs s \<Longrightarrow> browse_loop os pre ks (s, fs) = Done (s', fs') \<Longrightarrow> drawn os fs' s'"
proof (induction ks arbitrary: s fs)
  case (Cons k ks)
  show ?case
  proof (cases "k = KQuit")
    case False
    then obtain u fs1 where u: "browse_key os pre k (s, fs) = Done (u, fs1)" "browse_loop os pre ks (u, fs1) = Done (s', fs')"
      using Cons(3) by (auto split: prod.splits)
    have "drawn os fs1 u" using browse_key_drawn[OF _ u(1)] Cons(2) by (simp add: drawn_def)
    then show ?thesis using Cons(1) u(2) by blast
  qed (use Cons in simp)
qed simp

lemma cmd_browse_drawn: "cmd_browse os pre base dir rows cols keys fs = Done (s, fs') \<Longrightarrow> drawn os fs' s"
proof -
  assume "cmd_browse os pre base dir rows cols keys fs = Done (s, fs')"
  then obtain u fs1 where u: "redraw os fs (browse_start base dir rows cols) = Done (u, fs1)" "browse_loop os pre keys (u, fs1) = Done (s, fs')"
    by (auto simp: cmd_browse_def split: prod.splits)
  have "view_ok (browse_start base dir rows cols)" by (simp add: view_ok_def browse_start_def)
  then show ?thesis using redraw_drawn u browse_loop_drawn by blast
qed

text \<open>The rows that are drawn, by index.\<close>

lemma trash_rows_nth:
  assumes "i < length es" "y + int i \<le> visible_items s"
  shows "i < length (trash_rows s k y es) \<and> fst (trash_rows s k y es ! i) = be_disp (es ! i) \<and>
    snd (snd (trash_rows s k y es ! i)) = (k + int i = b_highlight s)"
  using assms
proof (induction es arbitrary: i k y)
  case (Cons e es)
  then show ?case using Cons(1)[of "i - 1" "y + 1" "k + 1"] by (cases i) (auto simp: algebra_simps)
qed simp

lemma fs_rows_first:
  "b_scroll s = 0 \<Longrightarrow> 0 \<le> idx \<Longrightarrow> map fst (fs_rows s idx y ns) = take (nat (visible_items s - y + 1)) ns"
proof (induction ns arbitrary: idx y)
  case (Cons n ns)
  show ?case
  proof (cases "y > visible_items s")
    case False
    then have "nat (visible_items s - y + 1) = Suc (nat (visible_items s - (y + 1) + 1))" by simp
    then show ?thesis using Cons False by simp
  qed (use Cons in simp)
qed simp

lemma fs_rows_marked:
  "b_scroll s = 0 \<Longrightarrow> 0 \<le> idx \<Longrightarrow> r \<in> set (fs_rows s idx y ns) \<Longrightarrow> snd (snd r) \<Longrightarrow>
   b_highlight s - idx \<le> visible_items s - y"
proof (induction ns arbitrary: idx y)
  case (Cons n ns)
  then have y: "y \<le> visible_items s" by (simp split: if_splits)
  then consider "snd (snd r) = (idx = b_highlight s)" | "r \<in> set (fs_rows s (idx + 1) (y + 1) ns)"
    using Cons.prems by (auto split: if_splits)
  then show ?case
  proof cases
    case 2
    then show ?thesis using Cons.IH[of "idx + 1" "y + 1"] Cons.prems by simp
  qed (use y Cons.prems in simp)
qed simp

text \<open>
  C36. The highlighted trash entry is always on the screen: whatever keys are pressed and however
  the window is resized, after drawing a non-empty trash list with room for at least one row, the
  highlighted index lies in the visible part, and if it denotes an entry, that entry's row is drawn
  and marked. The index is never negative.
\<close>

theorem trash_highlight_visible:
  assumes "cmd_browse os pre base dir rows cols keys fs = Done (s, fs')" "b_mode s = MODE_TRASH"
    and "build_trash_entries os fs' (b_base s) = Done arr" "arr \<noteq> []" "0 < visible_items s"
  shows "0 \<le> b_highlight s \<and> b_scroll s \<le> b_highlight s \<and> b_highlight s < b_scroll s + visible_items s \<and>
    (\<forall>e. pick arr (b_highlight s) = Some e \<longrightarrow>
      (\<exists>rs r. draw_list os fs' s = Done (s, rs) \<and> r \<in> set rs \<and> fst r = be_disp e \<and> snd (snd r)))"
proof -
  have d: "0 \<le> b_highlight s" "0 \<le> b_scroll s" "b_scroll s \<le> b_highlight s" "b_highlight s < b_scroll s + visible_items s"
    using cmd_browse_drawn[OF assms(1)] assms(2-) by (auto simp: drawn_def view_ok_def)
  then have a: "adjust_scroll s = s" by (simp add: adjust_scroll_def)
  let ?i = "nat (b_highlight s - b_scroll s)" and ?es = "drop (nat (b_scroll s)) arr"
  let ?rs = "trash_rows s (b_scroll s) 1 ?es"
  have dl: "draw_list os fs' s = Done (s, ?rs)" using assms(2-4) a by (simp add: draw_list_def Let_def)
  have "\<exists>r \<in> set ?rs. fst r = be_disp e \<and> snd (snd r)" if "pick arr (b_highlight s) = Some e" for e
  proof -
    have p: "b_highlight s < int (length arr)" "e = arr ! nat (b_highlight s)" using that by (auto simp: pick_def split: if_splits)
    have "nat (b_scroll s) + ?i = nat (b_highlight s)" using d by (simp add: nat_add_distrib[symmetric])
    then have "?i < length ?es" "?es ! ?i = e" using d p by auto
    then show ?thesis using trash_rows_nth[of ?i ?es 1 s "b_scroll s"] d by (intro bexI[of _ "?rs ! ?i"]) auto
  qed
  then show ?thesis using d dl by blast
qed

text \<open>
  The file list does not scroll: in file mode the scroll offset is always zero, so exactly the
  first rows of the directory are drawn, and once the highlighted index has left them no
  row is marked.
\<close>

theorem fs_list_never_scrolls:
  assumes "cmd_browse os pre base dir rows cols keys fs = Done (s, fs')" "b_mode s = MODE_FS"
    and "b_readdir os fs' (b_cwd s) = Some ns"
  shows "\<exists>rs. draw_list os fs' s = Done (s, rs) \<and> map fst rs = take (nat (visible_items s)) ns \<and>
    (visible_items s \<le> b_highlight s \<longrightarrow> (\<forall>r \<in> set rs. \<not> snd (snd r)))"
proof -
  have z: "b_scroll s = 0" using cmd_browse_drawn[OF assms(1)] assms(2) by (simp add: drawn_def view_ok_def)
  have "draw_list os fs' s = Done (s, fs_rows s 0 1 ns)" using assms(2,3) by (simp add: draw_list_def)
  then show ?thesis using fs_rows_first[OF z, of 0 1 ns] fs_rows_marked[OF z, of 0 _ 1 ns] by fastforce
qed

text \<open>A directory with one entry everywhere; after one T the browser shows the trash.\<close>

definition sample_bos :: bos where
  "sample_bos = \<lparr>b_readdir = (\<lambda>fs p. Some [''x'']), b_stat = (\<lambda>fs p. None)\<rparr>"

lemma sample_entries: "build_trash_entries sample_bos Map.empty base = Done [\<lparr>be_id = ''x'', be_disp = [], be_is_dir = False\<rparr>]"
  by (simp add: build_trash_entries_def sample_bos_def is_dot_def trash_entry_def info_lines_def)

lemma sample_browse:
  "\<exists>s. cmd_browse sample_bos False ''/t'' ''/'' 24 80 [KToggle] Map.empty = Done (s, Map.empty) \<and> b_mode s = MODE_TRASH \<and> visible_items s = 21"
  "\<exists>s. cmd_browse sample_bos False ''/t'' ''/'' 24 80 [] Map.empty = Done (s, Map.empty) \<and> b_mode s = MODE_FS \<and> visible_items s = 21"
proof -
  have fs: "redraw sample_bos Map.empty s = Done (s, Map.empty)" if "b_mode s = MODE_FS" for s
    using that by (simp add: redraw_def draw_list_def draw_info_def)
  have tr: "\<exists>s'. redraw sample_bos Map.empty s = Done (s', Map.empty) \<and> b_mode s' = MODE_TRASH \<and> visible_items s' = visible_items s"
    if "b_mode s = MODE_TRASH" for s
    using that by (simp add: redraw_def draw_list_def draw_info_def sample_entries Let_def info_lines_def split: option.splits)
  show "\<exists>s. cmd_browse sample_bos False ''/t'' ''/'' 24 80 [KToggle] Map.empty = Done (s, Map.empty) \<and> b_mode s = MODE_TRASH \<and> visible_items s = 21"
    using tr[of "key_toggle ((browse_start ''/t'' ''/'' 24 80)\<lparr>b_feedback := []\<rparr>)"]
    by (simp add: cmd_browse_def fs browse_start_def browse_key_def key_toggle_def visible_items_def)
  show "\<exists>s. cmd_browse sample_bos False ''/t'' ''/'' 24 80 [] Map.empty = Done (s, Map.empty) \<and> b_mode s = MODE_FS \<and> visible_items s = 21"
    by (simp add: cmd_browse_def fs browse_start_def visible_items_def)
qed

theorem trash_highlight_visible_witness:
  "\<exists>s. cmd_browse sample_bos False ''/t'' ''/'' 24 80 [KToggle] Map.empty = Done (s, Map.empty) \<and>
     b_scroll s \<le> b_highlight s \<and> b_highlight s < b_scroll s + 21"
proof -
  obtain s where s: "cmd_browse sample_bos False ''/t'' ''/'' 24 80 [KToggle] Map.empty = Done (s, Map.empty)" "b_mode s = MODE_TRASH"
    "visible_items s = 21" using sample_browse(1) by blast
  then show ?thesis using trash_highlight_visible[OF s(1,2) sample_entries] by auto
qed

theorem fs_list_never_scrolls_witness:
  "\<exists>s rs. draw_list sample_bos Map.empty s = Done (s, rs) \<and> map fst rs = [''x'']"
proof -
  obtain s where s: "cmd_browse sample_bos False ''/t'' ''/'' 24 80 [] Map.empty = Done (s, Map.empty)" "b_mode s = MODE_FS"
    "visible_items s = 21" using sample_browse(2) by blast
  have "b_readdir sample_bos Map.empty (b_cwd s) = Some [''x'']" by (simp add: sample_bos_def)
  then show ?thesis using fs_list_never_scrolls[OF s(1,2)] s(3) by fastforce
qed

theorem build_trash_entries_sorted_witness:
  "sorted_cmp cmp_entry [\<lparr>be_id = ''x'', be_disp = [], be_is_dir = False\<rparr>]"
  using build_trash_entries_sorted[of sample_bos Map.empty "''/t''" "[''x'']", OF _ sample_entries] by (simp add: sample_bos_def)

section \<open>The interceptor and the browser\<close>

lemma path_lines_short:
  assumes "newline \<notin> set p" "length p \<le> 4000"
  shows "path_lines (info_text p t sz) = (''original_path='' @ p @ [newline]) # path_lines (''deleted_time='' @ t @ [newline] @ ''size='' @ dec sz @ [newline])"
proof -
  have "fgets PATH_MAX ((''original_path='' @ p) @ newline # r) = Some ((''original_path='' @ p) @ [newline], r)" for r
    using assms by (intro fgets_newline) auto
  then show ?thesis by (subst path_lines.simps) (simp add: info_text_def)
qed

lemma base_of_newline: "base_of (p @ [newline]) = base_of p @ [newline]"
  by (simp add: base_of_def)

text \<open>
  The browser shows a deleted file under its original name: after \<open>unlink\<close> has moved a file to the
  trash, the entry built for it has the last component of the original path as its text, if
  that has at most 254 bytes. For a name of 255 bytes, the longest a file system allows, the
  buffer is left unterminated and then searched.
\<close>

theorem browser_shows_original_name:
  assumes "trash_ready base fs" "base = get_trash_base (e_base e)" "deletable base p c fs" "n = entry_name e p" "free_entry base n fs"
    and "newline \<notin> set p" "NUL \<notin> set p" "length p \<le> 4000"
  shows "\<exists>fs1. unlink e p fs = Done (0, fs1) \<and>
    trash_entry fs1 base n = (if length (base_of p) \<le> 254 then Done \<lparr>be_id = n, be_disp = base_of p, be_is_dir = False\<rparr> else Faults)"
proof -
  let ?d = "file_path base n" and ?i = "info_path base n" and ?t = "info_text p (e_time e) (length c)"
  let ?fs = "fs(p := None, ?d \<mapsto> FileN c, ?i \<mapsto> FileN ?t)"
  have n: "length n \<le> 255" "slash \<notin> set n" using entry_name_ok assms(4) by simp_all
  note tp = trash_paths[OF assms(1) n(1)] and dirs = trash_dirs[OF assms(1) n]
  have len: "length base \<le> 3800" using assms(1) by (simp add: trash_ready_def)
  have paths: "snprintf PATH_MAX (trash_info base @ ''/'' @ n @ ''.info'') = ?i" "snprintf PATH_MAX (trash_files base @ ''/'' @ n) = ?d"
    using tp n(1) len by simp_all
  have un: "unlink e p fs = Done (0, ?fs)" using unlink_moves[OF assms(1-4)] assms(5) by (simp add: free_entry_def)
  have cs: "c_string (''original_path='' @ p @ [newline]) = ''original_path='' @ p @ [newline]"
    using assms(7) by (auto simp: c_string_def takeWhile_eq_all_conv)
  have "newline \<notin> set (base_of p)" using assms(6) by (auto simp: base_of_def dest: set_takeWhileD)
  then have "copy_disp (base_of p @ [newline]) = (if length (base_of p) \<le> 254 then Done (base_of p) else Faults)"
    by (auto simp: copy_disp_def Let_def takeWhile_append dest: in_set_takeD)
  then have "find_disp (path_lines ?t) = (if length (base_of p) \<le> 254 then Done (base_of p) else Faults)"
    using cs by (simp add: path_lines_short[OF assms(6,8)] base_of_newline)
  then have "trash_entry ?fs base n = (if length (base_of p) \<le> 254 then Done \<lparr>be_id = n, be_disp = base_of p, be_is_dir = False\<rparr> else Faults)"
    using n(1) dirs(3) unfolding trash_entry_def paths by (simp add: info_lines_def)
  then show ?thesis using un by blast
qed

theorem browser_shows_original_name_witness:
  "\<exists>fs1. unlink sample_env ''/a.c'' sample_fs = Done (0, fs1) \<and>
     trash_entry fs1 ''/t'' ''17_38383.c'' = Done \<lparr>be_id = ''17_38383.c'', be_disp = ''a.c'', be_is_dir = False\<rparr>"
proof -
  have "''/t'' = get_trash_base (e_base sample_env)" "base_of ''/a.c'' = ''a.c''" by (simp_all add: sample_env_def get_trash_base_def base_of_def)
  then show ?thesis
    using browser_shows_original_name[OF sample_ready(1) _ sample_ready(3) sample_name(1)[symmetric] sample_ready(2)] by simp
qed

end
