(* ===== verification/Trash_Refine.thy ===== *)
theory Trash_Refine
  imports Trash
begin

text \<open>
  CourseWork: what the interceptor and trashctl promise together. The specification is a pair of
  maps: the files and directories a user sees, and the trash, which maps the name of an entry to
  the original path, the time and the content. Deleting moves a file from the first to the
  second, restoring moves it back, purging removes it from the second. Any sequence of
  these operations on the file system refines the same sequence on the two maps.
\<close>

section \<open>The specification\<close>

type_synonym bin = "string \<rightharpoonup> string \<times> string \<times> string"

datatype trash_op = Unlink env string | Restore string | Purge string | Create string string | PurgeAll "string list"

definition path_ok :: "string \<Rightarrow> string \<Rightarrow> bool" where
  "path_ok base p \<longleftrightarrow> p \<noteq> [] \<and> hd p = slash \<and> length p \<le> 240 \<and> newline \<notin> set p \<and> NUL \<notin> set p \<and>
     \<not> prefix (trash_root base) p"

definition entry_ok :: "string \<Rightarrow> bool" where
  "entry_ok n \<longleftrightarrow> length n \<le> 255 \<and> slash \<notin> set n"

definition can_create :: "fs \<Rightarrow> string \<Rightarrow> bool" where
  "can_create live p \<longleftrightarrow> live (dir_of p) = Some DirN \<and> live p \<noteq> Some DirN"

text \<open>
  The names \<open>readdir\<close> delivers for the info directory: the two dots and one file per entry, in any
  order. The commands copy names without their ending into buffers of 64 bytes.
\<close>

definition listing :: "bin \<Rightarrow> string list \<Rightarrow> bool" where
  "listing bin names \<longleftrightarrow> distinct names \<and> set names = {''.'', ''..''} \<union> (\<lambda>n. n @ ''.info'') ` dom bin \<and>
     (\<forall>n \<in> dom bin. n \<noteq> [] \<and> length n < 64)"

text \<open>One operation: the result, and the two maps afterwards; \<open>None\<close> is outside the contract.\<close>

fun spec_op :: "string \<Rightarrow> trash_op \<Rightarrow> fs \<times> bin \<Rightarrow> (int \<times> fs \<times> bin) option" where
  "spec_op base (Unlink e p) (live, bin) =
     (if get_trash_base (e_base e) \<noteq> base \<or> \<not> path_ok base p then None
      else case live p of
             None \<Rightarrow> Some (-1, live, bin)
           | Some DirN \<Rightarrow> None
           | Some (FileN c) \<Rightarrow> Some (0, live(p := None), bin(entry_name e p \<mapsto> (p, e_time e, c))))"
| "spec_op base (Restore n) (live, bin) =
     (if \<not> entry_ok n then None
      else case bin n of
             None \<Rightarrow> Some (1, live, bin)
           | Some (p, t, c) \<Rightarrow>
               if can_create live p then Some (0, live(p \<mapsto> FileN c), bin(n := None)) else Some (1, live, bin))"
| "spec_op base (Purge n) (live, bin) =
     (if \<not> entry_ok n then None
      else case bin n of None \<Rightarrow> Some (1, live, bin) | Some x \<Rightarrow> Some (0, live, bin(n := None)))"
| "spec_op base (Create p c) (live, bin) =
     (if \<not> path_ok base p then None
      else if can_create live p then Some (0, live(p \<mapsto> FileN c), bin) else Some (-1, live, bin))"
| "spec_op base (PurgeAll names) (live, bin) = (if listing bin names then Some (0, live, Map.empty) else None)"

fun spec_ops :: "string \<Rightarrow> trash_op list \<Rightarrow> fs \<times> bin \<Rightarrow> (int list \<times> fs \<times> bin) option" where
  "spec_ops base [] st = Some ([], st)"
| "spec_ops base (a # as) st =
     (case spec_op base a st of None \<Rightarrow> None
      | Some (r, st') \<Rightarrow> (case spec_ops base as st' of None \<Rightarrow> None | Some (rs, st'') \<Rightarrow> Some (r # rs, st'')))"

text \<open>The programs: the interceptor, trashctl, and any program that creates or overwrites a file.\<close>

fun run_op :: "string \<Rightarrow> trash_op \<Rightarrow> fs \<Rightarrow> (int \<times> fs) outcome" where
  "run_op base (Unlink e p) fs = unlink e p fs"
| "run_op base (Restore n) fs = Done (cmd_restore base n fs)"
| "run_op base (Purge n) fs = Done (cmd_purge base n fs)"
| "run_op base (Create p c) fs = Done (case fs_create p c fs of None \<Rightarrow> (-1, fs) | Some fs' \<Rightarrow> (0, fs'))"
| "run_op base (PurgeAll names) fs = cmd_purge_all base names fs"

fun run_ops :: "string \<Rightarrow> trash_op list \<Rightarrow> fs \<Rightarrow> (int list \<times> fs) outcome" where
  "run_ops base [] fs = Done ([], fs)"
| "run_ops base (a # as) fs =
     obind (run_op base a fs) (\<lambda>(r, fs'). obind (run_ops base as fs') (\<lambda>(rs, fs''). Done (r # rs, fs'')))"

section \<open>Tree-shaped file systems\<close>

text \<open>What has something below it is a directory.\<close>

definition tree :: "fs \<Rightarrow> bool" where
  "tree fs \<longleftrightarrow> (\<forall>p q. p \<noteq> [] \<longrightarrow> under p q \<longrightarrow> fs q \<noteq> None \<longrightarrow> fs p = Some DirN)"

lemma tree_leaf: "tree fs \<Longrightarrow> p \<noteq> [] \<Longrightarrow> fs p \<noteq> Some DirN \<Longrightarrow> leaf fs p"
  by (auto simp: tree_def leaf_def)

lemma split_dir:
  assumes "slash \<in> set q"
  obtains d x where "q = d @ slash # x" "slash \<notin> set x" "dir_of q = (if d = [] then [slash] else d)"
proof -
  obtain x r where x: "rev q = x @ slash # r" "slash \<notin> set x" using split_list_first[of slash "rev q"] assms by auto
  then have "rev (rev q) = rev (x @ slash # r)" by (simp only:)
  then have "q = rev r @ slash # rev x" by simp
  moreover have "dropWhile (\<lambda>c. c \<noteq> slash) (x @ slash # r) = slash # r" using x(2) by (subst dropWhile_append2) auto
  then have "dir_of q = (if rev r = [] then [slash] else rev r)" unfolding dir_of_def x(1) by (simp split: list.splits)
  ultimately show thesis using x(2) by (intro that[of "rev r" "rev x"]) simp_all
qed

lemma under_slash: "under p q \<Longrightarrow> slash \<in> set q"
  by (auto simp: under_def prefix_def)

lemma under_dir_of: "under p q \<Longrightarrow> p \<noteq> [] \<Longrightarrow> p = dir_of q \<or> under p (dir_of q)"
proof -
  assume u: "under p q" and p: "p \<noteq> []"
  from under_slash[OF u] obtain d x where d: "q = d @ slash # x" "slash \<notin> set x" "dir_of q = (if d = [] then [slash] else d)"
    by (rule split_dir)
  have "p = d \<or> under p d" using under_join[of p d x] u d by simp
  then show ?thesis using p d(3) by (auto simp: under_def)
qed

lemma tree_remove: "tree fs \<Longrightarrow> fs p \<noteq> Some DirN \<Longrightarrow> tree (fs(p := None))"
  by (auto simp: tree_def)

lemma tree_store:
  assumes "tree fs" "fs (dir_of q) = Some DirN" "fs q \<noteq> Some DirN"
  shows "tree (fs(q \<mapsto> FileN c))"
  unfolding tree_def
proof (intro allI impI)
  fix p r assume p: "p \<noteq> []" "under p r" "(fs(q \<mapsto> FileN c)) r \<noteq> None"
  have "fs p = Some DirN"
  proof (cases "r = q")
    case True
    then show ?thesis using under_dir_of[of p q] p assms(1,2) by (auto simp: tree_def)
  next
    case False
    then show ?thesis using p assms(1) by (auto simp: tree_def)
  qed
  then show "(fs(q \<mapsto> FileN c)) p = Some DirN" using assms(3) by auto
qed

section \<open>The abstraction\<close>

text \<open>What the trash holds for an entry.\<close>

definition file_of :: "(string \<times> string \<times> string) option \<Rightarrow> node option" where
  "file_of e = map_option (\<lambda>(p, t, c). FileN c) e"

definition info_of :: "(string \<times> string \<times> string) option \<Rightarrow> node option" where
  "info_of e = map_option (\<lambda>(p, t, c). FileN (info_text p t (length c))) e"

definition entries_stored :: "string \<Rightarrow> bin \<Rightarrow> fs \<Rightarrow> bool" where
  "entries_stored base bin fs \<longleftrightarrow>
     (\<forall>n. entry_ok n \<longrightarrow> fs (file_path base n) = file_of (bin n) \<and> fs (info_path base n) = info_of (bin n))"

definition trash_rel :: "string \<Rightarrow> fs \<Rightarrow> bin \<Rightarrow> fs \<Rightarrow> bool" where
  "trash_rel base live bin fs \<longleftrightarrow> trash_ready base fs \<and> tree fs \<and>
     (\<forall>q. \<not> prefix (trash_root base) q \<longrightarrow> fs q = live q) \<and>
     entries_stored base bin fs \<and>
     (\<forall>n p t c. bin n = Some (p, t, c) \<longrightarrow> entry_ok n \<and> path_ok base p)"

text \<open>The paths of the entries are different from each other, from the directories of the trash, and lie in the trash.\<close>

lemma entry_paths:
  assumes "trash_ready base fs" "entry_ok n" "entry_ok m"
  shows "file_path base n = file_path base m \<longleftrightarrow> n = m" "info_path base n = info_path base m \<longleftrightarrow> n = m"
    "file_path base n \<noteq> info_path base m" "prefix (trash_root base) (file_path base n)" "prefix (trash_root base) (info_path base n)"
    "file_path base n \<notin> {trash_root base, trash_files base, trash_info base}"
    "info_path base n \<notin> {trash_root base, trash_files base, trash_info base}"
proof -
  have l: "length n \<le> 255" "length m \<le> 255" using assms(2,3) by (simp_all add: entry_ok_def)
  note n = trash_paths[OF assms(1) l(1)] and m = trash_paths[OF assms(1) l(2)]
  show "file_path base n = file_path base m \<longleftrightarrow> n = m" "info_path base n = info_path base m \<longleftrightarrow> n = m"
    using n(1,2) m(1,2) by auto
  show "file_path base n \<noteq> info_path base m" "prefix (trash_root base) (file_path base n)" "prefix (trash_root base) (info_path base n)"
    "file_path base n \<notin> {trash_root base, trash_files base, trash_info base}"
    "info_path base n \<notin> {trash_root base, trash_files base, trash_info base}"
    unfolding n(1,2) m(2) n(5-7) by (auto simp: prefix_def)
qed

lemma outside_dir: "path_ok base p \<Longrightarrow> \<not> prefix (trash_root base) (dir_of p)"
proof -
  assume p: "path_ok base p"
  then have "slash \<in> set p" by (cases p) (auto simp: path_ok_def)
  then obtain d x where "p = d @ slash # x" "dir_of p = (if d = [] then [slash] else d)" by (rule split_dir)
  then have "prefix (dir_of p) p" by (auto simp: prefix_def)
  then show ?thesis using p by (auto simp: path_ok_def dest: prefix_order.trans)
qed

lemma in_trash:
  assumes "trash_ready base fs"
  shows "prefix (trash_root base) (trash_root base)" "prefix (trash_root base) (trash_files base)" "prefix (trash_root base) (trash_info base)"
  using trash_paths(5-7)[OF assms, of "[]"] by simp_all

text \<open>A change outside the trash, and a change of one entry.\<close>

lemma rel_live:
  assumes "trash_rel base live bin fs" "\<not> prefix (trash_root base) p" "tree (fs(p := x))"
  shows "trash_rel base (live(p := x)) bin (fs(p := x))"
proof -
  have r: "trash_ready base fs" using assms(1) by (simp add: trash_rel_def)
  have "p \<noteq> file_path base n" "p \<noteq> info_path base n" if "entry_ok n" for n
    using entry_paths(4,5)[OF r that that] assms(2) by auto
  then have "entries_stored base bin (fs(p := x))" using assms(1) by (auto simp: trash_rel_def entries_stored_def)
  moreover have "trash_ready base (fs(p := x))" using in_trash[OF r] assms(2) r by (auto simp: trash_ready_def)
  ultimately show ?thesis using assms by (simp add: trash_rel_def)
qed

lemma rel_bin:
  assumes "trash_rel base live bin fs" "entry_ok n" "\<And>p t c. e = Some (p, t, c) \<Longrightarrow> path_ok base p"
  shows "trash_rel base live (bin(n := e)) (fs(file_path base n := file_of e, info_path base n := info_of e))"
proof -
  let ?d = "file_path base n" and ?i = "info_path base n"
  have r: "trash_ready base fs" and t: "tree fs" using assms(1) by (simp_all add: trash_rel_def)
  have l: "length n \<le> 255" "slash \<notin> set n" using assms(2) by (simp_all add: entry_ok_def)
  note dirs = trash_dirs[OF r l] and own = entry_paths[OF r assms(2,2)]
  have old: "fs ?d \<noteq> Some DirN" "fs ?i \<noteq> Some DirN"
    using assms(1,2) by (auto simp: trash_rel_def entries_stored_def file_of_def info_of_def)
  have d: "tree (fs(?d := file_of e))" using tree_remove[OF t old(1)] tree_store[OF t _ old(1)] dirs(1) r
    by (cases e) (auto simp: file_of_def trash_ready_def)
  have "tree (fs(?d := file_of e, ?i := info_of e))"
    using tree_remove[OF d, of ?i] tree_store[OF d, of ?i] old dirs(2,3) own(6) r
    by (cases e) (auto simp: info_of_def trash_ready_def)
  moreover have "trash_ready base (fs(?d := file_of e, ?i := info_of e))" using r own(6,7) by (auto simp: trash_ready_def)
  moreover have "?d \<noteq> file_path base m \<and> ?d \<noteq> info_path base m \<and> ?i \<noteq> file_path base m \<and> ?i \<noteq> info_path base m"
    if "entry_ok m" "m \<noteq> n" for m
    using entry_paths[OF r assms(2) that(1)] entry_paths(3)[OF r that(1) assms(2)] that(2) by auto
  then have "entries_stored base (bin(n := e)) (fs(?d := file_of e, ?i := info_of e))"
    using assms(1) own(3) unfolding trash_rel_def entries_stored_def by (simp add: fun_upd_def) metis
  moreover have "q \<noteq> ?d" "q \<noteq> ?i" if "\<not> prefix (trash_root base) q" for q using own(4,5) that by auto
  ultimately show ?thesis using assms unfolding trash_rel_def by (auto split: if_splits)
qed

section \<open>The operations\<close>

lemma relD:
  assumes "trash_rel base live bin fs"
  shows "trash_ready base fs" "tree fs" "\<not> prefix (trash_root base) q \<Longrightarrow> fs q = live q"
    "entry_ok n \<Longrightarrow> fs (file_path base n) = file_of (bin n)" "entry_ok n \<Longrightarrow> fs (info_path base n) = info_of (bin n)"
    "bin n = Some (p, t, c) \<Longrightarrow> entry_ok n \<and> path_ok base p"
  using assms unfolding trash_rel_def entries_stored_def by blast+

lemma file_of_simps [simp]: "file_of None = None" "file_of (Some (p, t, c)) = Some (FileN c)" "file_of e \<noteq> Some DirN"
  "info_of None = None" "info_of (Some (p, t, c)) = Some (FileN (info_text p t (length c)))" "info_of e \<noteq> Some DirN"
  by (auto simp: file_of_def info_of_def)

lemma entry_leaf:
  assumes "trash_rel base live bin fs" "entry_ok n"
  shows "leaf fs (file_path base n)"
proof (rule tree_leaf[OF relD(2)[OF assms(1)]])
  show "file_path base n \<noteq> []"
    using trash_paths(1,3)[OF relD(1)[OF assms(1)], of n] assms(2) by (simp add: entry_ok_def)
  show "fs (file_path base n) \<noteq> Some DirN" using relD(4)[OF assms] by simp
qed

lemma outside_neq:
  assumes "trash_rel base live bin fs" "entry_ok n" "path_ok base p"
  shows "p \<noteq> file_path base n" "p \<noteq> info_path base n" "\<not> under (file_path base n) p"
proof -
  note own = entry_paths(4,5)[OF relD(1)[OF assms(1)] assms(2,2)]
  show "p \<noteq> file_path base n" "p \<noteq> info_path base n" using own assms(3) by (auto simp: path_ok_def)
  show "\<not> under (file_path base n) p"
    using own(1) assms(3) by (auto simp: path_ok_def under_def dest: append_prefixD prefix_order.trans)
qed

lemma unlink_op:
  assumes "trash_rel base live bin fs" "get_trash_base (e_base e) = base" "path_ok base p" "live p = Some (FileN c)"
  shows "\<exists>fs'. unlink e p fs = Done (0, fs') \<and>
    trash_rel base (live(p := None)) (bin(entry_name e p \<mapsto> (p, e_time e, c))) fs'"
proof -
  let ?n = "entry_name e p"
  have n: "entry_ok ?n" using entry_name_ok by (simp add: entry_ok_def)
  have out: "\<not> prefix (trash_root base) p" "p \<noteq> []" using assms(3) by (simp_all add: path_ok_def)
  have p: "fs p = Some (FileN c)" using relD(3)[OF assms(1) out(1)] assms(4) by simp
  have "deletable base p c fs"
    using assms(3) p tree_leaf[OF relD(2)[OF assms(1)] out(2)] by (simp add: deletable_def path_ok_def)
  then have "unlink e p fs = Done (0, fs(p := None, file_path base ?n := file_of (Some (p, e_time e, c)),
      info_path base ?n := info_of (Some (p, e_time e, c))))"
    using unlink_moves[OF relD(1)[OF assms(1)] assms(2)[symmetric], of p c ?n] relD(4,5)[OF assms(1) n] entry_leaf[OF assms(1) n] by simp
  moreover have "trash_rel base (live(p := None)) bin (fs(p := None))"
    using rel_live[OF assms(1) out(1)] tree_remove[OF relD(2)[OF assms(1)]] p by simp
  from rel_bin[OF this n, of "Some (p, e_time e, c)"]
  have "trash_rel base (live(p := None)) (bin(?n \<mapsto> (p, e_time e, c)))
    (fs(p := None, file_path base ?n := file_of (Some (p, e_time e, c)), info_path base ?n := info_of (Some (p, e_time e, c))))"
    using assms(3) by simp
  ultimately show ?thesis by blast
qed

lemma unlink_missing:
  assumes "trash_rel base live bin fs" "get_trash_base (e_base e) = base" "path_ok base p" "live p = None"
  shows "unlink e p fs = Done (-1, fs)"
proof -
  have "fs p = None" using relD(3)[OF assms(1), of p] assms(3,4) by (simp add: path_ok_def)
  then show ?thesis
    using assms(2,3) ensure_ready[OF relD(1)[OF assms(1)]]
    by (simp add: unlink_def unlink_at_def build_abs_path_def path_ok_def move_to_trash_def Let_def kernel_path_def pass_on_def real_unlink_def)
qed

lemma restore_op:
  assumes "trash_rel base live bin fs" "bin n = Some (p, t, c)"
  shows "if can_create live p
    then \<exists>fs'. cmd_restore base n fs = (0, fs') \<and> trash_rel base (live(p \<mapsto> FileN c)) (bin(n := None)) fs'
    else cmd_restore base n fs = (1, fs)"
proof -
  let ?d = "file_path base n" and ?i = "info_path base n"
  have ok: "entry_ok n" "path_ok base p" using relD(6)[OF assms] by simp_all
  then have out: "\<not> prefix (trash_root base) p" "p \<noteq> []" "newline \<notin> set p" "NUL \<notin> set p" "length p \<le> 240" by (simp_all add: path_ok_def)
  have di: "fs ?d = Some (FileN c)" "fs ?i = Some (FileN (info_text p t (length c)))"
    using relD(4,5)[OF assms(1) ok(1)] assms(2) by simp_all
  have live: "fs p = live p" "fs (dir_of p) = live (dir_of p)"
    using relD(3)[OF assms(1)] out(1) outside_dir[OF ok(2)] by simp_all
  have orig: "first_original (file_lines (info_text p t (length c))) = p" by (rule original_short[OF out(3,4,2,5)])
  note neq = outside_neq[OF assms(1) ok]
  have di_neq: "?d \<noteq> ?i" by (rule entry_paths(3)[OF relD(1)[OF assms(1)] ok(1) ok(1)])
  show ?thesis
  proof (cases "can_create live p")
    case True
    then have c: "fs (dir_of p) = Some DirN" "fs p \<noteq> Some DirN" using live by (simp_all add: can_create_def)
    have leaves: "leaf fs ?d" "leaf fs p"
      using entry_leaf[OF assms(1) ok(1)] tree_leaf[OF relD(2)[OF assms(1)] out(2) c(2)] by simp_all
    have "fs_rename ?d p fs = Some (fs(?d := None, p \<mapsto> FileN c))"
      using c neq di(1) fs_moved_leaf[OF leaves] by (cases "fs p") (auto simp: fs_rename_def)
    then have "cmd_restore base n fs = (0, fs(?d := None, p \<mapsto> FileN c, ?i := None))"
      using di c orig out(2) neq(2) di_neq by (simp add: cmd_restore_def Let_def pass_on_def real_unlink_def)
    moreover have "fs(?d := None, p \<mapsto> FileN c, ?i := None) = fs(p \<mapsto> FileN c, ?d := file_of None, ?i := info_of None)"
      using neq by (simp add: fun_upd_twist)
    moreover have "trash_rel base (live(p \<mapsto> FileN c)) bin (fs(p \<mapsto> FileN c))"
      using rel_live[OF assms(1) out(1)] tree_store[OF relD(2)[OF assms(1)] c] by blast
    from rel_bin[OF this ok(1), of None]
    have "trash_rel base (live(p \<mapsto> FileN c)) (bin(n := None)) (fs(p \<mapsto> FileN c, ?d := file_of None, ?i := info_of None))" by simp
    ultimately show ?thesis using True by auto
  next
    case False
    then have "fs_rename ?d p fs = None \<or> fs (dir_of p) = None" using di(1) live by (auto simp: fs_rename_def can_create_def)
    then show ?thesis using False di(2) orig out(2) by (auto simp: cmd_restore_def Let_def)
  qed
qed

lemma purge_op:
  assumes "trash_rel base live bin fs" "entry_ok n"
  shows "if bin n = None then cmd_purge base n fs = (1, fs)
    else \<exists>fs'. cmd_purge base n fs = (0, fs') \<and> trash_rel base live (bin(n := None)) fs'"
proof -
  let ?d = "file_path base n" and ?i = "info_path base n"
  have di: "fs ?d = file_of (bin n)" "fs ?i = info_of (bin n)" using relD(4,5)[OF assms] by simp_all
  have di_neq: "?d \<noteq> ?i" by (rule entry_paths(3)[OF relD(1)[OF assms(1)] assms(2,2)])
  show ?thesis
  proof (cases "bin n")
    case None
    then show ?thesis using di by (simp add: cmd_purge_def pass_on_def real_unlink_def)
  next
    case (Some x)
    obtain p t c where x: "x = (p, t, c)" by (cases x) auto
    have "cmd_purge base n fs = (0, fs(?d := file_of None, ?i := info_of None))"
      using di Some x di_neq by (simp add: cmd_purge_def pass_on_def real_unlink_def)
    then show ?thesis using Some rel_bin[OF assms, of None] by simp
  qed
qed

lemma create_op:
  assumes "trash_rel base live bin fs" "path_ok base p"
  shows "if can_create live p then \<exists>fs'. fs_create p c fs = Some fs' \<and> trash_rel base (live(p \<mapsto> FileN c)) bin fs'
    else fs_create p c fs = None"
proof -
  have out: "\<not> prefix (trash_root base) p" using assms(2) by (simp add: path_ok_def)
  have live: "fs p = live p" "fs (dir_of p) = live (dir_of p)"
    using relD(3)[OF assms(1)] out outside_dir[OF assms(2)] by simp_all
  show ?thesis
    using rel_live[OF assms(1) out, of "Some (FileN c)"] tree_store[OF relD(2)[OF assms(1)], of p c] live
    by (auto simp: fs_create_def can_create_def)
qed

text \<open>Names of the info directory.\<close>

lemma entry_id_info: "n \<noteq> [] \<Longrightarrow> length n < 64 \<Longrightarrow> entry_id (n @ ''.info'') = Done (Some n)"
  by (cases n) (simp_all add: entry_id_def)

lemma entry_id_dots: "entry_id ''.'' = Done None" "entry_id ''..'' = Done None"
  by (simp_all add: entry_id_def)

lemma purge_loop_ok:
  assumes "trash_rel base live bin fs" "distinct names" "set names \<subseteq> {''.'', ''..''} \<union> (\<lambda>n. n @ ''.info'') ` dom bin"
    and "\<forall>n \<in> dom bin. n \<noteq> [] \<and> length n < 64"
  shows "\<exists>fs'. purge_loop base names k fs = Done (k, fs') \<and> trash_rel base live (bin |` {n. n @ ''.info'' \<notin> set names}) fs'"
  using assms
proof (induction names arbitrary: bin fs)
  case Nil
  then show ?case by simp
next
  case (Cons nm names)
  show ?case
  proof (cases "nm \<in> {''.'', ''..''}")
    case True
    then have "bin |` {n. n @ ''.info'' \<notin> set (nm # names)} = bin |` {n. n @ ''.info'' \<notin> set names}"
      by (auto simp: restrict_map_def fun_eq_iff append_eq_Cons_conv)
    moreover have "entry_id nm = Done None" using True entry_id_dots by auto
    ultimately show ?thesis using Cons.IH[OF Cons.prems(1)] Cons.prems(2-4) by auto
  next
    case False
    then obtain n where n: "nm = n @ ''.info''" "n \<in> dom bin" using Cons.prems(3) by auto
    then have i: "entry_id nm = Done (Some n)" "entry_ok n"
      using Cons.prems(4) entry_id_info relD(6)[OF Cons.prems(1), of n] by (simp, auto)
    obtain fs1 where fs1: "cmd_purge base n fs = (0, fs1)" "trash_rel base live (bin(n := None)) fs1"
      using purge_op[OF Cons.prems(1) i(2)] n(2) by (auto split: if_splits)
    have sub: "set names \<subseteq> {''.'', ''..''} \<union> (\<lambda>n. n @ ''.info'') ` dom (bin(n := None))" using Cons.prems(2,3) n(1) by auto
    have rest: "distinct names" "\<forall>m \<in> dom (bin(n := None)). m \<noteq> [] \<and> length m < 64" using Cons.prems(2,4) by auto
    then obtain fs' where "purge_loop base names k fs1 = Done (k, fs')"
      "trash_rel base live ((bin(n := None)) |` {n. n @ ''.info'' \<notin> set names}) fs'"
      using Cons.IH[OF fs1(2) rest(1) sub rest(2)] by blast
    moreover have "(bin(n := None)) |` {n. n @ ''.info'' \<notin> set names} = bin |` {n. n @ ''.info'' \<notin> set (nm # names)}"
      using n(1) by (auto simp: restrict_map_def fun_eq_iff)
    ultimately show ?thesis using i(1) fs1(1) by auto
  qed
qed

lemma purge_all_op:
  assumes "trash_rel base live bin fs" "listing bin names"
  shows "\<exists>fs'. cmd_purge_all base names fs = Done (0, fs') \<and> trash_rel base live Map.empty fs'"
proof -
  have "bin |` {n. n @ ''.info'' \<notin> set names} = Map.empty"
    using assms(2) by (auto simp: listing_def restrict_map_def fun_eq_iff)
  moreover have "fs (trash_info base) = Some DirN" using relD(1)[OF assms(1)] by (simp add: trash_ready_def)
  ultimately show ?thesis
    using purge_loop_ok[OF assms(1), of names 0] assms(2) by (auto simp: listing_def cmd_purge_all_def)
qed

lemma run_op_refines:
  assumes "trash_rel base live bin fs" "spec_op base a (live, bin) = Some (r, live', bin')"
  shows "\<exists>fs'. run_op base a fs = Done (r, fs') \<and> trash_rel base live' bin' fs'"
proof (cases a)
  case (Unlink e p)
  then show ?thesis
    using assms unlink_op[OF assms(1), of e p] unlink_missing[OF assms(1), of e p]
    by (auto split: if_splits option.splits node.splits)
next
  case (Restore n)
  then show ?thesis
    using assms restore_op[OF assms(1), of n] relD(5)[OF assms(1), of n]
    by (auto simp: cmd_restore_def split: if_splits option.splits prod.splits)
next
  case (Purge n)
  then show ?thesis using assms purge_op[OF assms(1), of n] by (auto split: if_splits option.splits)
next
  case (Create p c)
  then show ?thesis using assms create_op[OF assms(1), of p c] by (auto split: if_splits)
next
  case (PurgeAll names)
  then show ?thesis using assms purge_all_op[OF assms(1), of names] by (auto split: if_splits)
qed


lemma treeI:
  assumes "\<And>q. fs q \<noteq> None \<Longrightarrow> q \<noteq> [slash] \<Longrightarrow> fs (dir_of q) = Some DirN"
  shows "tree fs"
proof -
  have "fs p = Some DirN" if "p \<noteq> []" "under p q" "fs q \<noteq> None" for p q
    using that
  proof (induction "length q" arbitrary: q rule: less_induct)
    case less
    have ne: "q \<noteq> [slash]" using less.prems(1,2) by (auto simp: under_def prefix_def append_eq_Cons_conv)
    then have d: "fs (dir_of q) = Some DirN" using assms less.prems(3) by blast
    obtain d x where q: "q = d @ slash # x" "dir_of q = (if d = [] then [slash] else d)"
      using split_dir[OF under_slash[OF less.prems(2)]] by metis
    then have "length (dir_of q) < length q" using ne by (auto simp: length_Suc_conv)
    then show ?case using less.hyps[of "dir_of q"] under_dir_of[OF less.prems(2,1)] less.prems(1) d by auto
  qed
  then show ?thesis by (simp add: tree_def)
qed

lemma sample_tree: "tree sample_fs"
proof (rule treeI)
  fix q assume q: "sample_fs q \<noteq> None" "q \<noteq> [slash]"
  then have "q \<in> {''/t'', ''/t/.trash'', ''/t/.trash/files'', ''/t/.trash/info'', ''/a.c'', ''/b.c''}"
    by (auto simp: sample_fs_def split: if_splits)
  then show "sample_fs (dir_of q) = Some DirN" by (auto simp: dir_of_def sample_fs_def)
qed

lemma sample_rel: "trash_rel ''/t'' sample_fs Map.empty sample_fs"
proof -
  have "sample_fs (file_path ''/t'' n) = None \<and> sample_fs (info_path ''/t'' n) = None" if "entry_ok n" for n
    using trash_paths(1,2,5,6)[OF sample_ready(1), of n] that by (simp add: entry_ok_def sample_fs_def)
  then show ?thesis using sample_ready(1) sample_tree by (simp add: trash_rel_def entries_stored_def)
qed


section \<open>The listing\<close>

lemma dec_length: "n < 10 ^ k \<Longrightarrow> 0 < k \<Longrightarrow> length (dec n) \<le> k"
proof (induction n arbitrary: k rule: dec.induct)
  case (1 n)
  show ?case
  proof (cases "n < 10")
    case True
    then show ?thesis using 1(3) by (subst dec.simps) simp
  next
    case False
    then obtain j where k: "k = Suc j" "0 < j" using 1(2) by (cases k; cases "k - 1") auto
    then have "n div 10 < 10 ^ j" using 1(2) by (simp add: less_mult_imp_div_less mult.commute)
    then show ?thesis using 1(1)[OF False] k False by (subst dec.simps) simp
  qed
qed

lemma newline_dec: "newline \<notin> set (dec n)"
  using set_dec[of newline n] by (metis digit_neq(2))

lemma file_lines_cons: "newline \<notin> set l \<Longrightarrow> length l < 255 \<Longrightarrow> file_lines (l @ newline # r) = (l @ [newline]) # file_lines r"
  by (subst file_lines.simps) (simp add: fgets_newline)

lemma file_lines_info:
  assumes "newline \<notin> set p" "length p \<le> 240" "newline \<notin> set t" "length t < 32" "sz < 2 ^ 63"
  shows "file_lines (info_text p t sz) =
    [''original_path='' @ p @ [newline], ''deleted_time='' @ t @ [newline], ''size='' @ dec sz @ [newline]]"
proof -
  have "sz < 10 ^ 19" using assms(5) by simp
  then have d: "length (dec sz) \<le> 19" by (rule dec_length) simp
  have e: "info_text p t sz = (''original_path='' @ p) @ newline # (''deleted_time='' @ t) @ newline # (''size='' @ dec sz) @ newline # []"
    by (simp add: info_text_def)
  have "file_lines [] = []" by (subst file_lines.simps) (simp add: fgets_def)
  then show ?thesis
    unfolding e using assms d newline_dec[of sz]
    by (subst file_lines_cons, simp, simp, subst file_lines_cons, simp, simp, subst file_lines_cons) simp_all
qed

lemma scan_size_dec: "sz < 2 ^ 63 \<Longrightarrow> scan_size (''size='' @ dec sz @ [newline]) = Some (int sz)"
proof -
  assume sz: "sz < 2 ^ 63"
  obtain d r where dr: "dec sz = d # r" by (cases "dec sz") simp_all
  then obtain k where k: "k < 10" "d = digit k" using set_dec[of d sz] by auto
  have "read_digits 0 (dec sz @ [newline]) = sz" by (rule read_digits_stop) (simp add: digit_val_def)
  then show ?thesis using k sz dr by (simp add: scan_size_def clamp_long_def Let_def)
qed

lemma scan_field_line:
  assumes "newline \<notin> set v" "NUL \<notin> set v" "v \<noteq> []"
  shows "scan_field key (key @ v @ [newline]) = Some v"
proof -
  have "takeWhile (\<lambda>c. c \<noteq> newline \<and> c \<noteq> NUL) (v @ [newline]) = v" using assms(1,2) by (subst takeWhile_append2) auto
  then show ?thesis using assms(3) by (simp add: scan_field_def)
qed

definition time_ok :: "string \<Rightarrow> bool" where
  "time_ok t \<longleftrightarrow> t \<noteq> [] \<and> length t < 32 \<and> newline \<notin> set t \<and> NUL \<notin> set t"

lemma scan_info_text:
  assumes "path_ok base p" "time_ok t" "sz < 2 ^ 63"
  shows "scan_info (file_lines (info_text p t sz)) ([], [], 0) = Done (p, t, int sz)"
proof -
  have p: "newline \<notin> set p" "NUL \<notin> set p" "p \<noteq> []" "length p \<le> 240" and t: "t \<noteq> []" "length t < 32" "newline \<notin> set t" "NUL \<notin> set t"
    using assms(1,2) by (simp_all add: path_ok_def time_ok_def)
  have s: "scan_field ''original_path='' (''deleted_time='' @ t @ [newline]) = None"
    "scan_field ''original_path='' (''size='' @ dec sz @ [newline]) = None" "scan_field ''deleted_time='' (''size='' @ dec sz @ [newline]) = None"
    by (simp_all add: scan_field_def)
  show ?thesis
    unfolding file_lines_info[OF p(1,4) t(3,2) assms(3)]
    using scan_field_line[OF p(1,2,3)] scan_field_line[OF t(3,4,1)] scan_size_dec[OF assms(3)] s t(2)
    by (simp del: append.simps)
qed

text \<open>The row that \<open>list\<close> prints for an entry of the trash.\<close>

definition row_of :: "bin \<Rightarrow> string \<Rightarrow> string \<times> string \<times> int \<times> string" where
  "row_of bin n = (case bin n of None \<Rightarrow> (n, [], 0, []) | Some (p, t, c) \<Rightarrow> (n, t, int (length c), p))"

lemma row_of_entry: "bin n = Some (p, t, c) \<Longrightarrow> row_of bin n = (n, t, int (length c), p)"
  by (simp add: row_of_def)

lemma fst_row_of: "fst (row_of bin n) = n"
  by (simp add: row_of_def split: option.split)

lemma list_rows_cons:
  assumes "trash_ready base fs" "n \<noteq> []" "length n < 64" "path_ok base p" "time_ok t" "length c < 2 ^ 63"
    and "fs (info_path base n) = Some (FileN (info_text p t (length c)))" "list_rows_trash base fs names = Done rows"
  shows "list_rows_trash base fs ((n @ ''.info'') # names) = Done ((n, t, int (length c), p) # rows)"
proof -
  have i: "entry_id (n @ ''.info'') = Done (Some n)" by (rule entry_id_info[OF assms(2,3)])
  have f: "fs (trash_info base @ ''/'' @ n @ ''.info'') = Some (FileN (info_text p t (length c)))"
    using assms(7) trash_paths(2)[OF assms(1), of n] assms(3) by simp
  show ?thesis
    unfolding list_rows_trash.simps(2) i obind.simps option.case f node.case scan_info_text[OF assms(4-6)] assms(8) prod.case ..
qed

lemma list_rows_shown:
  assumes "trash_rel base live bin fs" "\<forall>n p t c. bin n = Some (p, t, c) \<longrightarrow> time_ok t \<and> length c < 2 ^ 63"
    and "\<forall>n\<in>dom bin. n \<noteq> [] \<and> length n < 64"
  shows "distinct names \<Longrightarrow> set names \<subseteq> {''.'', ''..''} \<union> (\<lambda>n. n @ ''.info'') ` dom bin \<Longrightarrow>
    \<exists>ns. list_rows_trash base fs names = Done (map (row_of bin) ns) \<and> distinct ns \<and> set ns = {n \<in> dom bin. n @ ''.info'' \<in> set names}"
proof (induction names)
  case (Cons nm names)
  then obtain ns where ns: "list_rows_trash base fs names = Done (map (row_of bin) ns)" "distinct ns" "set ns = {n \<in> dom bin. n @ ''.info'' \<in> set names}"
    by auto
  show ?case
  proof (cases "nm \<in> {''.'', ''..''}")
    case True
    then have "entry_id nm = Done None" using entry_id_dots by auto
    then have "list_rows_trash base fs (nm # names) = Done (map (row_of bin) ns)" using ns(1) by simp
    moreover have "n @ ''.info'' \<noteq> nm" for n using True by (auto simp: append_eq_Cons_conv)
    ultimately show ?thesis using ns(2,3) by auto
  next
    case False
    then obtain n p t c where n: "nm = n @ ''.info''" "bin n = Some (p, t, c)" using Cons.prems(2) by auto
    then have ok: "n \<noteq> []" "length n < 64" "entry_ok n" "path_ok base p" "time_ok t" "length c < 2 ^ 63"
      using assms(2,3) n(2) relD(6)[OF assms(1) n(2)] by blast+
    have "fs (info_path base n) = Some (FileN (info_text p t (length c)))"
      using relD(5)[OF assms(1) ok(3)] n(2) by simp
    note list_rows_cons[OF relD(1)[OF assms(1)] ok(1,2,4-6) this ns(1)]
    then have "list_rows_trash base fs (nm # names) = Done (map (row_of bin) (n # ns))"
      using n(1) row_of_entry[of bin n p t c, OF n(2)] by (simp only: list.map)
    moreover have "n \<notin> set ns" "set (n # ns) = {m \<in> dom bin. m @ ''.info'' \<in> set (nm # names)}"
      using ns(3) n Cons.prems(1) by auto
    ultimately show ?thesis using ns(2) by (intro exI[of _ "n # ns"]) simp
  qed
qed simp



end
