(* ===== verification/Browser_Session.thy ===== *)
theory Browser_Session
  imports Browser Trash_Refine
begin

text \<open>
  CourseWork: the browser, the interceptor and the commands of trashctl together. The browser runs with the
  interceptor preloaded. A key denotes at most one operation of the vocabulary of theory
  \<open>Trash_Refine\<close>, on what is highlighted at that moment; a session has exactly the effect of the operations
  its keys denote, so it refines the specification of the trash, and it runs to its end.
\<close>

section \<open>What a key denotes\<close>

definition chosen_entry :: "bos \<Rightarrow> browser \<times> fs \<Rightarrow> string option" where
  "chosen_entry os = (\<lambda>(s, fs).
     if b_mode s \<noteq> MODE_TRASH then None
     else case build_trash_entries os fs (b_base s) of
            Done arr \<Rightarrow> map_option be_id (pick arr (b_highlight s))
          | _ \<Rightarrow> None)"

definition chosen_file :: "bos \<Rightarrow> browser \<times> fs \<Rightarrow> string option" where
  "chosen_file os = (\<lambda>(s, fs).
     if b_mode s \<noteq> MODE_FS then None
     else case b_readdir os fs (b_cwd s) of
            None \<Rightarrow> None
          | Some ns \<Rightarrow> map_option (\<lambda>n. snprintf PATH_MAX (b_cwd s @ ''/'' @ n)) (pick ns (b_highlight s)))"

fun key_op :: "bos \<Rightarrow> key \<Rightarrow> browser \<times> fs \<Rightarrow> trash_op option" where
  "key_op os (KDelete e) st = map_option (Unlink e) (chosen_file os st)"
| "key_op os KRestore st = map_option Restore (chosen_entry os st)"
| "key_op os KPurge st = map_option Purge (chosen_entry os st)"
| "key_op os KPurgeAll (s, fs) = (if b_mode s = MODE_TRASH then Some (PurgeAll (trash_names os fs (b_base s))) else None)"
| "key_op os _ st = None"

fun session_ops :: "bos \<Rightarrow> key list \<Rightarrow> browser \<times> fs \<Rightarrow> trash_op list" where
  "session_ops os [] st = []"
| "session_ops os (k # ks) st =
     (if k = KQuit then []
      else (case key_op os k st of None \<Rightarrow> [] | Some a \<Rightarrow> [a]) @
           (case browse_key os True k st of Done st' \<Rightarrow> session_ops os ks st' | _ \<Rightarrow> []))"

definition browse_ops :: "bos \<Rightarrow> string \<Rightarrow> string \<Rightarrow> int \<Rightarrow> int \<Rightarrow> key list \<Rightarrow> fs \<Rightarrow> trash_op list" where
  "browse_ops os base start_dir rows cols keys fs =
     (case redraw os fs (browse_start base start_dir rows cols) of Done st \<Rightarrow> session_ops os keys st | _ \<Rightarrow> [])"

section \<open>One key\<close>

lemma adjust_base [simp]: "b_base (adjust_scroll s) = b_base s"
  by (simp add: adjust_scroll_def)

lemma draw_list_base: "draw_list os fs s = Done (s', rs) \<Longrightarrow> b_base s' = b_base s"
  by (auto simp: draw_list_def Let_def split: if_splits)

lemma redraw_base: "redraw os fs s = Done (s', fs') \<Longrightarrow> fs' = fs \<and> b_base s' = b_base s"
  by (auto simp: redraw_def dest!: draw_list_base)

lemma redraw_trash_base: "redraw_trash os (s, fs) = Done (s', fs') \<Longrightarrow> fs' = fs \<and> b_base s' = b_base s"
  by (auto simp: redraw_trash_def dest!: redraw_base split: if_splits)

lemma moves_base:
  "b_base (key_toggle s) = b_base s" "b_base (key_up s) = b_base s" "b_base (key_down n s) = b_base s"
  "b_base (key_enter os fs s) = b_base s" "b_base (key_backspace s) = b_base s" "b_base (resize r c s) = b_base s"
  by (simp_all add: key_toggle_def key_up_def key_down_def key_enter_def key_backspace_def resize_def Let_def
      split: option.splits)

lemma chosen_feedback [simp]:
  "chosen_file os (s\<lparr>b_feedback := f\<rparr>, fs) = chosen_file os (s, fs)"
  "chosen_entry os (s\<lparr>b_feedback := f\<rparr>, fs) = chosen_entry os (s, fs)"
  by (simp_all add: chosen_file_def chosen_entry_def cong: option.case_cong outcome.case_cong)

text \<open>A command applied to an optional operation.\<close>

definition run_maybe :: "string \<Rightarrow> trash_op option \<Rightarrow> fs \<Rightarrow> fs outcome" where
  "run_maybe base a fs = (case a of None \<Rightarrow> Done fs | Some a \<Rightarrow> obind (run_op base a fs) (\<lambda>(r, fs'). Done fs'))"

lemma key_delete_op: "key_delete os True e fs s = run_maybe (b_base s) (map_option (Unlink e) (chosen_file os (s, fs))) fs"
  by (simp add: key_delete_def chosen_file_def run_maybe_def del_file_def split: option.split)

lemma key_restore_op:
  "key_restore os fs s = Done (s', fs') \<Longrightarrow>
   b_base s' = b_base s \<and> run_maybe (b_base s) (map_option Restore (chosen_entry os (s, fs))) fs = Done fs'"
  by (cases "build_trash_entries os fs (b_base s)"; cases "\<exists>arr e. build_trash_entries os fs (b_base s) = Done arr \<and> pick arr (b_highlight s) = Some e")
    (auto simp: key_restore_def chosen_entry_def run_maybe_def split: if_splits prod.splits)

lemma key_purge_op:
  "key_purge os fs s = Done (s', fs') \<Longrightarrow>
   b_base s' = b_base s \<and> run_maybe (b_base s) (map_option Purge (chosen_entry os (s, fs))) fs = Done fs'"
  by (cases "build_trash_entries os fs (b_base s)"; cases "\<exists>arr e. build_trash_entries os fs (b_base s) = Done arr \<and> pick arr (b_highlight s) = Some e")
    (auto simp: key_purge_def chosen_entry_def run_maybe_def split: if_splits prod.splits)

lemma key_purge_all_op:
  "key_purge_all os fs s = Done (s', fs') \<Longrightarrow>
   b_base s' = b_base s \<and> run_maybe (b_base s) (key_op os KPurgeAll (s, fs)) fs = Done fs'"
  by (auto simp: key_purge_all_def run_maybe_def split: if_splits)

lemma browse_key_op:
  assumes "browse_key os True k (s, fs) = Done (s', fs')"
  shows "b_base s' = b_base s \<and> run_maybe (b_base s) (key_op os k (s, fs)) fs = Done fs'"
proof -
  let ?s = "s\<lparr>b_feedback := []\<rparr>"
  have none: ?thesis if "redraw os fs u = Done (s', fs')" "b_base u = b_base s" "key_op os k (s, fs) = None" for u
    using redraw_base[OF that(1)] that(2,3) by (simp add: run_maybe_def)
  show ?thesis
  proof (cases k)
    case (KDelete e)
    then show ?thesis using assms by (auto simp: browse_key_def key_delete_op Let_def dest!: redraw_base)
  next
    case KRestore
    then show ?thesis using assms
      by (auto simp: browse_key_def dest!: redraw_base redraw_trash_base key_restore_op)
  next
    case KPurge
    then show ?thesis using assms
      by (auto simp: browse_key_def dest!: redraw_base redraw_trash_base key_purge_op)
  next
    case KPurgeAll
    then show ?thesis using assms by (auto simp: browse_key_def dest!: redraw_base key_purge_all_op)
  qed (use assms none in \<open>auto simp: browse_key_def moves_base Let_def\<close>)
qed

section \<open>A session\<close>

definition outcome_fs :: "('a \<times> fs) outcome \<Rightarrow> fs outcome" where
  "outcome_fs m = obind m (\<lambda>(r, fs). Done fs)"

lemma run_maybe_ops:
  "run_maybe base a fs = Done fs' \<Longrightarrow>
   outcome_fs (run_ops base ((case a of None \<Rightarrow> [] | Some a \<Rightarrow> [a]) @ as) fs) = outcome_fs (run_ops base as fs')"
  by (cases a; cases "run_ops base as fs'") (auto simp: run_maybe_def outcome_fs_def)

lemma browse_loop_ops:
  "browse_loop os True ks (s, fs) = Done (s', fs') \<Longrightarrow>
   outcome_fs (run_ops (b_base s) (session_ops os ks (s, fs)) fs) = Done fs'"
proof (induction ks arbitrary: s fs)
  case (Cons k ks)
  show ?case
  proof (cases "k = KQuit")
    case False
    then obtain u fs1 where u: "browse_key os True k (s, fs) = Done (u, fs1)" "browse_loop os True ks (u, fs1) = Done (s', fs')"
      using Cons(2) by (auto split: prod.splits)
    note op = browse_key_op[OF u(1)]
    then show ?thesis using Cons(1)[OF u(2)] False u(1) run_maybe_ops[of "b_base s" "key_op os k (s, fs)" fs fs1] by simp
  qed (use Cons in \<open>simp add: outcome_fs_def\<close>)
qed (simp add: outcome_fs_def)


section \<open>Within the contract of the trash\<close>

text \<open>
  What \<open>readdir\<close> promises of the names in the directory of the trashed files: at most 255 bytes, no slash.
\<close>

definition names_fit :: "bos \<Rightarrow> string \<Rightarrow> bool" where
  "names_fit os base \<longleftrightarrow>
     (\<forall>fs ns. b_readdir os fs (trash_files base) = Some ns \<longrightarrow> list_all (\<lambda>n. length n \<le> 255 \<and> slash \<notin> set n) ns)"

lemma copy_disp_line: "newline \<notin> set p \<Longrightarrow> length p \<le> 250 \<Longrightarrow> copy_disp (base_of (p @ [newline])) = Done (base_of p)"
proof -
  assume p: "newline \<notin> set p" "length p \<le> 250"
  have "length (base_of p) \<le> 250" using order.trans[OF length_takeWhile_le[of _ "rev p"]] p(2) by (simp add: base_of_def)
  moreover have "newline \<notin> set (base_of p)" using p(1) by (auto simp: base_of_def dest: set_takeWhileD)
  ultimately show ?thesis by (auto simp: base_of_newline copy_disp_def Let_def takeWhile_append dest: in_set_takeD)
qed

lemma trash_entry_done:
  assumes "trash_rel base live bin fs" "entry_ok n"
  shows "\<exists>e. trash_entry fs base n = Done e"
proof -
  have n: "length n \<le> 255" using assms(2) by (simp add: entry_ok_def)
  note tp = trash_paths[OF relD(1)[OF assms(1)] n]
  have "length base \<le> 3800" using relD(1)[OF assms(1)] by (simp add: trash_ready_def)
  then have path: "snprintf PATH_MAX (trash_info base @ ''/'' @ n @ ''.info'') = info_path base n" using tp n by simp
  show ?thesis
  proof (cases "bin n")
    case None
    then have "fs (info_path base n) = None" using relD(5)[OF assms] by simp
    then show ?thesis unfolding trash_entry_def path by (simp add: info_lines_def)
  next
    case (Some x)
    obtain p t c where x: "x = (p, t, c)" by (cases x)
    have f: "fs (info_path base n) = Some (FileN (info_text p t (length c)))" using relD(5)[OF assms] Some x by simp
    have p: "newline \<notin> set p" "NUL \<notin> set p" "length p \<le> 240"
      using relD(6)[OF assms(1), of n p t c] Some x by (simp_all add: path_ok_def)
    have "c_string (''original_path='' @ p @ [newline]) = ''original_path='' @ p @ [newline]"
      using p(2) by (auto simp: c_string_def takeWhile_eq_all_conv)
    then have "find_disp (path_lines (info_text p t (length c))) = Done (base_of p)"
      using copy_disp_line[of p] p by (simp add: path_lines_short)
    then show ?thesis unfolding trash_entry_def path by (simp add: info_lines_def f)
  qed
qed

lemma trash_entries_done:
  assumes "trash_rel base live bin fs" "list_all entry_ok ns"
  shows "\<exists>es. trash_entries fs base ns = Done es"
  using assms(2)
proof (induction ns)
  case (Cons n ns)
  then show ?case using trash_entry_done[OF assms(1), of n] by auto
qed simp

lemma build_done:
  assumes "trash_rel base live bin fs" "names_fit os base"
  shows "\<exists>arr. build_trash_entries os fs base = Done arr"
proof (cases "b_readdir os fs (trash_files base)")
  case (Some ns)
  then have "list_all entry_ok ns" using assms(2) by (simp add: names_fit_def entry_ok_def list_all_iff)
  then show ?thesis using trash_entries_done[OF assms(1)] Some by (auto simp: build_trash_entries_def)
qed (simp add: build_trash_entries_def)

lemma redraw_done:
  assumes "trash_rel base live bin fs" "names_fit os base" "b_base s = base"
  shows "\<exists>s'. redraw os fs s = Done (s', fs) \<and> b_base s' = base"
proof -
  obtain arr where arr: "build_trash_entries os fs base = Done arr" using build_done[OF assms(1,2)] by blast
  then have "\<exists>r. draw_list os fs s = Done r" using assms(3) by (auto simp: draw_list_def Let_def)
  then obtain u rs where u: "draw_list os fs s = Done (u, rs)" by auto
  then have b: "b_base u = base" using draw_list_base[OF u] assms(3) by simp
  then have "\<exists>v. draw_info os fs u = Done v" using arr by (auto simp: draw_info_def split: option.splits)
  then show ?thesis using u b by (auto simp: redraw_def)
qed

lemma redraw_trash_done:
  assumes "trash_rel base live bin fs" "names_fit os base" "b_base s = base"
  shows "\<exists>s'. redraw_trash os (s, fs) = Done (s', fs) \<and> b_base s' = base"
  using redraw_done[OF assms] assms(3) by (auto simp: redraw_trash_def)

lemma key_entry_done:
  assumes "build_trash_entries os fs (b_base s) = Done arr"
  shows "\<exists>s' fs'. key_restore os fs s = Done (s', fs')" "\<exists>s' fs'. key_purge os fs s = Done (s', fs')"
  using assms by (auto simp: key_restore_def key_purge_def split: option.splits prod.splits)

lemma key_purge_all_done:
  "run_maybe (b_base s) (key_op os KPurgeAll (s, fs)) fs = Done fs' \<Longrightarrow> \<exists>s'. key_purge_all os fs s = Done (s', fs')"
  by (auto simp: key_purge_all_def run_maybe_def split: if_splits)

text \<open>An operation of the specification that may be absent.\<close>

definition spec_maybe :: "string \<Rightarrow> trash_op option \<Rightarrow> fs \<times> bin \<Rightarrow> (fs \<times> bin) option" where
  "spec_maybe base a st = (case a of None \<Rightarrow> Some st | Some a \<Rightarrow> map_option snd (spec_op base a st))"

lemma run_maybe_refines:
  assumes "trash_rel base live bin fs" "spec_maybe base a (live, bin) = Some (live', bin')"
  shows "\<exists>fs'. run_maybe base a fs = Done fs' \<and> trash_rel base live' bin' fs'"
proof (cases a)
  case (Some b)
  then obtain r where "spec_op base b (live, bin) = Some (r, live', bin')" using assms(2) by (auto simp: spec_maybe_def)
  from run_op_refines[OF assms(1) this] show ?thesis using Some by (auto simp: run_maybe_def)
qed (use assms in \<open>simp add: spec_maybe_def run_maybe_def\<close>)

lemma browse_key_done:
  assumes "trash_rel base live bin fs" "names_fit os base" "b_base s = base"
    and "spec_maybe base (key_op os k (s, fs)) (live, bin) = Some (live', bin')"
  shows "\<exists>s' fs'. browse_key os True k (s, fs) = Done (s', fs') \<and> b_base s' = base \<and> trash_rel base live' bin' fs'"
proof -
  let ?s = "s\<lparr>b_feedback := []\<rparr>"
  obtain fs' where fs': "run_maybe base (key_op os k (s, fs)) fs = Done fs'" "trash_rel base live' bin' fs'"
    using run_maybe_refines[OF assms(1,4)] by blast
  have b: "b_base ?s = base" using assms(3) by simp
  obtain arr where arr: "build_trash_entries os fs (b_base ?s) = Done arr" using build_done[OF assms(1,2)] assms(3) by auto
  have draw: "\<exists>s'. redraw os fs' u = Done (s', fs')" if "b_base u = base" for u
    using redraw_done[OF fs'(2) assms(2) that] by blast
  have draw2: "\<exists>s'. obind (redraw_trash os (u, fs')) (\<lambda>(s', fs'). redraw os fs' s') = Done (s', fs')" if u: "b_base u = base" for u
  proof -
    obtain w where "redraw_trash os (u, fs') = Done (w, fs')" "b_base w = base"
      using redraw_trash_done[OF fs'(2) assms(2) u] by blast
    then show ?thesis using draw[of w] by auto
  qed
  have same: "\<exists>s'. redraw os fs u = Done (s', fs')" if "b_base u = base" "key_op os k (s, fs) = None" for u
    using draw[OF that(1)] fs'(1) that(2) by (simp add: run_maybe_def)
  have "\<exists>s'. browse_key os True k (s, fs) = Done (s', fs')"
  proof (cases k)
    case (KDelete e)
    then have "key_delete os True e fs ?s = Done fs'" using fs'(1) assms(3) by (simp add: key_delete_op)
    then show ?thesis using KDelete draw[OF b] by (simp add: browse_key_def)
  next
    case KRestore
    obtain u fs1 where u: "key_restore os fs ?s = Done (u, fs1)" using key_entry_done(1)[OF arr] by blast
    then have "fs1 = fs'" "b_base u = base" using key_restore_op[OF u] fs'(1) KRestore assms(3) by simp_all
    then show ?thesis using KRestore u draw2[of u] by (simp add: browse_key_def)
  next
    case KPurge
    obtain u fs1 where u: "key_purge os fs ?s = Done (u, fs1)" using key_entry_done(2)[OF arr] by blast
    then have "fs1 = fs'" "b_base u = base" using key_purge_op[OF u] fs'(1) KPurge assms(3) by simp_all
    then show ?thesis using KPurge u draw2[of u] by (simp add: browse_key_def)
  next
    case KPurgeAll
    have "run_maybe (b_base ?s) (key_op os KPurgeAll (?s, fs)) fs = Done fs'"
      using fs'(1) KPurgeAll assms(3) by (cases "b_mode s = MODE_TRASH") simp_all
    then obtain u where u: "key_purge_all os fs ?s = Done (u, fs')" using key_purge_all_done by blast
    then have "b_base u = base" using key_purge_all_op[OF u] assms(3) by simp
    then show ?thesis using KPurgeAll u draw[of u] by (simp add: browse_key_def)
  qed (use same assms(3) in \<open>auto simp: browse_key_def moves_base Let_def\<close>)
  then show ?thesis using fs'(2) browse_key_op assms(3) by blast
qed

lemma spec_maybe_ops:
  assumes "spec_ops base ((case a of None \<Rightarrow> [] | Some a \<Rightarrow> [a]) @ as) (live, bin) = Some (rs, live', bin')"
  obtains live1 bin1 rs1 where "spec_maybe base a (live, bin) = Some (live1, bin1)" "spec_ops base as (live1, bin1) = Some (rs1, live', bin')"
  using assms by (cases a) (auto simp: spec_maybe_def split: option.splits)

lemma browse_loop_refines:
  assumes "trash_rel base live bin fs" "names_fit os base" "b_base s = base"
    and "spec_ops base (session_ops os ks (s, fs)) (live, bin) = Some (rs, live', bin')"
  shows "\<exists>s' fs'. browse_loop os True ks (s, fs) = Done (s', fs') \<and> trash_rel base live' bin' fs'"
  using assms(1,3,4)
proof (induction ks arbitrary: s fs live bin rs)
  case (Cons k ks)
  show ?case
  proof (cases "k = KQuit")
    case False
    let ?next = "case browse_key os True k (s, fs) of Done st \<Rightarrow> session_ops os ks st | _ \<Rightarrow> []"
    obtain live1 bin1 rs1 where one: "spec_maybe base (key_op os k (s, fs)) (live, bin) = Some (live1, bin1)"
      and rest: "spec_ops base ?next (live1, bin1) = Some (rs1, live', bin')"
      using Cons.prems(3) False by (auto elim: spec_maybe_ops)
    obtain s1 fs1 where k: "browse_key os True k (s, fs) = Done (s1, fs1)" "b_base s1 = base" "trash_rel base live1 bin1 fs1"
      using browse_key_done[OF Cons.prems(1) assms(2) Cons.prems(2) one] by blast
    then show ?thesis using Cons.IH[OF k(3,2)] rest False by simp
  qed (use Cons.prems in simp)
qed simp


section \<open>A sample session\<close>

text \<open>Two files below the root, and what the trash directory holds of one entry.\<close>

definition session_bos :: bos where
  "session_bos = \<lparr>b_readdir = (\<lambda>fs p. Some (filter (\<lambda>n. fs (p @ slash # n) \<noteq> None) [''a.c'', ''b.c'', ''17_38383.c''])), b_stat = (\<lambda>fs p. fs p)\<rparr>"

abbreviation session_keys :: "key list" where
  "session_keys \<equiv> [KDelete sample_env, KToggle, KRestore]"

lemma session_names: "names_fit session_bos base"
  by (auto simp: names_fit_def session_bos_def list_all_iff)

lemma redraw_fs_mode: "b_mode s = MODE_FS \<Longrightarrow> redraw os fs s = Done (s, fs)"
  by (simp add: redraw_def draw_list_def draw_info_def)

lemma redraw_frame: "redraw os fs s = Done (s', fs') \<Longrightarrow> b_mode s' = b_mode s \<and> b_highlight s' = b_highlight s"
  by (auto simp: redraw_def draw_list_def Let_def split: if_splits)

lemma sample_listing:
  assumes "trash_rel ''/t'' live bin fs" "dom bin = {''17_38383.c''}"
  shows "\<exists>e. build_trash_entries session_bos fs ''/t'' = Done [e] \<and> be_id e = ''17_38383.c''"
proof -
  have n: "entry_ok ''17_38383.c''" "is_dot ''17_38383.c'' = False" by (simp_all add: entry_ok_def is_dot_def)
  have f: "fs (''/t/.trash/files'' @ slash # m) = file_of (bin m)" if "entry_ok m" for m
  proof -
    have "length m \<le> 255" using that by (simp add: entry_ok_def)
    then have "file_path ''/t'' m = ''/t/.trash/files'' @ slash # m"
      using trash_paths(1)[OF relD(1)[OF assms(1)]] sample_paths(2) by simp
    then show ?thesis using relD(4)[OF assms(1) that] by (simp only:)
  qed
  have "''a.c'' \<notin> dom bin" "''b.c'' \<notin> dom bin" unfolding assms(2) by simp_all
  then have "bin ''a.c'' = None" "bin ''b.c'' = None" by (simp_all only: domIff not_not)
  then have "fs ''/t/.trash/files/a.c'' = None" "fs ''/t/.trash/files/b.c'' = None"
    using f[of "''a.c''"] f[of "''b.c''"] by (simp_all add: entry_ok_def)
  moreover obtain p t c where "bin ''17_38383.c'' = Some (p, t, c)" using assms(2) by (metis domD insertI1 prod_cases3)
  ultimately have "b_readdir session_bos fs (trash_files ''/t'') = Some [''17_38383.c'']"
    using f[OF n(1)] by (simp add: session_bos_def sample_paths)
  moreover obtain e where e: "trash_entry fs ''/t'' ''17_38383.c'' = Done e" using trash_entry_done[OF assms(1) n(1)] by blast
  moreover have "be_id e = ''17_38383.c''" using trash_entry_ok[OF e] by simp
  ultimately show ?thesis using n(2) by (simp add: build_trash_entries_def)
qed

lemma sample_session_ops:
  "browse_ops session_bos ''/t'' [] 24 80 session_keys sample_fs = [Unlink sample_env ''/a.c'', Restore ''17_38383.c'']"
  "spec_ops ''/t'' [Unlink sample_env ''/a.c'', Restore ''17_38383.c''] (sample_fs, Map.empty) = Some ([0, 0], sample_fs, Map.empty)"
proof -
  let ?bin = "[''17_38383.c'' \<mapsto> (''/a.c'', ''now'', ''one'')]" and ?s = "browse_start ''/t'' [] 24 80"
  have e: "get_trash_base (e_base sample_env) = ''/t''" "e_time sample_env = ''now''" "entry_ok ''17_38383.c''"
    by (simp_all add: sample_env_def get_trash_base_def entry_ok_def)
  have p: "path_ok ''/t'' ''/a.c''" "sample_fs ''/a.c'' = Some (FileN ''one'')" by (simp_all add: path_ok_def sample_paths sample_fs_def)
  obtain fs1 where fs1: "unlink sample_env ''/a.c'' sample_fs = Done (0, fs1)" "trash_rel ''/t'' (sample_fs(''/a.c'' := None)) ?bin fs1"
    using unlink_op[OF sample_rel e(1) p] e(2) by (auto simp: sample_name)
  have s: "b_mode ?s = MODE_FS" "?s\<lparr>b_feedback := []\<rparr> = ?s" "b_base (key_toggle ?s) = ''/t''" by (simp_all add: browse_start_def key_toggle_def)
  have highlighted: "chosen_file session_bos (?s, sample_fs) = Some ''/a.c''"
    by (simp add: chosen_file_def session_bos_def browse_start_def sample_fs_def pick_def)
  have key1: "browse_key session_bos True (KDelete sample_env) (?s, sample_fs) = Done (?s, fs1)"
    using highlighted fs1(1) by (simp add: browse_key_def s key_delete_op run_maybe_def redraw_fs_mode)
  obtain u where u: "redraw session_bos fs1 (key_toggle ?s) = Done (u, fs1)" "b_base u = ''/t''"
    using redraw_done[OF fs1(2) session_names s(3)] by blast
  have key2: "browse_key session_bos True KToggle (?s, fs1) = Done (u, fs1)" using u(1) by (simp add: browse_key_def s)
  have m: "b_mode u = MODE_TRASH" "b_highlight u = 0" using redraw_frame[OF u(1)] s(1) by (simp_all add: key_toggle_def)
  obtain en where "build_trash_entries session_bos fs1 ''/t'' = Done [en]" "be_id en = ''17_38383.c''"
    using sample_listing[OF fs1(2)] by auto
  then have entry: "chosen_entry session_bos (u, fs1) = Some ''17_38383.c''" using u(2) m by (simp add: chosen_entry_def pick_def)
  have last: "session_ops session_bos [KRestore] (u, fs1) = [Restore ''17_38383.c'']"
    using entry by (simp split: outcome.split)
  have "session_ops session_bos [KToggle, KRestore] (?s, fs1) = [Restore ''17_38383.c'']"
    unfolding session_ops.simps(2)[of _ KToggle] key2 outcome.case last by simp
  then show "browse_ops session_bos ''/t'' [] 24 80 session_keys sample_fs = [Unlink sample_env ''/a.c'', Restore ''17_38383.c'']"
    using key1 highlighted s(1) by (simp add: browse_ops_def redraw_fs_mode del: session_ops.simps(1))
  have "dir_of ''/a.c'' = ''/''" "sample_fs ''/'' = Some DirN" by (simp_all add: sample_fs_def dir_of_def)
  moreover have "sample_fs(''/a.c'' \<mapsto> FileN ''one'') = sample_fs" using p(2) by (simp add: fun_upd_idem)
  ultimately show "spec_ops ''/t'' [Unlink sample_env ''/a.c'', Restore ''17_38383.c''] (sample_fs, Map.empty) = Some ([0, 0], sample_fs, Map.empty)"
    using p e by (simp add: sample_name can_create_def)
qed

text \<open>Delete the highlighted file, turn to the trash, restore the entry.\<close>

lemma sample_session:
  "\<exists>s fs'. cmd_browse session_bos True ''/t'' [] 24 80 session_keys sample_fs = Done (s, fs')"
proof -
  let ?s = "browse_start ''/t'' [] 24 80"
  have s: "redraw session_bos sample_fs ?s = Done (?s, sample_fs)" "b_base ?s = ''/t''"
    by (simp_all add: redraw_fs_mode browse_start_def)
  have "spec_ops ''/t'' (session_ops session_bos session_keys (?s, sample_fs)) (sample_fs, Map.empty) = Some ([0, 0], sample_fs, Map.empty)"
    using sample_session_ops s(1) unfolding browse_ops_def by (simp only: outcome.case)
  from browse_loop_refines[OF sample_rel session_names s(2) this]
  show ?thesis unfolding cmd_browse_def s(1) obind.simps by blast
qed



end
