(* ===== verification/Cond_Queue.thy ===== *)
theory Cond_Queue
  imports Dyn_Ring Messages
begin

text \<open>
  lab05/src/5.2/queue.c: the resizable queue guarded by a mutex and two condition variables.
  Every function of the file, run by one thread at a time: \<open>Blocks\<close> is a \<open>pthread_cond_wait\<close> that
  nobody else can end, or a \<open>pthread_mutex_lock\<close> on a held mutex. Theory \<open>Cond_System\<close> interleaves
  the threads and has the wake-ups.
\<close>

section \<open>The functions of queue.c\<close>

record 'm condq =
  cq_ring :: "'m dring"
  cq_locked :: bool

definition cond_lock :: "'m condq \<Rightarrow> 'm condq outcome" where
  "cond_lock q = (if cq_locked q then Blocks else Done (q\<lparr>cq_locked := True\<rparr>))"

definition cond_unlock :: "'m condq \<Rightarrow> 'm condq" where
  "cond_unlock q = q\<lparr>cq_locked := False\<rparr>"

lemmas cond_prims = cond_lock_def cond_unlock_def

definition queue_init_cond :: "'m condq" where
  "queue_init_cond = \<lparr>cq_ring = ring_init, cq_locked = False\<rparr>"

text \<open>The conditions of the two waiting loops.\<close>

definition must_wait_full :: "bool \<Rightarrow> 'm dring \<Rightarrow> bool" where
  "must_wait_full running r \<longleftrightarrow> d_count r = d_cap r \<and> running"

definition must_wait_empty :: "bool \<Rightarrow> 'm dring \<Rightarrow> bool" where
  "must_wait_empty running r \<longleftrightarrow> d_count r = 0 \<and> running"

definition queue_push_cond :: "bool \<Rightarrow> 'm condq \<Rightarrow> 'm \<Rightarrow> (int \<times> 'm condq) outcome" where
  "queue_push_cond running q msg =
     obind (cond_lock q) (\<lambda>q.
     if must_wait_full running (cq_ring q) then Blocks
     else if \<not> running then Done (-1, cond_unlock q)
     else obind (push_crit (cq_ring q) msg) (\<lambda>r.
       Done (0, cond_unlock (q\<lparr>cq_ring := r\<rparr>))))"

definition queue_pop_cond :: "bool \<Rightarrow> 'm condq \<Rightarrow> ('m option \<times> 'm condq) outcome" where
  "queue_pop_cond running q =
     obind (cond_lock q) (\<lambda>q.
     if must_wait_empty running (cq_ring q) then Blocks
     else if \<not> running \<and> d_count (cq_ring q) = 0 then Done (None, cond_unlock q)
     else obind (pop_crit (cq_ring q)) (\<lambda>(msg, r).
       Done (Some msg, cond_unlock (q\<lparr>cq_ring := r\<rparr>))))"

definition queue_resize_increase_cond :: "'m condq \<Rightarrow> 'm condq outcome" where
  "queue_resize_increase_cond q =
     obind (cond_lock q) (\<lambda>q.
     obind (grow_ring (cq_ring q)) (\<lambda>r.
     Done (cond_unlock (q\<lparr>cq_ring := r\<rparr>))))"

text \<open>The boolean says whether the capacity was changed.\<close>

definition queue_resize_decrease_cond :: "'m condq \<Rightarrow> (bool \<times> 'm condq) outcome" where
  "queue_resize_decrease_cond q =
     obind (cond_lock q) (\<lambda>q.
     obind (shrink_ring (cq_ring q)) (\<lambda>x.
     case x of None \<Rightarrow> Done (False, cond_unlock q)
     | Some r \<Rightarrow> Done (True, cond_unlock (q\<lparr>cq_ring := r\<rparr>))))"

text \<open>\<open>queue_destroy\<close>: the messages it frees; the structure itself is freed too.\<close>

definition queue_destroy_cond :: "'m condq \<Rightarrow> 'm list outcome" where
  "queue_destroy_cond q =
     obind (cond_lock q) (\<lambda>q. obind (drain (cq_ring q)) (\<lambda>(freed, r). Done freed))"

definition calculate_hash_cond :: "message \<Rightarrow> u16 outcome" where
  "calculate_hash_cond msg =
     (let h = 0;
          h = h + ucast (mtype msg);
          h = h + ucast (msize msg)
      in hash_from (mdata msg) 0 (unat (msize msg)) h)"

lemma calculate_hash_cond_eq: "calculate_hash_cond = calculate_hash"
  by (intro ext) (simp add: calculate_hash_cond_def calculate_hash_def)

section \<open>The contract\<close>

definition cond_sync :: "'m condq \<Rightarrow> bool" where
  "cond_sync q \<longleftrightarrow> ring_invar (cq_ring q) \<and> \<not> cq_locked q"

abbreviation cond_contents :: "'m condq \<Rightarrow> 'm list" where
  "cond_contents q \<equiv> ring_contents (cq_ring q)"

abbreviation cond_cap :: "'m condq \<Rightarrow> nat" where
  "cond_cap q \<equiv> d_cap (cq_ring q)"

lemma queue_init_cond_sync: "cond_sync queue_init_cond"
  using ring_init_invar by (simp add: cond_sync_def queue_init_cond_def)

lemma contents_empty_iff: "ring_contents r = [] \<longleftrightarrow> d_count r = 0"
  by (metis length_ring_contents length_0_conv)

text \<open>The calls of a running program, with the return value dropped.\<close>

definition push_running_cond :: "'m condq \<Rightarrow> 'm \<Rightarrow> 'm condq outcome" where
  "push_running_cond q m = obind (queue_push_cond True q m) (\<lambda>(r, q'). Done q')"

definition pop_running_cond :: "'m condq \<Rightarrow> ('m \<times> 'm condq) outcome" where
  "pop_running_cond q = obind (queue_pop_cond True q) (\<lambda>(m, q'). case m of None \<Rightarrow> Faults | Some p \<Rightarrow> Done (p, q'))"

lemmas cond_call_defs = push_running_cond_def pop_running_cond_def queue_push_cond_def queue_pop_cond_def
  must_wait_full_def must_wait_empty_def cond_sync_def cond_prims

interpretation call52: blocking_fifo push_running_cond pop_running_cond cond_contents cond_cap cond_sync
proof unfold_locales
  fix q :: "'m condq" and m assume q: "cond_sync q"
  show "length (cond_contents q) \<le> cond_cap q"
    using q by (simp add: cond_sync_def ring_invar_def ring_shape_def)
  show "\<exists>q'. push_running_cond q m = Done q' \<and> cond_sync q' \<and>
      cond_contents q' = cond_contents q @ [m] \<and> cond_cap q' = cond_cap q"
    if "length (cond_contents q) < cond_cap q"
    using push_crit_ok[of "cq_ring q" m] q that by (auto simp: cond_call_defs)
  show "\<exists>q'. pop_running_cond q = Done (hd (cond_contents q), q') \<and> cond_sync q' \<and>
      cond_contents q' = tl (cond_contents q) \<and> cond_cap q' = cond_cap q"
    if "cond_contents q \<noteq> []"
    using pop_crit_ok[of "cq_ring q"] q that by (auto simp: cond_call_defs contents_empty_iff)
  show "push_running_cond q m = Blocks" if "length (cond_contents q) = cond_cap q"
    using q that by (simp add: cond_call_defs)
  show "pop_running_cond q = Blocks" if "cond_contents q = []"
    using q that by (simp add: cond_call_defs contents_empty_iff)
qed

text \<open>
  C10. The 5.2 queue meets the contract of the bounded queue: any sequence of \<open>queue_push\<close> and
  \<open>queue_pop\<close> calls behaves as the list queue; the resizing calls keep the stored messages and
  change the capacity by one or, exactly when the messages would fill the smaller ring,
  refuse; and \<open>queue_destroy\<close> frees exactly the stored messages. No call has undefined behaviour.
\<close>

theorem cond_queue_refines_bounded_fifo:
  assumes "cond_sync q"
  shows "map_outcome (map_prod id cond_contents) (fifo_run push_running_cond pop_running_cond q ops) =
      spec_run (cond_cap q) (cond_contents q) ops \<and>
    (\<exists>q'. queue_resize_increase_cond q = Done q' \<and> cond_sync q' \<and> cond_contents q' = cond_contents q \<and>
      cond_cap q' = cond_cap q + 1) \<and>
    (if cond_cap q \<le> 1 \<or> cond_cap q - 1 \<le> length (cond_contents q)
     then queue_resize_decrease_cond q = Done (False, q)
     else \<exists>q'. queue_resize_decrease_cond q = Done (True, q') \<and> cond_sync q' \<and>
       cond_contents q' = cond_contents q \<and> cond_cap q' = cond_cap q - 1) \<and>
    queue_destroy_cond q = Done (cond_contents q)"
proof (intro conjI)
  have inv: "ring_invar (cq_ring q)" and ul: "\<not> cq_locked q" using assms by (simp_all add: cond_sync_def)
  show "map_outcome (map_prod id cond_contents) (fifo_run push_running_cond pop_running_cond q ops) =
      spec_run (cond_cap q) (cond_contents q) ops"
    by (rule call52.run_refines[OF assms])
  show "\<exists>q'. queue_resize_increase_cond q = Done q' \<and> cond_sync q' \<and> cond_contents q' = cond_contents q \<and>
      cond_cap q' = cond_cap q + 1"
    using ring5.grow_ok[OF inv] ul by (auto simp: queue_resize_increase_cond_def cond_sync_def cond_prims)
  show "if cond_cap q \<le> 1 \<or> cond_cap q - 1 \<le> length (cond_contents q)
     then queue_resize_decrease_cond q = Done (False, q)
     else \<exists>q'. queue_resize_decrease_cond q = Done (True, q') \<and> cond_sync q' \<and>
       cond_contents q' = cond_contents q \<and> cond_cap q' = cond_cap q - 1"
    using ring5.shrink_ok[OF inv] ring5.shrink_refused[OF inv] ul
    by (auto simp: queue_resize_decrease_cond_def cond_sync_def cond_prims)
  show "queue_destroy_cond q = Done (cond_contents q)"
    using drain_loop_ok[of "cq_ring q"] inv ul
    by (auto simp: queue_destroy_cond_def cond_prims drain_def ring_invar_def)
qed

theorem cond_queue_refines_bounded_fifo_witness:
  "map_outcome (map_prod id cond_contents)
     (fifo_run push_running_cond pop_running_cond queue_init_cond [Push (1::nat), Push 2, Pop, Push 3]) = Done ([1], [2, 3]) \<and>
   queue_destroy_cond (queue_init_cond :: nat condq) = Done []"
proof -
  have "spec_run 4 [] [Push (1::nat), Push 2, Pop, Push 3] = Done ([1], [2, 3])" by simp
  then show ?thesis
    using cond_queue_refines_bounded_fifo[OF queue_init_cond_sync, of "[Push (1::nat), Push 2, Pop, Push 3]"]
    by (simp add: queue_init_cond_def ring_init_def INITIAL_QUEUE_CAPACITY_def ring_contents_def window_def)
qed

end
