(* ===== verification/Cond_System.thy ===== *)
theory Cond_System
  imports Cond_Queue
begin

text \<open>
  lab05/src/5.2/main.c: producer, consumer and main threads on the queue of \<open>Cond_Queue\<close>.

  A worker is the point it has reached in \<open>producer_task\<close> or \<open>consumer_task\<close>; the main thread is the
  point it has reached in the call a command makes. One step is one mutex operation or one
  critical section; a critical section ends with the wake-up it sends and the unlock. A thread
  in \<open>pthread_cond_wait\<close> leaves it when it is woken, and may leave it spuriously; it then has to
  take the mutex again and tests its condition anew.

  The invariant gives mutual exclusion, first-in first-out delivery, ownership of messages,
  and that no wake-up is lost. \<open>remove_last_producer\<close> can wait for ever for a producer that
  waits for room (\<open>remove_producer_hangs\<close>); after the flag \<open>running\<close> is cleared and everybody has
  been woken all workers end (\<open>cond_shutdown_terminates\<close>).
\<close>

section \<open>Threads and steps\<close>

datatype thr52 =
    KIdle | KLock nat | KTest nat | KWait nat | KPrint nat | KFree nat
  | XIdle | XLock | XTest | XWait | XUse nat
  | Ended

datatype call52 = Increase | Decrease | RemoveProducer | RemoveConsumer | WakeAll | Status

datatype main52 = MainIdle | MainLock call52 | MainCrit call52 | MainJoin nat

record sys52 =
  w_q :: "nat condq"
  w_run :: bool
  w_thr :: "thr52 list"
  w_main :: main52
  w_prods :: "nat list"
  w_cons :: "nat list"
  w_cancel :: "nat set"
  w_live :: "nat set"
  w_in :: "nat list"
  w_out :: "nat list"

abbreviation pc52 :: "sys52 \<Rightarrow> nat \<Rightarrow> thr52 \<Rightarrow> bool" where
  "pc52 s i p \<equiv> at_pc (w_thr s) i p"

abbreviation goto52 :: "nat \<Rightarrow> thr52 \<Rightarrow> sys52 \<Rightarrow> sys52" where
  "goto52 i p s \<equiv> s\<lparr>w_thr := (w_thr s)[i := p]\<rparr>"

abbreviation ring52 :: "sys52 \<Rightarrow> nat dring" where
  "ring52 s \<equiv> cq_ring (w_q s)"

text \<open>Threads waiting on \<open>not_full\<close> and on \<open>not_empty\<close>, and what waking does to them.\<close>

fun waits_full :: "thr52 \<Rightarrow> bool" where
  "waits_full (KWait m) = True" | "waits_full p = False"

fun waits_empty :: "thr52 \<Rightarrow> bool" where
  "waits_empty XWait = True" | "waits_empty p = False"

fun wake :: "thr52 \<Rightarrow> thr52" where
  "wake (KWait m) = KLock m" | "wake XWait = XLock" | "wake p = p"

definition broadcast :: "(thr52 \<Rightarrow> bool) \<Rightarrow> thr52 list \<Rightarrow> thr52 list" where
  "broadcast waits ps = map (\<lambda>p. if waits p then wake p else p) ps"

text \<open>\<open>pthread_cond_signal\<close> wakes one of the waiting threads, if there is one.\<close>

definition signals_one :: "(thr52 \<Rightarrow> bool) \<Rightarrow> thr52 list \<Rightarrow> thr52 list \<Rightarrow> bool" where
  "signals_one waits ps ps' \<longleftrightarrow>
     (if list_ex waits ps
      then list_ex (\<lambda>i. waits (ps ! i) \<and> ps' = ps[i := wake (ps ! i)]) [0..<length ps]
      else ps' = ps)"

text \<open>
  The producer loop. A cancelled thread ends at its \<open>printf\<close> or \<open>sleep\<close>: cancellation is disabled
  inside \<open>queue_push\<close> and \<open>queue_pop\<close>. \<open>KIdle\<close> and \<open>XIdle\<close> stand for the \<open>sleep\<close> and for a new thread, so a
  thread may also be cancelled before its first round.
\<close>

inductive prod52 :: "sys52 \<Rightarrow> sys52 \<Rightarrow> bool" where
  k_alloc: "pc52 s i KIdle \<Longrightarrow> w_run s \<Longrightarrow> m \<notin> w_live s \<Longrightarrow>
    prod52 s (goto52 i (KLock m) (s\<lparr>w_live := insert m (w_live s)\<rparr>))"
| k_end: "pc52 s i KIdle \<Longrightarrow> \<not> w_run s \<Longrightarrow> prod52 s (goto52 i Ended s)"
| k_lock: "pc52 s i (KLock m) \<Longrightarrow> cond_lock (w_q s) = Done q \<Longrightarrow>
    prod52 s (goto52 i (KTest m) (s\<lparr>w_q := q\<rparr>))"
| k_wait: "pc52 s i (KTest m) \<Longrightarrow> must_wait_full (w_run s) (ring52 s) \<Longrightarrow>
    prod52 s (goto52 i (KWait m) (s\<lparr>w_q := cond_unlock (w_q s)\<rparr>))"
| k_stop: "pc52 s i (KTest m) \<Longrightarrow> \<not> w_run s \<Longrightarrow>
    prod52 s (goto52 i (KFree m) (s\<lparr>w_q := cond_unlock (w_q s)\<rparr>))"
| k_store: "pc52 s i (KTest m) \<Longrightarrow> w_run s \<Longrightarrow> \<not> must_wait_full (w_run s) (ring52 s) \<Longrightarrow>
    push_crit (ring52 s) m = Done r \<Longrightarrow> signals_one waits_empty ((w_thr s)[i := KPrint m]) ps \<Longrightarrow>
    prod52 s (s\<lparr>w_q := cond_unlock ((w_q s)\<lparr>cq_ring := r\<rparr>), w_thr := ps, w_in := w_in s @ [m]\<rparr>)"
| k_print: "pc52 s i (KPrint m) \<Longrightarrow> prod52 s (goto52 i KIdle s)"
| k_free: "pc52 s i (KFree m) \<Longrightarrow> prod52 s (goto52 i Ended (s\<lparr>w_live := w_live s - {m}\<rparr>))"
| k_cancel: "pc52 s i p \<Longrightarrow> p = KIdle \<or> p = KPrint m \<Longrightarrow> i \<in> w_cancel s \<Longrightarrow> prod52 s (goto52 i Ended s)"
| k_spurious: "pc52 s i (KWait m) \<Longrightarrow> prod52 s (goto52 i (KLock m) s)"

inductive cons52 :: "sys52 \<Rightarrow> sys52 \<Rightarrow> bool" where
  x_start: "pc52 s i XIdle \<Longrightarrow> w_run s \<Longrightarrow> cons52 s (goto52 i XLock s)"
| x_end: "pc52 s i XIdle \<Longrightarrow> \<not> w_run s \<Longrightarrow> cons52 s (goto52 i Ended s)"
| x_lock: "pc52 s i XLock \<Longrightarrow> cond_lock (w_q s) = Done q \<Longrightarrow> cons52 s (goto52 i XTest (s\<lparr>w_q := q\<rparr>))"
| x_wait: "pc52 s i XTest \<Longrightarrow> must_wait_empty (w_run s) (ring52 s) \<Longrightarrow>
    cons52 s (goto52 i XWait (s\<lparr>w_q := cond_unlock (w_q s)\<rparr>))"
| x_stop: "pc52 s i XTest \<Longrightarrow> \<not> w_run s \<Longrightarrow> d_count (ring52 s) = 0 \<Longrightarrow>
    cons52 s (goto52 i Ended (s\<lparr>w_q := cond_unlock (w_q s)\<rparr>))"
| x_take: "pc52 s i XTest \<Longrightarrow> d_count (ring52 s) \<noteq> 0 \<Longrightarrow> pop_crit (ring52 s) = Done (m, r) \<Longrightarrow>
    signals_one waits_full ((w_thr s)[i := XUse m]) ps \<Longrightarrow>
    cons52 s (s\<lparr>w_q := cond_unlock ((w_q s)\<lparr>cq_ring := r\<rparr>), w_thr := ps, w_out := w_out s @ [m]\<rparr>)"
| x_free: "pc52 s i (XUse m) \<Longrightarrow> cons52 s (goto52 i XIdle (s\<lparr>w_live := w_live s - {m}\<rparr>))"
| x_cancel: "pc52 s i p \<Longrightarrow> p = XIdle \<or> p = XUse m \<Longrightarrow> i \<in> w_cancel s \<Longrightarrow> cons52 s (goto52 i Ended s)"
| x_spurious: "pc52 s i XWait \<Longrightarrow> cons52 s (goto52 i XLock s)"

text \<open>
  The main thread. \<open>remove_last_producer\<close> and \<open>remove_last_consumer\<close> wake everybody on one
  condition, cancel the youngest thread of their kind and join it.
\<close>

definition MAX_PRODS52 :: nat where
  "MAX_PRODS52 = 6"

definition call_allowed :: "call52 \<Rightarrow> sys52 \<Rightarrow> bool" where
  "call_allowed c s \<longleftrightarrow> (c = RemoveProducer \<longrightarrow> w_prods s \<noteq> []) \<and> (c = RemoveConsumer \<longrightarrow> w_cons s \<noteq> [])"

inductive main52_step :: "sys52 \<Rightarrow> sys52 \<Rightarrow> bool" where
  m_call: "w_main s = MainIdle \<Longrightarrow> call_allowed c s \<Longrightarrow> main52_step s (s\<lparr>w_main := MainLock c\<rparr>)"
| m_lock: "w_main s = MainLock c \<Longrightarrow> cond_lock (w_q s) = Done q \<Longrightarrow>
    main52_step s (s\<lparr>w_q := q, w_main := MainCrit c\<rparr>)"
| m_increase: "w_main s = MainCrit Increase \<Longrightarrow> grow_ring (ring52 s) = Done r \<Longrightarrow>
    main52_step s (s\<lparr>w_q := cond_unlock ((w_q s)\<lparr>cq_ring := r\<rparr>), w_thr := broadcast waits_full (w_thr s), w_main := MainIdle\<rparr>)"
| m_decrease: "w_main s = MainCrit Decrease \<Longrightarrow> shrink_ring (ring52 s) = Done (Some r) \<Longrightarrow>
    main52_step s (s\<lparr>w_q := cond_unlock ((w_q s)\<lparr>cq_ring := r\<rparr>), w_thr := broadcast waits_full (w_thr s), w_main := MainIdle\<rparr>)"
| m_refuse: "w_main s = MainCrit Decrease \<Longrightarrow> shrink_ring (ring52 s) = Done None \<Longrightarrow>
    main52_step s (s\<lparr>w_q := cond_unlock (w_q s), w_main := MainIdle\<rparr>)"
| m_remove_producer: "w_main s = MainCrit RemoveProducer \<Longrightarrow> w_prods s \<noteq> [] \<Longrightarrow>
    main52_step s (s\<lparr>w_q := cond_unlock (w_q s), w_thr := broadcast waits_full (w_thr s),
      w_cancel := insert (last (w_prods s)) (w_cancel s), w_prods := butlast (w_prods s), w_main := MainJoin (last (w_prods s))\<rparr>)"
| m_remove_consumer: "w_main s = MainCrit RemoveConsumer \<Longrightarrow> w_cons s \<noteq> [] \<Longrightarrow>
    main52_step s (s\<lparr>w_q := cond_unlock (w_q s), w_thr := broadcast waits_empty (w_thr s),
      w_cancel := insert (last (w_cons s)) (w_cancel s), w_cons := butlast (w_cons s), w_main := MainJoin (last (w_cons s))\<rparr>)"
| m_join: "w_main s = MainJoin i \<Longrightarrow> pc52 s i Ended \<Longrightarrow> main52_step s (s\<lparr>w_main := MainIdle\<rparr>)"
| m_wake_all: "w_main s = MainCrit WakeAll \<Longrightarrow>
    main52_step s (s\<lparr>w_q := cond_unlock (w_q s), w_thr := broadcast waits_full (broadcast waits_empty (w_thr s)), w_main := MainIdle\<rparr>)"
| m_status: "w_main s = MainCrit Status \<Longrightarrow> main52_step s (s\<lparr>w_q := cond_unlock (w_q s), w_main := MainIdle\<rparr>)"
| m_producer: "w_main s = MainIdle \<Longrightarrow> length (w_prods s) < MAX_PRODS52 \<Longrightarrow>
    main52_step s (s\<lparr>w_thr := w_thr s @ [KIdle], w_prods := w_prods s @ [length (w_thr s)]\<rparr>)"
| m_consumer: "w_main s = MainIdle \<Longrightarrow> length (w_cons s) < MAX_PRODS52 \<Longrightarrow>
    main52_step s (s\<lparr>w_thr := w_thr s @ [XIdle], w_cons := w_cons s @ [length (w_thr s)]\<rparr>)"

text \<open>\<open>handle_signal\<close> and the command q clear the flag.\<close>

inductive step52 :: "sys52 \<Rightarrow> sys52 \<Rightarrow> bool" where
  worker_p: "prod52 s t \<Longrightarrow> step52 s t"
| worker_c: "cons52 s t \<Longrightarrow> step52 s t"
| main: "main52_step s t \<Longrightarrow> step52 s t"
| quit: "step52 s (s\<lparr>w_run := False\<rparr>)"

definition start52 :: sys52 where
  "start52 = \<lparr>w_q = queue_init_cond, w_run = True, w_thr = [], w_main = MainIdle, w_prods = [], w_cons = [],
     w_cancel = {}, w_live = {}, w_in = [], w_out = []\<rparr>"

definition reachable52 :: "sys52 \<Rightarrow> bool" where
  "reachable52 s \<longleftrightarrow> step52\<^sup>*\<^sup>* start52 s"

section \<open>The invariant\<close>

text \<open>What a thread contributes to each count.\<close>

fun holds52 :: "thr52 \<Rightarrow> nat" where
  "holds52 (KTest m) = 1" | "holds52 XTest = 1" | "holds52 p = 0"

fun main_holds :: "main52 \<Rightarrow> nat" where
  "main_holds (MainCrit c) = 1" | "main_holds m = 0"

fun wanting_room :: "thr52 \<Rightarrow> nat" where
  "wanting_room (KLock m) = 1" | "wanting_room (KTest m) = 1" | "wanting_room p = 0"

fun wanting_msg :: "thr52 \<Rightarrow> nat" where
  "wanting_msg XLock = 1" | "wanting_msg XTest = 1" | "wanting_msg p = 0"

fun owns52 :: "nat \<Rightarrow> thr52 \<Rightarrow> nat" where
  "owns52 a (KLock m) = of_bool (a = m)" | "owns52 a (KTest m) = of_bool (a = m)" | "owns52 a (KWait m) = of_bool (a = m)"
| "owns52 a (KFree m) = of_bool (a = m)" | "owns52 a (XUse m) = of_bool (a = m)" | "owns52 a p = 0"

definition mutex52 :: "sys52 \<Rightarrow> bool" where
  "mutex52 s \<longleftrightarrow> weight holds52 (w_thr s) + main_holds (w_main s) = (if cq_locked (w_q s) then 1 else 0)"

definition data52 :: "sys52 \<Rightarrow> bool" where
  "data52 s \<longleftrightarrow> ring_invar (ring52 s) \<and> w_in s = w_out s @ ring_contents (ring52 s)"

text \<open>
  No lost wake-up: while a consumer waits, at least as many consumers are on their way as there
  are messages, and while a producer of a running program waits, at least as many producers are
  on their way as there are free cells.
\<close>

definition wakeups52 :: "sys52 \<Rightarrow> bool" where
  "wakeups52 s \<longleftrightarrow>
     (list_ex waits_empty (w_thr s) \<longrightarrow> d_count (ring52 s) \<le> weight wanting_msg (w_thr s)) \<and>
     (w_run s \<longrightarrow> list_ex waits_full (w_thr s) \<longrightarrow> d_cap (ring52 s) \<le> d_count (ring52 s) + weight wanting_room (w_thr s))"

definition heap52 :: "sys52 \<Rightarrow> bool" where
  "heap52 s \<longleftrightarrow> (\<forall>a. count_list (ring_contents (ring52 s)) a + weight (owns52 a) (w_thr s) \<le> of_bool (a \<in> w_live s))"

definition inv52 :: "sys52 \<Rightarrow> bool" where
  "inv52 s \<longleftrightarrow> mutex52 s \<and> data52 s \<and> wakeups52 s \<and> heap52 s"

subsection \<open>Wake-ups and counts\<close>

lemma wake_simps [simp]: "holds52 (wake p) = holds52 p" "owns52 a (wake p) = owns52 a p"
  "\<not> waits_full (wake p)" "\<not> waits_empty (wake p)"
  "waits_full p \<Longrightarrow> wanting_room (wake p) = Suc (wanting_room p)" "waits_empty p \<Longrightarrow> wanting_room (wake p) = wanting_room p"
  "waits_empty p \<Longrightarrow> wanting_msg (wake p) = Suc (wanting_msg p)" "waits_full p \<Longrightarrow> wanting_msg (wake p) = wanting_msg p"
  by (cases p; simp)+

lemma signals_oneE:
  assumes "signals_one waits ps ps'"
  obtains "\<not> list_ex waits ps" "ps' = ps" | i p where "at_pc ps i p" "waits p" "ps' = ps[i := wake p]"
  using assms by (auto simp: signals_one_def list_ex_iff at_pc_def split: if_splits)

lemma signals_keep:
  assumes "signals_one waits ps ps'" "\<And>p. waits p \<Longrightarrow> w (wake p) = w p"
  shows "weight w ps' = weight w ps"
  using assms(1)
proof (cases rule: signals_oneE)
  case (2 i p)
  then show ?thesis using at_pc_weight[OF 2(1), of w "wake p"] assms(2)[of p] by simp
qed simp

lemma signals_add:
  assumes "signals_one waits ps ps'" "list_ex waits ps" "\<And>p. waits p \<Longrightarrow> w (wake p) = Suc (w p)"
  shows "weight w ps' = Suc (weight w ps)"
  using assms(1)
proof (cases rule: signals_oneE)
  case (2 i p)
  then show ?thesis using at_pc_weight[OF 2(1), of w "wake p"] assms(3)[of p] by simp
qed (use assms(2) in simp)

lemma list_ex_update: "list_ex w (ps[i := p]) \<Longrightarrow> list_ex w ps \<or> w p"
  by (auto simp: list_ex_iff dest: set_update_subset_insert[THEN subsetD])

lemma signals_waits:
  assumes "signals_one waits ps ps'" "list_ex w ps'" "\<And>p. \<not> w (wake p)"
  shows "list_ex w ps"
  using assms(1)
proof (cases rule: signals_oneE)
  case (2 i p)
  then show ?thesis using assms(2,3) list_ex_update[of w ps i "wake p"] by auto
qed (use assms(2) in simp)

lemma broadcast_keep: "(\<And>p. waits p \<Longrightarrow> w (wake p) = w p) \<Longrightarrow> weight w (broadcast waits ps) = weight w ps"
  by (auto simp: broadcast_def intro: weight_cong)

lemma broadcast_grows: "(\<And>p. waits p \<Longrightarrow> w p \<le> w (wake p)) \<Longrightarrow> weight w ps \<le> weight w (broadcast waits ps)"
  by (induction ps) (auto simp: broadcast_def intro: add_mono)

lemma broadcast_waits:
  "(\<And>p. \<not> w (wake p)) \<Longrightarrow> list_ex w (broadcast waits ps) \<longleftrightarrow> list_ex (\<lambda>p. w p \<and> \<not> waits p) ps"
  by (auto simp: broadcast_def list_ex_iff)

lemma broadcast_weights [simp]:
  "weight holds52 (broadcast waits ps) = weight holds52 ps" "weight (owns52 a) (broadcast waits ps) = weight (owns52 a) ps"
  "weight wanting_msg (broadcast waits_full ps) = weight wanting_msg ps"
  "weight wanting_room (broadcast waits_empty ps) = weight wanting_room ps"
  by (simp_all add: broadcast_keep)

subsection \<open>One thread moves\<close>

lemma mutex_move:
  assumes "mutex52 s" "pc52 s i p" "weight holds52 (w_thr t) = weight holds52 ((w_thr s)[i := p'])" "w_main t = w_main s"
    and "(if cq_locked (w_q t) then 1 else 0) + holds52 p = (if cq_locked (w_q s) then 1 else 0) + holds52 p'"
  shows "mutex52 t"
  using assms at_pc_weight[OF assms(2), of holds52 p'] by (simp add: mutex52_def)

lemma holds_locked: "mutex52 s \<Longrightarrow> pc52 s i p \<Longrightarrow> holds52 p = 1 \<Longrightarrow> cq_locked (w_q s)"
  using at_pc_weight_ge[of "w_thr s" i p holds52] by (simp add: mutex52_def split: if_splits)

lemma wakeups_move:
  assumes "wakeups52 s" "pc52 s i p" "w_thr t = (w_thr s)[i := p']" "ring52 t = ring52 s" "w_run t = w_run s"
    and "waits_empty p' \<Longrightarrow> d_count (ring52 s) = 0" "waits_full p' \<Longrightarrow> d_count (ring52 s) = d_cap (ring52 s)"
    and "wanting_msg p \<le> wanting_msg p' \<or> d_count (ring52 s) = 0"
    and "wanting_room p \<le> wanting_room p' \<or> d_count (ring52 s) = d_cap (ring52 s) \<or> \<not> w_run s"
  shows "wakeups52 t"
  unfolding wakeups52_def
proof (intro conjI impI)
  assume "list_ex waits_empty (w_thr t)"
  then have "list_ex waits_empty (w_thr s) \<or> d_count (ring52 s) = 0" using assms(3,6) list_ex_update by metis
  then show "d_count (ring52 t) \<le> weight wanting_msg (w_thr t)"
    using assms(1,3,4,8) at_pc_weight[OF assms(2), of wanting_msg p'] by (auto simp: wakeups52_def)
next
  assume r: "w_run t" and "list_ex waits_full (w_thr t)"
  then have "list_ex waits_full (w_thr s) \<or> d_count (ring52 s) = d_cap (ring52 s)" using assms(3,7) list_ex_update by metis
  then show "d_cap (ring52 t) \<le> d_count (ring52 t) + weight wanting_room (w_thr t)"
    using assms(1,3,4,5,9) r at_pc_weight[OF assms(2), of wanting_room p'] by (auto simp: wakeups52_def)
qed

lemma heap_move:
  assumes "heap52 s" "pc52 s i p" "\<And>a. weight (owns52 a) (w_thr t) = weight (owns52 a) ((w_thr s)[i := p'])"
    and "\<And>a. count_list (ring_contents (ring52 t)) a + owns52 a p' + of_bool (a \<in> w_live s) \<le>
      count_list (ring_contents (ring52 s)) a + owns52 a p + of_bool (a \<in> w_live t)"
  shows "heap52 t"
  unfolding heap52_def
proof
  fix a
  have "count_list (ring_contents (ring52 s)) a + weight (owns52 a) (w_thr s) \<le> of_bool (a \<in> w_live s)"
    using assms(1) by (simp add: heap52_def)
  then show "count_list (ring_contents (ring52 t)) a + weight (owns52 a) (w_thr t) \<le> of_bool (a \<in> w_live t)"
    using assms(3,4)[of a] at_pc_weight[OF assms(2), of "owns52 a" p'] by simp
qed

text \<open>A step that leaves the queue's ring alone: all four parts at once.\<close>

lemma inv_move:
  assumes "inv52 s" "pc52 s i p" "w_thr t = (w_thr s)[i := p']" "ring52 t = ring52 s" "w_run t = w_run s"
    and "w_main t = w_main s" "w_in t = w_in s" "w_out t = w_out s"
    and "(if cq_locked (w_q t) then 1 else 0) + holds52 p = (if cq_locked (w_q s) then 1 else 0) + holds52 p'"
    and "waits_empty p' \<Longrightarrow> d_count (ring52 s) = 0" "waits_full p' \<Longrightarrow> d_count (ring52 s) = d_cap (ring52 s)"
    and "wanting_msg p \<le> wanting_msg p' \<or> d_count (ring52 s) = 0"
    and "wanting_room p \<le> wanting_room p' \<or> d_count (ring52 s) = d_cap (ring52 s) \<or> \<not> w_run s"
    and "\<And>a. owns52 a p' + of_bool (a \<in> w_live s) \<le> owns52 a p + of_bool (a \<in> w_live t)"
  shows "inv52 t"
proof -
  have "mutex52 s" "data52 s" "wakeups52 s" "heap52 s" using assms(1) by (simp_all add: inv52_def)
  then show ?thesis
    using mutex_move[of s i p t p'] wakeups_move[of s i p t p'] heap_move[of s i p t p'] assms(2-)
    by (simp add: inv52_def data52_def)
qed

lemma push52:
  assumes "data52 s" "d_count (ring52 s) \<noteq> d_cap (ring52 s)" "push_crit (ring52 s) m = Done r"
  shows "ring_invar r" "ring_contents r = ring_contents (ring52 s) @ [m]" "d_cap r = d_cap (ring52 s)" "d_count r = Suc (d_count (ring52 s))"
proof -
  have "ring_invar (ring52 s)" "d_count (ring52 s) < d_cap (ring52 s)"
    using assms(1,2) by (auto simp: data52_def ring_invar_def ring_shape_def)
  then show "ring_invar r" "ring_contents r = ring_contents (ring52 s) @ [m]" "d_cap r = d_cap (ring52 s)" "d_count r = Suc (d_count (ring52 s))"
    using push_crit_ok[of "ring52 s" m] assms(3) by auto
qed

lemma pop52:
  assumes "data52 s" "d_count (ring52 s) \<noteq> 0" "pop_crit (ring52 s) = Done (m, r)"
  shows "ring_invar r" "ring_contents (ring52 s) = m # ring_contents r" "d_cap r = d_cap (ring52 s)" "Suc (d_count r) = d_count (ring52 s)"
proof -
  have "ring_invar (ring52 s)" "ring_contents (ring52 s) \<noteq> []"
    using assms(1,2) by (auto simp: data52_def contents_empty_iff)
  then show "ring_invar r" "ring_contents (ring52 s) = m # ring_contents r" "d_cap r = d_cap (ring52 s)" "Suc (d_count r) = d_count (ring52 s)"
    using pop_crit_ok[of "ring52 s"] assms(2,3) by auto
qed

subsection \<open>Every step preserves the invariant\<close>

lemma store_inv:
  assumes "inv52 s" "pc52 s i (KTest m)" "d_count (ring52 s) \<noteq> d_cap (ring52 s)" "push_crit (ring52 s) m = Done r"
    and sg: "signals_one waits_empty ((w_thr s)[i := KPrint m]) ps"
  shows "inv52 (s\<lparr>w_q := cond_unlock ((w_q s)\<lparr>cq_ring := r\<rparr>), w_thr := ps, w_in := w_in s @ [m]\<rparr>)" (is "inv52 ?t")
proof -
  have inv: "mutex52 s" "data52 s" "wakeups52 s" "heap52 s" using assms(1) by (simp_all add: inv52_def)
  note r = push52[OF inv(2) assms(3,4)]
  have rt: "ring52 ?t = r" by (simp add: cond_unlock_def)
  note w = at_pc_weight[OF assms(2), where p' = "KPrint m"]
  have keep: "weight holds52 ps = weight holds52 ((w_thr s)[i := KPrint m])"
    "weight (owns52 a) ps = weight (owns52 a) ((w_thr s)[i := KPrint m])"
    "weight wanting_room ps = weight wanting_room ((w_thr s)[i := KPrint m])" for a
    by (rule signals_keep[OF sg]; simp)+
  have "mutex52 ?t"
    using holds_locked[OF inv(1) assms(2)] keep(1) by (intro mutex_move[OF inv(1) assms(2), of _ "KPrint m"]) (simp_all add: cond_unlock_def)
  moreover have "data52 ?t" using inv(2) r by (simp add: data52_def cond_unlock_def)
  moreover have "heap52 ?t"
    using keep(2) r(2) by (intro heap_move[OF inv(4) assms(2), of _ "KPrint m"]) (auto simp: cond_unlock_def)
  moreover have "wakeups52 ?t"
    unfolding wakeups52_def rt
  proof (intro conjI impI)
    assume "list_ex waits_empty (w_thr ?t)"
    then have ex: "list_ex waits_empty ((w_thr s)[i := KPrint m])" using signals_waits[OF sg] by simp
    then have "list_ex waits_empty (w_thr s)" using list_ex_update by force
    then show "d_count r \<le> weight wanting_msg (w_thr ?t)"
      using signals_add[OF sg ex, of wanting_msg] w[of wanting_msg] inv(3) r(4) by (simp add: wakeups52_def)
  next
    assume run: "w_run ?t" and "list_ex waits_full (w_thr ?t)"
    then have "list_ex waits_full ((w_thr s)[i := KPrint m])" using signals_waits[OF sg] by simp
    then have "list_ex waits_full (w_thr s)" using list_ex_update by force
    then show "d_cap r \<le> d_count r + weight wanting_room (w_thr ?t)"
      using run w[of wanting_room] inv(3) r(3,4) keep(3) by (simp add: wakeups52_def)
  qed
  ultimately show ?thesis by (simp add: inv52_def)
qed

lemma take_inv:
  assumes "inv52 s" "pc52 s i XTest" "d_count (ring52 s) \<noteq> 0" "pop_crit (ring52 s) = Done (m, r)"
    and sg: "signals_one waits_full ((w_thr s)[i := XUse m]) ps"
  shows "inv52 (s\<lparr>w_q := cond_unlock ((w_q s)\<lparr>cq_ring := r\<rparr>), w_thr := ps, w_out := w_out s @ [m]\<rparr>)" (is "inv52 ?t")
proof -
  have inv: "mutex52 s" "data52 s" "wakeups52 s" "heap52 s" using assms(1) by (simp_all add: inv52_def)
  note r = pop52[OF inv(2) assms(3,4)]
  have rt: "ring52 ?t = r" by (simp add: cond_unlock_def)
  note w = at_pc_weight[OF assms(2), where p' = "XUse m"]
  have keep: "weight holds52 ps = weight holds52 ((w_thr s)[i := XUse m])"
    "weight (owns52 a) ps = weight (owns52 a) ((w_thr s)[i := XUse m])"
    "weight wanting_msg ps = weight wanting_msg ((w_thr s)[i := XUse m])" for a
    by (rule signals_keep[OF sg]; simp)+
  have "mutex52 ?t"
    using holds_locked[OF inv(1) assms(2)] keep(1) by (intro mutex_move[OF inv(1) assms(2), of _ "XUse m"]) (simp_all add: cond_unlock_def)
  moreover have "data52 ?t" using inv(2) r by (simp add: data52_def cond_unlock_def)
  moreover have "heap52 ?t"
    using keep(2) r(2) by (intro heap_move[OF inv(4) assms(2), of _ "XUse m"]) (auto simp: cond_unlock_def)
  moreover have "wakeups52 ?t"
    unfolding wakeups52_def rt
  proof (intro conjI impI)
    assume "list_ex waits_empty (w_thr ?t)"
    then have "list_ex waits_empty ((w_thr s)[i := XUse m])" using signals_waits[OF sg] by simp
    then have "list_ex waits_empty (w_thr s)" using list_ex_update by force
    then show "d_count r \<le> weight wanting_msg (w_thr ?t)"
      using w[of wanting_msg] inv(3) r(4) keep(3) by (simp add: wakeups52_def)
  next
    assume run: "w_run ?t" and "list_ex waits_full (w_thr ?t)"
    then have ex: "list_ex waits_full ((w_thr s)[i := XUse m])" using signals_waits[OF sg] by simp
    then have "list_ex waits_full (w_thr s)" using list_ex_update by force
    then show "d_cap r \<le> d_count r + weight wanting_room (w_thr ?t)"
      using run signals_add[OF sg ex, of wanting_room] w[of wanting_room] inv(3) r(3,4) by (simp add: wakeups52_def)
  qed
  ultimately show ?thesis by (simp add: inv52_def)
qed

lemma prod52_inv:
  assumes "prod52 s t" "inv52 s"
  shows "inv52 t"
  using assms(1)
proof (cases rule: prod52.cases)
  case (k_alloc i m)
  then show ?thesis by (intro inv_move[OF assms(2) k_alloc(2)]) auto
next
  case (k_end i)
  then show ?thesis by (intro inv_move[OF assms(2) k_end(2)]) auto
next
  case (k_lock i m q)
  then show ?thesis by (intro inv_move[OF assms(2) k_lock(2)]) (auto simp: cond_prims split: if_splits)
next
  case (k_wait i m)
  moreover have "cq_locked (w_q s)" using holds_locked[OF _ k_wait(2)] assms(2) by (simp add: inv52_def)
  ultimately show ?thesis by (intro inv_move[OF assms(2) k_wait(2)]) (auto simp: cond_prims must_wait_full_def)
next
  case (k_stop i m)
  moreover have "cq_locked (w_q s)" using holds_locked[OF _ k_stop(2)] assms(2) by (simp add: inv52_def)
  ultimately show ?thesis by (intro inv_move[OF assms(2) k_stop(2)]) (auto simp: cond_prims)
next
  case (k_store i m r ps)
  then show ?thesis using store_inv[OF assms(2) k_store(2)] by (auto simp: must_wait_full_def)
next
  case (k_print i m)
  then show ?thesis by (intro inv_move[OF assms(2) k_print(2)]) auto
next
  case (k_free i m)
  then show ?thesis by (intro inv_move[OF assms(2) k_free(2)]) auto
next
  case (k_cancel i p m)
  then show ?thesis by (intro inv_move[OF assms(2) k_cancel(2), where p' = Ended]) auto
next
  case (k_spurious i m)
  then show ?thesis by (intro inv_move[OF assms(2) k_spurious(2)]) auto
qed

lemma cons52_inv:
  assumes "cons52 s t" "inv52 s"
  shows "inv52 t"
  using assms(1)
proof (cases rule: cons52.cases)
  case (x_start i)
  then show ?thesis by (intro inv_move[OF assms(2) x_start(2)]) auto
next
  case (x_end i)
  then show ?thesis by (intro inv_move[OF assms(2) x_end(2)]) auto
next
  case (x_lock i q)
  then show ?thesis by (intro inv_move[OF assms(2) x_lock(2)]) (auto simp: cond_prims split: if_splits)
next
  case (x_wait i)
  moreover have "cq_locked (w_q s)" using holds_locked[OF _ x_wait(2)] assms(2) by (simp add: inv52_def)
  ultimately show ?thesis by (intro inv_move[OF assms(2) x_wait(2)]) (auto simp: cond_prims must_wait_empty_def)
next
  case (x_stop i)
  moreover have "cq_locked (w_q s)" using holds_locked[OF _ x_stop(2)] assms(2) by (simp add: inv52_def)
  ultimately show ?thesis by (intro inv_move[OF assms(2) x_stop(2)]) (auto simp: cond_prims)
next
  case (x_take i m r ps)
  then show ?thesis using take_inv[OF assms(2) x_take(2)] by auto
next
  case (x_free i m)
  then show ?thesis by (intro inv_move[OF assms(2) x_free(2)]) auto
next
  case (x_cancel i p m)
  then show ?thesis by (intro inv_move[OF assms(2) x_cancel(2), where p' = Ended]) auto
next
  case (x_spurious i)
  then show ?thesis by (intro inv_move[OF assms(2) x_spurious(2)]) auto
qed

lemma inv_main:
  assumes "inv52 s" "\<And>a. weight (owns52 a) (w_thr t) = weight (owns52 a) (w_thr s)"
    and "weight holds52 (w_thr t) = weight holds52 (w_thr s)"
    and "main_holds (w_main t) + (if cq_locked (w_q s) then 1 else 0) = main_holds (w_main s) + (if cq_locked (w_q t) then 1 else 0)"
    and "ring_invar (ring52 t)" "ring_contents (ring52 t) = ring_contents (ring52 s)"
    and "w_in t = w_in s" "w_out t = w_out s" "w_live t = w_live s" "wakeups52 t"
  shows "inv52 t"
  using assms by (simp add: inv52_def mutex52_def data52_def heap52_def)

lemma wakeups_broadcast_full:
  assumes "wakeups52 s" "w_thr t = broadcast waits_full (w_thr s)" "d_count (ring52 t) = d_count (ring52 s)"
  shows "wakeups52 t"
proof -
  have "\<not> list_ex waits_full (w_thr t)" "list_ex waits_empty (w_thr t) \<Longrightarrow> list_ex waits_empty (w_thr s)"
    using assms(2) by (auto simp: broadcast_def list_ex_iff split: if_splits)
  then show ?thesis using assms by (simp add: wakeups52_def)
qed

lemma wakeups_broadcast_empty:
  assumes "wakeups52 s" "w_thr t = broadcast waits_empty (w_thr s)" "ring52 t = ring52 s" "w_run t = w_run s"
  shows "wakeups52 t"
proof -
  have "\<not> list_ex waits_empty (w_thr t)" "list_ex waits_full (w_thr t) \<Longrightarrow> list_ex waits_full (w_thr s)"
    using assms(2) by (auto simp: broadcast_def list_ex_iff split: if_splits)
  then show ?thesis using assms by (simp add: wakeups52_def)
qed

lemma crit_locked: "inv52 s \<Longrightarrow> w_main s = MainCrit c \<Longrightarrow> cq_locked (w_q s)"
  by (simp add: inv52_def mutex52_def split: if_splits)

lemma count_from_contents: "ring_contents r = ring_contents r' \<Longrightarrow> d_count r = d_count r'"
  by (metis length_ring_contents)

lemma resized_inv:
  assumes "inv52 s" "w_main s = MainCrit c" "ring_invar r \<and> ring_contents r = ring_contents (ring52 s) \<and> d_cap r = k"
  shows "inv52 (s\<lparr>w_q := cond_unlock ((w_q s)\<lparr>cq_ring := r\<rparr>), w_thr := broadcast waits_full (w_thr s), w_main := MainIdle\<rparr>)"
proof -
  have "wakeups52 s" using assms(1) by (simp add: inv52_def)
  then show ?thesis
    using assms(3) crit_locked[OF assms(1,2)] wakeups_broadcast_full[OF \<open>wakeups52 s\<close>] count_from_contents[of r "ring52 s"]
    by (intro inv_main[OF assms(1)]) (simp_all add: cond_unlock_def assms(2))
qed

lemma main52_inv:
  assumes "main52_step s t" "inv52 s"
  shows "inv52 t"
proof -
  have inv: "ring_invar (ring52 s)" "wakeups52 s" using assms(2) by (simp_all add: inv52_def data52_def)
  from assms(1) show ?thesis
  proof (cases rule: main52_step.cases)
    case (m_increase r)
    then show ?thesis using resized_inv[OF assms(2) m_increase(2)] ring5.growD[OF inv(1) m_increase(3)] by blast
  next
    case (m_decrease r)
    then show ?thesis using resized_inv[OF assms(2) m_decrease(2)] ring5.shrinkD[OF inv(1) m_decrease(3)] by blast
  next
    case m_refuse
    then show ?thesis
      using inv crit_locked[OF assms(2) m_refuse(2)] by (intro inv_main[OF assms(2)]) (simp_all add: cond_unlock_def wakeups52_def)
  next
    case m_remove_producer
    then show ?thesis
      using inv crit_locked[OF assms(2) m_remove_producer(2)] wakeups_broadcast_full[OF inv(2)]
      by (intro inv_main[OF assms(2)]) (simp_all add: cond_unlock_def)
  next
    case m_remove_consumer
    then show ?thesis
      using inv crit_locked[OF assms(2) m_remove_consumer(2)] wakeups_broadcast_empty[OF inv(2)]
      by (intro inv_main[OF assms(2)]) (simp_all add: cond_unlock_def)
  next
    case m_wake_all
    then show ?thesis
      using inv crit_locked[OF assms(2) m_wake_all(2)]
        wakeups_broadcast_full[OF wakeups_broadcast_empty[OF inv(2), of "s\<lparr>w_thr := broadcast waits_empty (w_thr s)\<rparr>"]]
      by (intro inv_main[OF assms(2)]) (simp_all add: cond_unlock_def)
  next
    case m_status
    then show ?thesis
      using inv crit_locked[OF assms(2) m_status(2)] by (intro inv_main[OF assms(2)]) (simp_all add: cond_unlock_def wakeups52_def)
  qed (use inv in \<open>(intro inv_main[OF assms(2)]; auto simp: wakeups52_def cond_prims split: if_splits)+\<close>)
qed

lemma start52_inv: "inv52 start52"
  using ring_init_invar
  by (simp add: inv52_def mutex52_def data52_def wakeups52_def heap52_def start52_def queue_init_cond_def)

lemma step52_inv: "step52 s t \<Longrightarrow> inv52 s \<Longrightarrow> inv52 t"
proof (induction rule: step52.induct)
  case (quit s)
  then show ?case by (simp add: inv52_def mutex52_def data52_def wakeups52_def heap52_def)
qed (auto intro: prod52_inv cons52_inv main52_inv)

lemma reachable52_inv: "reachable52 s \<Longrightarrow> inv52 s"
  unfolding reachable52_def by (induction rule: rtranclp_induct) (auto intro: start52_inv step52_inv)

section \<open>Properties of reachable states\<close>

text \<open>
  C11. In every interleaving of the 5.2 threads at most one thread, the main thread included,
  holds the mutex; the messages taken out so far followed by the stored ones are the messages
  put in, in order, at most as many as the capacity; and the critical section a thread is about
  to run accesses the buffer in range.
\<close>

theorem cond_threads_fifo:
  assumes "reachable52 s"
  shows "w_in s = w_out s @ ring_contents (ring52 s) \<and> d_count (ring52 s) \<le> d_cap (ring52 s) \<and>
    (\<forall>i j p p'. pc52 s i p \<longrightarrow> pc52 s j p' \<longrightarrow> holds52 p = 1 \<longrightarrow> holds52 p' = 1 \<longrightarrow> i = j \<and> main_holds (w_main s) = 0) \<and>
    (\<forall>i m. pc52 s i (KTest m) \<longrightarrow> d_count (ring52 s) \<noteq> d_cap (ring52 s) \<longrightarrow> (\<exists>r. push_crit (ring52 s) m = Done r)) \<and>
    (\<forall>i. pc52 s i XTest \<longrightarrow> d_count (ring52 s) \<noteq> 0 \<longrightarrow> (\<exists>m r. pop_crit (ring52 s) = Done (m, r))) \<and>
    (\<exists>r. grow_ring (ring52 s) = Done r) \<and> (\<exists>x. shrink_ring (ring52 s) = Done x)"
proof (intro conjI allI impI)
  have "inv52 s" by (rule reachable52_inv[OF assms])
  then have mx: "mutex52 s" and ri: "ring_invar (ring52 s)" and io: "w_in s = w_out s @ ring_contents (ring52 s)"
    by (simp_all add: inv52_def data52_def)
  show "w_in s = w_out s @ ring_contents (ring52 s)" by (rule io)
  show le: "d_count (ring52 s) \<le> d_cap (ring52 s)" using ri by (simp add: ring_invar_def ring_shape_def)
  have one: "weight holds52 (w_thr s) \<le> 1" using mx by (simp add: mutex52_def split: if_splits)
  show "i = j" "main_holds (w_main s) = 0" if "pc52 s i p" "pc52 s j p'" "holds52 p = 1" "holds52 p' = 1" for i j p p'
    using at_pc_unique[OF one that] at_pc_weight_ge[OF that(1), of holds52] that(3) mx by (simp_all add: mutex52_def split: if_splits)
  show "\<exists>r. push_crit (ring52 s) m = Done r" if "d_count (ring52 s) \<noteq> d_cap (ring52 s)" for m
    using push_crit_ok[OF ri, of m] le that by auto
  show "\<exists>m r. pop_crit (ring52 s) = Done (m, r)" if "d_count (ring52 s) \<noteq> 0"
    using pop_crit_ok[OF ri] that by auto
  show "\<exists>r. grow_ring (ring52 s) = Done r" using ring5.grow_ok[OF ri] by blast
  show "\<exists>x. shrink_ring (ring52 s) = Done x"
    using ring5.shrink_ok[OF ri] ring5.shrink_refused[OF ri] by (meson leI)
qed

text \<open>
  C12. No wake-up is lost in 5.2. While a consumer waits for a message and there is one, another
  consumer is already on its way to it; while a producer of a running program waits for room and
  there is a free cell, another producer is on its way to it. So a waiting producer and a waiting
  consumer never face each other alone: some worker is at the mutex or holds it.
\<close>

theorem cond_no_lost_wakeup:
  assumes "reachable52 s"
  shows "(pc52 s i XWait \<longrightarrow> 0 < d_count (ring52 s) \<longrightarrow> (\<exists>j. pc52 s j XLock \<or> pc52 s j XTest)) \<and>
    (pc52 s k (KWait m) \<longrightarrow> w_run s \<longrightarrow> d_count (ring52 s) < d_cap (ring52 s) \<longrightarrow>
      (\<exists>j n. pc52 s j (KLock n) \<or> pc52 s j (KTest n))) \<and>
    (pc52 s i XWait \<longrightarrow> pc52 s k (KWait m) \<longrightarrow> w_run s \<longrightarrow>
      (\<exists>j n. pc52 s j XLock \<or> pc52 s j XTest \<or> pc52 s j (KLock n) \<or> pc52 s j (KTest n)))"
proof -
  have inv: "inv52 s" by (rule reachable52_inv[OF assms])
  have msg: "\<exists>j. pc52 s j XLock \<or> pc52 s j XTest" if "0 < weight wanting_msg (w_thr s)"
  proof -
    from that obtain j where "j < length (w_thr s)" "0 < wanting_msg (w_thr s ! j)" by (auto simp: weight_pos in_set_conv_nth)
    then show ?thesis by (intro exI[of _ j]) (cases "w_thr s ! j"; simp add: at_pc_def)
  qed
  have room: "\<exists>j n. pc52 s j (KLock n) \<or> pc52 s j (KTest n)" if "0 < weight wanting_room (w_thr s)"
  proof -
    from that obtain j where "j < length (w_thr s)" "0 < wanting_room (w_thr s ! j)" by (auto simp: weight_pos in_set_conv_nth)
    then show ?thesis by (cases "w_thr s ! j") (auto simp: at_pc_def)
  qed
  have ex: "pc52 s i XWait \<Longrightarrow> list_ex waits_empty (w_thr s)" "pc52 s k (KWait m) \<Longrightarrow> list_ex waits_full (w_thr s)"
    by (auto simp: list_ex_length at_pc_def)
  have one: "pc52 s i XWait \<Longrightarrow> 0 < d_count (ring52 s) \<Longrightarrow> 0 < weight wanting_msg (w_thr s)"
    using ex(1) inv by (auto simp: inv52_def wakeups52_def)
  have two: "pc52 s k (KWait m) \<Longrightarrow> w_run s \<Longrightarrow> d_count (ring52 s) < d_cap (ring52 s) \<Longrightarrow> 0 < weight wanting_room (w_thr s)"
    using ex(2) inv by (auto simp: inv52_def wakeups52_def)
  have "0 < d_cap (ring52 s)" using inv by (auto simp: inv52_def data52_def ring_invar_def ring_shape_def)
  then have "0 < d_count (ring52 s) \<or> d_count (ring52 s) < d_cap (ring52 s)" by linarith
  then show ?thesis using one two msg room by blast
qed

text \<open>
  A consumer of 5.2 only reads and frees a live message that no other thread owns and that is
  no longer in the queue; so does a producer whose push was refused.
\<close>

theorem cond_consumer_owns_message:
  assumes "reachable52 s" "pc52 s i (XUse m) \<or> pc52 s i (KFree m)"
  shows "m \<in> w_live s \<and> m \<notin> set (ring_contents (ring52 s)) \<and> (\<forall>j p. pc52 s j p \<longrightarrow> owns52 m p = 1 \<longrightarrow> j = i)"
proof -
  have h: "count_list (ring_contents (ring52 s)) m + weight (owns52 m) (w_thr s) \<le> of_bool (m \<in> w_live s)"
    using reachable52_inv[OF assms(1)] by (simp add: inv52_def heap52_def)
  obtain p where p: "pc52 s i p" "owns52 m p = 1" using assms(2) by auto
  have "1 \<le> weight (owns52 m) (w_thr s)" using at_pc_weight_ge[OF p(1), of "owns52 m"] p(2) by simp
  then have "m \<in> w_live s" "count_list (ring_contents (ring52 s)) m = 0" "weight (owns52 m) (w_thr s) \<le> 1"
    using h by (cases "m \<in> w_live s"; simp)+
  then show ?thesis using at_pc_unique[of "owns52 m" "w_thr s"] p by (auto simp: count_list_0_iff)
qed

section \<open>Shutdown\<close>

definition worker52 :: "sys52 \<Rightarrow> sys52 \<Rightarrow> bool" where
  "worker52 s t \<longleftrightarrow> prod52 s t \<or> cons52 s t"

definition nobody_waits :: "sys52 \<Rightarrow> bool" where
  "nobody_waits s \<longleftrightarrow> \<not> list_ex waits_full (w_thr s) \<and> \<not> list_ex waits_empty (w_thr s)"

text \<open>An upper bound on the steps a worker still makes once the flag is cleared.\<close>

fun remaining :: "thr52 \<Rightarrow> nat" where
  "remaining KIdle = 1" | "remaining (KPrint m) = 2" | "remaining (KFree m) = 1" | "remaining (KTest m) = 2"
| "remaining (KLock m) = 3" | "remaining (KWait m) = 4" | "remaining XIdle = 1" | "remaining (XUse m) = 2"
| "remaining XTest = 3" | "remaining XLock = 4" | "remaining XWait = 5" | "remaining Ended = 0"

lemma remaining_zero: "remaining p = 0 \<longleftrightarrow> p = Ended"
  by (cases p) auto

lemma no_wait_pc: "nobody_waits s \<Longrightarrow> \<not> pc52 s i (KWait m) \<and> \<not> pc52 s i XWait"
  by (auto simp: nobody_waits_def list_ex_length at_pc_def)

lemma shutdown_move:
  assumes "pc52 s i p" "w_thr t = (w_thr s)[i := p']" "remaining p' < remaining p" "\<not> waits_full p'" "\<not> waits_empty p'" "nobody_waits s"
  shows "weight remaining (w_thr t) < weight remaining (w_thr s) \<and> nobody_waits t"
  using at_pc_weight[OF assms(1), of remaining p'] assms list_ex_update by (fastforce simp: nobody_waits_def)

lemma prod_decreases:
  assumes "prod52 s t" "\<not> w_run s" "nobody_waits s"
  shows "weight remaining (w_thr t) < weight remaining (w_thr s) \<and> nobody_waits t \<and> \<not> w_run t \<and> w_main t = w_main s"
  using assms(1)
proof (cases rule: prod52.cases)
  case (k_end i)
  then show ?thesis using shutdown_move[OF k_end(2), of t Ended] assms(2,3) by simp
next
  case (k_lock i m q)
  then show ?thesis using shutdown_move[OF k_lock(2), of t "KTest m"] assms(2,3) by simp
next
  case (k_stop i m)
  then show ?thesis using shutdown_move[OF k_stop(2), of t "KFree m"] assms(2,3) by simp
next
  case (k_print i m)
  then show ?thesis using shutdown_move[OF k_print(2), of t KIdle] assms(2,3) by simp
next
  case (k_free i m)
  then show ?thesis using shutdown_move[OF k_free(2), of t Ended] assms(2,3) by simp
next
  case (k_cancel i p m)
  then show ?thesis using shutdown_move[OF k_cancel(2), of t Ended] assms(2,3) by auto
qed (use assms(2) no_wait_pc[OF assms(3)] in \<open>auto simp: must_wait_full_def\<close>)

lemma cons_decreases:
  assumes "cons52 s t" "\<not> w_run s" "nobody_waits s"
  shows "weight remaining (w_thr t) < weight remaining (w_thr s) \<and> nobody_waits t \<and> \<not> w_run t \<and> w_main t = w_main s"
  using assms(1)
proof (cases rule: cons52.cases)
  case (x_end i)
  then show ?thesis using shutdown_move[OF x_end(2), of t Ended] assms(2,3) by simp
next
  case (x_lock i q)
  then show ?thesis using shutdown_move[OF x_lock(2), of t XTest] assms(2,3) by simp
next
  case (x_stop i)
  then show ?thesis using shutdown_move[OF x_stop(2), of t Ended] assms(2,3) by simp
next
  case (x_take i m r ps)
  have "\<not> list_ex waits_full ((w_thr s)[i := XUse m])" using assms(3) list_ex_update by (fastforce simp: nobody_waits_def)
  then have "ps = (w_thr s)[i := XUse m]" using x_take(5) by (simp add: signals_one_def)
  then show ?thesis using shutdown_move[OF x_take(2), of t "XUse m"] x_take(1) assms(2,3) by simp
next
  case (x_free i m)
  then show ?thesis using shutdown_move[OF x_free(2), of t XIdle] assms(2,3) by simp
next
  case (x_cancel i p m)
  then show ?thesis using shutdown_move[OF x_cancel(2), of t Ended] assms(2,3) by auto
qed (use assms(2) no_wait_pc[OF assms(3)] in \<open>auto simp: must_wait_empty_def\<close>)

lemma worker_decreases:
  assumes "worker52 s t" "\<not> w_run s" "nobody_waits s"
  shows "weight remaining (w_thr t) < weight remaining (w_thr s) \<and> nobody_waits t \<and> \<not> w_run t \<and> w_main t = w_main s"
  using assms prod_decreases cons_decreases unfolding worker52_def by blast

text \<open>As long as a worker has not ended, some worker can make a step.\<close>

lemma worker_progress:
  assumes "inv52 s" "\<not> w_run s" "nobody_waits s" "main_holds (w_main s) = 0" "pc52 s i p" "p \<noteq> Ended"
  shows "\<exists>t. worker52 s t"
proof (cases "\<exists>j. pc52 s j XTest \<or> (\<exists>m. pc52 s j (KTest m))")
  case True
  have ri: "ring_invar (ring52 s)" using assms(1) by (simp add: inv52_def data52_def)
  from True obtain j where "pc52 s j XTest \<or> (\<exists>m. pc52 s j (KTest m))" by blast
  moreover have "\<exists>t. cons52 s t" if x: "pc52 s j XTest"
  proof (cases "d_count (ring52 s) = 0")
    case False
    then obtain m r where "pop_crit (ring52 s) = Done (m, r)" using pop_crit_ok[OF ri] by auto
    moreover have "signals_one waits_full ((w_thr s)[j := XUse m]) ((w_thr s)[j := XUse m])"
      using assms(3) list_ex_update by (fastforce simp: signals_one_def nobody_waits_def)
    ultimately show ?thesis using x False by (blast intro: x_take)
  qed (use x assms(2) in \<open>blast intro: x_stop\<close>)
  ultimately show ?thesis using assms(2) by (auto simp: worker52_def intro: k_stop)
next
  case False
  have "weight holds52 (w_thr s) = 0"
  proof (rule ccontr)
    assume "weight holds52 (w_thr s) \<noteq> 0"
    then obtain j where "j < length (w_thr s)" "0 < holds52 (w_thr s ! j)" using weight_pos[of holds52 "w_thr s"] by (auto simp: in_set_conv_nth)
    then show False using False by (cases "w_thr s ! j") (auto simp: at_pc_def)
  qed
  then have "\<not> cq_locked (w_q s)" using assms(1,4) by (simp add: inv52_def mutex52_def split: if_splits)
  then have lk: "cond_lock (w_q s) = Done ((w_q s)\<lparr>cq_locked := True\<rparr>)" by (simp add: cond_lock_def)
  note nw = no_wait_pc[OF assms(3)]
  show ?thesis
    using assms(2,5,6) lk nw False unfolding worker52_def
    by (cases p) (blast intro: prod52.intros cons52.intros)+
qed

lemma worker52_inv: "worker52 s t \<Longrightarrow> inv52 s \<Longrightarrow> inv52 t"
  by (auto simp: worker52_def intro: prod52_inv cons52_inv)

lemma workers_shutdown:
  assumes "worker52\<^sup>*\<^sup>* s t" "inv52 s" "\<not> w_run s" "nobody_waits s"
  shows "inv52 t \<and> \<not> w_run t \<and> nobody_waits t \<and> w_main t = w_main s"
  using assms(1)
proof (induction rule: rtranclp_induct)
  case (step u t)
  then show ?case using worker52_inv[of u t] worker_decreases[of u t] by simp
qed (use assms in simp)

lemma worker_steps_bounded:
  assumes "(worker52 ^^ n) s t" "\<not> w_run s" "nobody_waits s"
  shows "n + weight remaining (w_thr t) \<le> weight remaining (w_thr s) \<and> nobody_waits t \<and> \<not> w_run t"
  using assms(1)
proof (induction n arbitrary: t)
  case (Suc n)
  then obtain u where "(worker52 ^^ n) s u" "worker52 u t" by auto
  then show ?case using Suc.IH[of u] worker_decreases[of u t] by linarith
qed (use assms in simp)

text \<open>
  C13. The shutdown of 5.2 ends. Once \<open>running\<close> is cleared and everybody has been woken (main does
  this before it joins), the workers make at most a bounded number of further steps, in any
  interleaving, nobody waits again, and when no worker can make a step any more all workers have
  ended, so every \<open>pthread_join\<close> returns.
\<close>

theorem cond_shutdown_terminates:
  assumes "reachable52 s" "\<not> w_run s" "nobody_waits s" "main_holds (w_main s) = 0"
  shows "((worker52 ^^ n) s t \<longrightarrow> n \<le> weight remaining (w_thr s)) \<and>
    (worker52\<^sup>*\<^sup>* s t \<longrightarrow> nobody_waits t \<and> ((\<exists>u. worker52 t u) \<or> list_all (\<lambda>p. p = Ended) (w_thr t)))"
proof (intro conjI impI)
  show "n \<le> weight remaining (w_thr s)" if "(worker52 ^^ n) s t"
    using worker_steps_bounded[OF that assms(2,3)] by simp
  assume st: "worker52\<^sup>*\<^sup>* s t"
  note t = workers_shutdown[OF st reachable52_inv[OF assms(1)] assms(2,3), THEN conjunct1]
    workers_shutdown[OF st reachable52_inv[OF assms(1)] assms(2,3), THEN conjunct2, THEN conjunct1]
    workers_shutdown[OF st reachable52_inv[OF assms(1)] assms(2,3), THEN conjunct2, THEN conjunct2, THEN conjunct1]
    workers_shutdown[OF st reachable52_inv[OF assms(1)] assms(2,3), THEN conjunct2, THEN conjunct2, THEN conjunct2]
  show "nobody_waits t" by (rule t(3))
  show "(\<exists>u. worker52 t u) \<or> list_all (\<lambda>p. p = Ended) (w_thr t)"
    using worker_progress[OF t(1-3)] t(4) assms(4) by (auto simp: list_all_length at_pc_def)
qed

section \<open>Traces\<close>

text \<open>A producer that finds room makes one round; nobody else moves.\<close>

lemma produce_round:
  assumes "w_thr s = [KIdle]" "w_run s" "\<not> cq_locked (w_q s)" "ring_invar (ring52 s)"
    and "d_count (ring52 s) < d_cap (ring52 s)" "m \<notin> w_live s"
  shows "\<exists>r. push_crit (ring52 s) m = Done r \<and> step52\<^sup>*\<^sup>* s (s\<lparr>w_q := (w_q s)\<lparr>cq_ring := r, cq_locked := False\<rparr>,
    w_live := insert m (w_live s), w_in := w_in s @ [m]\<rparr>)"
proof -
  obtain r where r: "push_crit (ring52 s) m = Done r" using push_crit_ok[OF assms(4,5)] by blast
  let ?a = "s\<lparr>w_live := insert m (w_live s), w_thr := [KLock m]\<rparr>"
  let ?b = "?a\<lparr>w_q := (w_q s)\<lparr>cq_locked := True\<rparr>, w_thr := [KTest m]\<rparr>"
  let ?c = "?b\<lparr>w_q := (w_q s)\<lparr>cq_ring := r, cq_locked := False\<rparr>, w_thr := [KPrint m], w_in := w_in s @ [m]\<rparr>"
  have "step52 s ?a" using k_alloc[of s 0 m, THEN worker_p] assms by (simp add: at_pc_def)
  moreover have "step52 ?a ?b" using k_lock[of ?a 0 m, THEN worker_p] assms by (simp add: at_pc_def cond_lock_def)
  moreover have "step52 ?b ?c"
    using k_store[of ?b 0 m r "[KPrint m]", THEN worker_p] assms r
    by (simp add: at_pc_def must_wait_full_def signals_one_def cond_unlock_def)
  moreover have "step52 ?c (?c\<lparr>w_thr := [KIdle]\<rparr>)" using k_print[of ?c 0 m, THEN worker_p] by (simp add: at_pc_def)
  moreover have "?c\<lparr>w_thr := [KIdle]\<rparr> = s\<lparr>w_q := (w_q s)\<lparr>cq_ring := r, cq_locked := False\<rparr>, w_live := insert m (w_live s), w_in := w_in s @ [m]\<rparr>"
    using assms(1) by simp
  ultimately have "step52\<^sup>*\<^sup>* s (s\<lparr>w_q := (w_q s)\<lparr>cq_ring := r, cq_locked := False\<rparr>, w_live := insert m (w_live s), w_in := w_in s @ [m]\<rparr>)"
    by (metis (no_types, lifting) r_into_rtranclp rtranclp.rtrancl_into_rtrancl)
  then show ?thesis using r by blast
qed

text \<open>One producer fills the queue of capacity four.\<close>

lemma fill_queue:
  assumes "n \<le> 4"
  shows "\<exists>s. reachable52 s \<and> w_thr s = [KIdle] \<and> w_run s \<and> \<not> cq_locked (w_q s) \<and> d_count (ring52 s) = n \<and>
    d_cap (ring52 s) = 4 \<and> w_live s = {0..<n} \<and> w_main s = MainIdle \<and> w_prods s = [0] \<and> w_cons s = [] \<and> w_cancel s = {}"
  using assms
proof (induction n)
  case 0
  have "step52 start52 (start52\<lparr>w_thr := [KIdle], w_prods := [0]\<rparr>)"
    using m_producer[of start52, THEN main] by (simp add: start52_def MAX_PRODS52_def)
  then show ?case
    by (intro exI[of _ "start52\<lparr>w_thr := [KIdle], w_prods := [0]\<rparr>"])
      (simp add: reachable52_def r_into_rtranclp, simp add: start52_def queue_init_cond_def ring_init_def INITIAL_QUEUE_CAPACITY_def)
next
  case (Suc n)
  then obtain s where s: "reachable52 s" "w_thr s = [KIdle]" "w_run s" "\<not> cq_locked (w_q s)" "d_count (ring52 s) = n"
    "d_cap (ring52 s) = 4" "w_live s = {0..<n}" "w_main s = MainIdle" "w_prods s = [0]" "w_cons s = []" "w_cancel s = {}"
    by auto
  have ri: "ring_invar (ring52 s)" using reachable52_inv[OF s(1)] by (simp add: inv52_def data52_def)
  then obtain r where r: "push_crit (ring52 s) n = Done r"
    "step52\<^sup>*\<^sup>* s (s\<lparr>w_q := (w_q s)\<lparr>cq_ring := r, cq_locked := False\<rparr>, w_live := insert n (w_live s), w_in := w_in s @ [n]\<rparr>)"
    using produce_round[OF s(2-4) ri, of n] s Suc(2) by auto
  have "d_cap r = 4" "d_count r = Suc n" using push_crit_ok[OF ri, of n] r(1) s(5,6) Suc(2) by auto
  then show ?case
    using r(2) s
    by (intro exI[of _ "s\<lparr>w_q := (w_q s)\<lparr>cq_ring := r, cq_locked := False\<rparr>, w_live := insert n (w_live s), w_in := w_in s @ [n]\<rparr>"])
      (auto simp: reachable52_def)
qed

text \<open>What holds from then on while the removal of the only producer waits for it and the flag is set.\<close>

definition stuck52 :: "sys52 \<Rightarrow> bool" where
  "stuck52 s \<longleftrightarrow> w_main s = MainJoin 0 \<and> d_count (ring52 s) = d_cap (ring52 s) \<and>
     (\<exists>m. w_thr s = [KLock m] \<or> w_thr s = [KTest m] \<or> w_thr s = [KWait m])"

lemma stuck52_step:
  assumes "step52 s t" "w_run s \<longrightarrow> stuck52 s"
  shows "w_run t \<longrightarrow> stuck52 t"
  using assms(1)
proof (cases rule: step52.cases)
  case worker_p
  then show ?thesis using assms(2)
    by cases (auto simp: stuck52_def at_pc_def must_wait_full_def cond_prims split: if_splits)
next
  case worker_c
  then show ?thesis using assms(2) by cases (auto simp: stuck52_def at_pc_def)
next
  case main
  then show ?thesis using assms(2) by cases (auto simp: stuck52_def at_pc_def)
qed simp

lemma stuck52_steps: "step52\<^sup>*\<^sup>* s t \<Longrightarrow> stuck52 s \<Longrightarrow> w_run t \<Longrightarrow> stuck52 t"
  using rtranclp_induct[of step52 s t "\<lambda>t. w_run t \<longrightarrow> stuck52 t"] stuck52_step by blast

text \<open>
  The command P of 5.2 can hang the program: a producer that waits for room is woken by
  \<open>remove_last_producer\<close>, finds the queue still full and waits again with cancellation disabled,
  so the \<open>pthread_join\<close> of the main thread does not return while the program is running. Nobody is
  left to take a message out. Such a state is reachable with one producer and no consumer.
\<close>

theorem remove_producer_hangs:
  "\<exists>s. reachable52 s \<and> w_run s \<and> w_main s = MainJoin 0 \<and> (\<nexists>t. step52\<^sup>*\<^sup>* s t \<and> w_run t \<and> w_main t \<noteq> MainJoin 0)"
proof -
  obtain s where s: "reachable52 s" "w_thr s = [KIdle]" "w_run s" "\<not> cq_locked (w_q s)" "d_count (ring52 s) = 4"
    "d_cap (ring52 s) = 4" "w_live s = {0..<4}" "w_main s = MainIdle" "w_prods s = [0]"
    using fill_queue[of 4] by auto
  let ?a = "s\<lparr>w_live := insert 4 (w_live s), w_thr := [KLock 4]\<rparr>"
  let ?b = "?a\<lparr>w_main := MainLock RemoveProducer\<rparr>"
  let ?c = "?b\<lparr>w_q := (w_q s)\<lparr>cq_locked := True\<rparr>, w_main := MainCrit RemoveProducer\<rparr>"
  let ?d = "?c\<lparr>w_q := (w_q s)\<lparr>cq_locked := False\<rparr>, w_thr := [KLock 4], w_cancel := insert 0 (w_cancel s), w_prods := [], w_main := MainJoin 0\<rparr>"
  have "step52 s ?a" using k_alloc[of s 0 4, THEN worker_p] s by (simp add: at_pc_def)
  moreover have "step52 ?a ?b" using m_call[of ?a RemoveProducer, THEN main] s by (simp add: call_allowed_def)
  moreover have "step52 ?b ?c" using m_lock[of ?b RemoveProducer, THEN main] s by (simp add: cond_lock_def)
  moreover have "step52 ?c ?d"
    using m_remove_producer[of ?c, THEN main] s by (simp add: cond_unlock_def broadcast_def)
  ultimately have "reachable52 ?d"
    using s(1) unfolding reachable52_def by (metis (no_types, lifting) rtranclp.rtrancl_into_rtrancl)
  moreover have "stuck52 ?d" using s by (simp add: stuck52_def)
  ultimately show ?thesis using stuck52_steps[of ?d] s(3) by (intro exI[of _ ?d]) (auto simp: stuck52_def)
qed

subsection \<open>Sample runs\<close>

lemma consumer_waits:
  assumes "pc52 s i XIdle" "w_run s" "\<not> cq_locked (w_q s)" "d_count (ring52 s) = 0"
  shows "step52\<^sup>*\<^sup>* s (s\<lparr>w_q := (w_q s)\<lparr>cq_locked := False\<rparr>, w_thr := (w_thr s)[i := XWait]\<rparr>)"
proof -
  let ?a = "goto52 i XLock s"
  let ?b = "?a\<lparr>w_q := (w_q s)\<lparr>cq_locked := True\<rparr>, w_thr := (w_thr s)[i := XTest]\<rparr>"
  have i: "i < length (w_thr s)" using assms(1) by (simp add: at_pc_def)
  have "step52 s ?a" using x_start[of s i, THEN worker_c] assms by simp
  moreover have "step52 ?a ?b" using x_lock[of ?a i, THEN worker_c] assms i by (simp add: at_pc_def cond_lock_def)
  moreover have "step52 ?b (s\<lparr>w_q := (w_q s)\<lparr>cq_locked := False\<rparr>, w_thr := (w_thr s)[i := XWait]\<rparr>)"
    using x_wait[of ?b i, THEN worker_c] assms i by (simp add: at_pc_def must_wait_empty_def cond_unlock_def)
  ultimately show ?thesis by (metis (no_types, lifting) r_into_rtranclp rtranclp.rtrancl_into_rtrancl)
qed

text \<open>Two consumers wait, a producer stores one message and wakes the first of them.\<close>

definition sample52 :: "bool \<Rightarrow> nat dring \<Rightarrow> thr52 list \<Rightarrow> nat list \<Rightarrow> nat list \<Rightarrow> nat list \<Rightarrow> sys52" where
  "sample52 lk r ps prods cns ms = \<lparr>w_q = \<lparr>cq_ring = r, cq_locked = lk\<rparr>, w_run = True, w_thr = ps, w_main = MainIdle,
     w_prods = prods, w_cons = cns, w_cancel = {}, w_live = set ms, w_in = (if r = ring_init then [] else ms), w_out = []\<rparr>"

lemma sample_wakeup:
  "\<exists>s. reachable52 s \<and> w_thr s = [XLock, XWait, KPrint 0] \<and> w_run s \<and> \<not> cq_locked (w_q s) \<and> d_count (ring52 s) = 1"
proof -
  let ?s = "\<lambda>ps. sample52 False ring_init ps [2] [0, 1]"
  have ri: "ring_invar (ring_init :: nat dring)" "d_count (ring_init :: nat dring) = 0" "d_cap (ring_init :: nat dring) = 4"
    using ring_init_invar by (simp_all add: ring_init_def INITIAL_QUEUE_CAPACITY_def)
  obtain r where r: "push_crit ring_init (0 :: nat) = Done r" "d_count r = 1" using push_crit_ok[OF ri(1), of "0 :: nat"] ri by auto
  then have "r \<noteq> ring_init" using ri(2) by auto
  have "step52 start52 (sample52 False ring_init [XIdle] [] [0] [])"
    using m_consumer[of start52, THEN main] by (simp add: MAX_PRODS52_def sample52_def start52_def queue_init_cond_def)
  moreover have "step52 (sample52 False ring_init [XIdle] [] [0] []) (sample52 False ring_init [XIdle, XIdle] [] [0, 1] [])"
    using m_consumer[of "sample52 False ring_init [XIdle] [] [0] []", THEN main] by (simp add: MAX_PRODS52_def sample52_def)
  moreover have "step52 (sample52 False ring_init [XIdle, XIdle] [] [0, 1] []) (?s [XIdle, XIdle, KIdle] [])"
    using m_producer[of "sample52 False ring_init [XIdle, XIdle] [] [0, 1] []", THEN main]
    by (simp add: MAX_PRODS52_def sample52_def numeral_2_eq_2)
  moreover have "step52\<^sup>*\<^sup>* (?s [XIdle, XIdle, KIdle] []) (?s [XWait, XIdle, KIdle] [])"
    using consumer_waits[of "?s [XIdle, XIdle, KIdle] []" 0] ri by (simp add: at_pc_def sample52_def)
  moreover have "step52\<^sup>*\<^sup>* (?s [XWait, XIdle, KIdle] []) (?s [XWait, XWait, KIdle] [])"
    using consumer_waits[of "?s [XWait, XIdle, KIdle] []" 1] ri by (simp add: at_pc_def sample52_def)
  ultimately have v: "reachable52 (?s [XWait, XWait, KIdle] [])"
    unfolding reachable52_def by (meson rtranclp.rtrancl_into_rtrancl rtranclp.rtrancl_refl rtranclp_trans)
  let ?b = "sample52 True ring_init [XWait, XWait, KTest 0] [2] [0, 1] [0]"
  let ?c = "sample52 False r [XLock, XWait, KPrint 0] [2] [0, 1] [0]"
  have "step52 (?s [XWait, XWait, KIdle] []) (?s [XWait, XWait, KLock 0] [0])"
    using k_alloc[of "?s [XWait, XWait, KIdle] []" 2 0, THEN worker_p] by (simp add: at_pc_def sample52_def)
  moreover have "step52 (?s [XWait, XWait, KLock 0] [0]) ?b"
    using k_lock[of "?s [XWait, XWait, KLock 0] [0]" 2 0, THEN worker_p] by (simp add: at_pc_def cond_lock_def sample52_def)
  moreover have "signals_one waits_empty [XWait, XWait, KPrint 0] [XLock, XWait, KPrint 0]" by (simp add: signals_one_def upt_rec)
  then have "step52 ?b ?c"
    using k_store[of ?b 2 0 r "[XLock, XWait, KPrint 0]", THEN worker_p] r(1) ri \<open>r \<noteq> ring_init\<close>
    by (simp add: at_pc_def must_wait_full_def cond_unlock_def sample52_def)
  ultimately have "reachable52 ?c" using v unfolding reachable52_def by (meson rtranclp.rtrancl_into_rtrancl)
  then show ?thesis using r(2) by (intro exI[of _ ?c]) (simp add: sample52_def)
qed

theorem cond_threads_fifo_witness:
  "\<exists>s. reachable52 s \<and> d_count (ring52 s) = 4 \<and> length (w_in s) = length (w_out s) + 4"
proof -
  obtain s where s: "reachable52 s" "d_count (ring52 s) = 4" using fill_queue[of 4] by auto
  then have "w_in s = w_out s @ ring_contents (ring52 s)" using cond_threads_fifo[OF s(1)] by blast
  then show ?thesis using s by auto
qed

theorem cond_no_lost_wakeup_witness:
  "\<exists>s. reachable52 s \<and> pc52 s 1 XWait \<and> 0 < d_count (ring52 s) \<and> (\<exists>j. pc52 s j XLock \<or> pc52 s j XTest)"
proof -
  obtain s where s: "reachable52 s" "w_thr s = [XLock, XWait, KPrint 0]" "d_count (ring52 s) = 1" using sample_wakeup by auto
  then have "pc52 s 1 XWait" "0 < d_count (ring52 s)" by (simp_all add: at_pc_def)
  then show ?thesis using cond_no_lost_wakeup[OF s(1), of 1] s(1) by blast
qed

theorem cond_consumer_owns_message_witness:
  "\<exists>s m. reachable52 s \<and> pc52 s 0 (XUse m) \<and> m \<in> w_live s \<and> m \<notin> set (ring_contents (ring52 s))"
proof -
  obtain s where s: "reachable52 s" "w_thr s = [XLock, XWait, KPrint 0]" "\<not> cq_locked (w_q s)" "d_count (ring52 s) = 1"
    using sample_wakeup by auto
  have "ring_invar (ring52 s)" using reachable52_inv[OF s(1)] by (simp add: inv52_def data52_def)
  then obtain m r where m: "pop_crit (ring52 s) = Done (m, r)" using pop_crit_ok[of "ring52 s"] s(4) by auto
  let ?a = "s\<lparr>w_q := (w_q s)\<lparr>cq_locked := True\<rparr>, w_thr := [XTest, XWait, KPrint 0]\<rparr>"
  let ?b = "?a\<lparr>w_q := (w_q s)\<lparr>cq_ring := r, cq_locked := False\<rparr>, w_thr := [XUse m, XWait, KPrint 0], w_out := w_out s @ [m]\<rparr>"
  have "step52 s ?a" using x_lock[of s 0, THEN worker_c] s by (simp add: at_pc_def cond_lock_def)
  moreover have "step52 ?a ?b"
    using x_take[of ?a 0 m r "[XUse m, XWait, KPrint 0]", THEN worker_c] s m by (simp add: at_pc_def cond_unlock_def signals_one_def)
  ultimately have "reachable52 ?b" using s(1) unfolding reachable52_def by (meson rtranclp.rtrancl_into_rtrancl)
  moreover have "pc52 ?b 0 (XUse m)" by (simp add: at_pc_def)
  ultimately show ?thesis using cond_consumer_owns_message[of ?b 0 m] by blast
qed

theorem cond_shutdown_terminates_witness:
  "\<exists>s. reachable52 s \<and> \<not> w_run s \<and> w_thr s = [KIdle] \<and> (\<forall>n t. (worker52 ^^ n) s t \<longrightarrow> n \<le> 1)"
proof -
  obtain s where s: "reachable52 s" "w_thr s = [KIdle]" "w_main s = MainIdle" using fill_queue[of 0] by auto
  let ?t = "s\<lparr>w_run := False\<rparr>"
  have "reachable52 ?t" using s(1) quit[of s] unfolding reachable52_def by (meson rtranclp.rtrancl_into_rtrancl)
  then show ?thesis
    using cond_shutdown_terminates[of ?t] s by (intro exI[of _ ?t]) (auto simp: nobody_waits_def)
qed

end
