(* ===== verification/Net_Server.thy ===== *)
theory Net_Server
  imports C_Strings "HOL-Library.Sublist"
begin

text \<open>
  lab08/src/server.c: the session of one client (\<open>handle_client\<close>) and the list of descriptors that
  have been accepted but not yet taken over by a thread.

  The calls of the operating system (\<open>realpath\<close>, \<open>readdir\<close>, \<open>lstat\<close>, \<open>readlink\<close>, \<open>stat\<close>) are functions
  in the record \<open>os8\<close>. A session turns each received chunk into the bytes it sends; \<open>Faults\<close> is a
  \<open>send\<close> that reads past a string literal.
\<close>

section \<open>The session\<close>

abbreviation CR :: char where "CR \<equiv> CHR 0x0D"
abbreviation crlf :: string where "crlf \<equiv> [CR, newline]"
abbreviation MAXLINE :: nat where "MAXLINE \<equiv> 1024"

datatype kind8 = IsDir | IsLnk | IsOther

record os8 =
  realpath8 :: "string \<Rightarrow> string option"
  readdir8 :: "string \<Rightarrow> string list option"
  lstat8 :: "string \<Rightarrow> kind8 option"
  readlink8 :: "string \<Rightarrow> string option"
  isreg8 :: "string \<Rightarrow> bool"

text \<open>\<open>sv_info\<close> is \<open>info_buf\<close> with its length, \<open>None\<close> when there is no file info.txt.\<close>

record server8 =
  sv_root :: string
  sv_info :: "string option"
  curr_dir :: string

text \<open>What \<open>main\<close> reads before it listens: \<open>read_file\<close> gives the contents of a file that can be opened.\<close>

definition server_init :: "(string \<rightharpoonup> string) \<Rightarrow> string \<Rightarrow> server8" where
  "server_init read_file root =
     \<lparr>sv_root = root, sv_info = read_file (snprintf PATH_MAX (root @ ''/info.txt'')), curr_dir = []\<rparr>"

text \<open>\<open>send(fd, "...", n, 0)\<close> of a literal, which has one byte more than its text.\<close>

definition send_lit :: "string \<Rightarrow> nat \<Rightarrow> string outcome" where
  "send_lit s n = (if n \<le> length s + 1 then Done (take n (s @ [NUL])) else Faults)"

definition has_info :: "server8 \<Rightarrow> bool" where
  "has_info st \<longleftrightarrow> (case sv_info st of Some t \<Rightarrow> t \<noteq> [] | None \<Rightarrow> False)"

definition info_bytes :: "server8 \<Rightarrow> string" where
  "info_bytes st = (case sv_info st of Some t \<Rightarrow> t @ crlf | None \<Rightarrow> [])"

definition greeting :: "server8 \<Rightarrow> string outcome" where
  "greeting st =
     obind (send_lit (''Welcome to myserver'' @ crlf) 22) (\<lambda>w.
     Done (w @ (if has_info st then info_bytes st else [])))"

definition cmd_info :: "server8 \<Rightarrow> string outcome" where
  "cmd_info st = (if has_info st then Done (info_bytes st) else send_lit (''(no INFO available)'' @ crlf) 23)"

definition cd_target :: "server8 \<Rightarrow> string \<Rightarrow> string" where
  "cd_target st arg =
     snprintf PATH_MAX
       (if arg \<noteq> [] \<and> hd arg = slash then sv_root st @ [slash] @ arg
        else sv_root st @ [slash] @ curr_dir st @ [slash] @ arg)"

definition cmd_cd :: "os8 \<Rightarrow> server8 \<Rightarrow> string \<Rightarrow> server8" where
  "cmd_cd os st arg =
     (case realpath8 os (cd_target st arg) of
        Some real \<Rightarrow>
          if prefix (sv_root st) real
          then let p = drop (length (sv_root st)) real;
                   p = (if p \<noteq> [] \<and> hd p = slash then tl p else p)
               in st\<lparr>curr_dir := p\<rparr>
          else st
      | None \<Rightarrow> st)"

definition list_dir :: "server8 \<Rightarrow> string" where
  "list_dir st = snprintf PATH_MAX (sv_root st @ [slash] @ curr_dir st)"

definition link_arrow :: "bool \<Rightarrow> string" where
  "link_arrow regular = (if regular then '' --> '' else '' -->> '')"

text \<open>The line for one directory entry; \<open>None\<close> when it is skipped.\<close>

definition list_line :: "os8 \<Rightarrow> string \<Rightarrow> string \<Rightarrow> string option" where
  "list_line os dirpath name =
     (if name = ''.'' then None
      else let full = snprintf PATH_MAX (dirpath @ [slash] @ name)
           in case lstat8 os full of
                None \<Rightarrow> None
              | Some IsDir \<Rightarrow> Some (snprintf MAXLINE (name @ [slash] @ crlf))
              | Some IsLnk \<Rightarrow>
                  (case readlink8 os full of
                     None \<Rightarrow> None
                   | Some target \<Rightarrow>
                       let linkfull = snprintf PATH_MAX (dirpath @ [slash] @ target)
                       in Some (snprintf MAXLINE (name @ link_arrow (isreg8 os linkfull) @ target @ crlf)))
              | Some IsOther \<Rightarrow> Some (snprintf MAXLINE (name @ crlf)))"

definition cmd_list8 :: "os8 \<Rightarrow> server8 \<Rightarrow> string outcome" where
  "cmd_list8 os st =
     (case readdir8 os (list_dir st) of
        None \<Rightarrow> obind (send_lit (''(cannot open dir)'' @ crlf) 18) (\<lambda>w. Done (w @ crlf))
      | Some names \<Rightarrow> Done (concat (List.map_filter (list_line os (list_dir st)) names) @ crlf))"

text \<open>One command: what is sent, the session afterwards, and whether it goes on.\<close>

definition run_cmd :: "os8 \<Rightarrow> server8 \<Rightarrow> string \<Rightarrow> (string \<times> server8 \<times> bool) outcome" where
  "run_cmd os st cmd =
     (if prefix ''ECHO '' cmd then Done (drop 5 cmd @ crlf, st, True)
      else if cmd = ''QUIT'' then obind (send_lit (''BYE'' @ crlf) 6) (\<lambda>w. Done (w, st, False))
      else if cmd = ''INFO'' then obind (cmd_info st) (\<lambda>w. Done (w, st, True))
      else if prefix ''CD '' cmd then Done (crlf, cmd_cd os st (drop 3 cmd), True)
      else if cmd = ''LIST'' then obind (cmd_list8 os st) (\<lambda>w. Done (w, st, True))
      else obind (send_lit (''Unknown command'' @ crlf) 17) (\<lambda>w. Done (w, st, True)))"

text \<open>\<open>strtok(buffer, "\r\n")\<close> on the received bytes, which are cut at the first zero byte.\<close>

definition first_line :: "string \<Rightarrow> string option" where
  "first_line buffer =
     (let t = dropWhile (\<lambda>c. c = CR \<or> c = newline) (c_string buffer)
      in if t = [] then None else Some (takeWhile (\<lambda>c. c \<noteq> CR \<and> c \<noteq> newline) t))"

definition serve_chunk :: "os8 \<Rightarrow> server8 \<Rightarrow> string \<Rightarrow> (string \<times> server8 \<times> bool) outcome" where
  "serve_chunk os st chunk =
     (case first_line chunk of None \<Rightarrow> Done ([], st, True) | Some cmd \<Rightarrow> run_cmd os st cmd)"

text \<open>\<open>handle_client\<close> for the chunks \<open>recv\<close> delivers; an empty one is the end of the connection.\<close>

fun serve_loop :: "os8 \<Rightarrow> server8 \<Rightarrow> string list \<Rightarrow> (string \<times> server8) outcome" where
  "serve_loop os st [] = Done ([], st)"
| "serve_loop os st (chunk # chunks) =
     (if chunk = [] then Done ([], st)
      else obind (serve_chunk os st chunk) (\<lambda>(out, st', go).
        if go then obind (serve_loop os st' chunks) (\<lambda>(out', st''). Done (out @ out', st''))
        else Done (out, st')))"

definition handle_client :: "os8 \<Rightarrow> server8 \<Rightarrow> string list \<Rightarrow> (string \<times> server8) outcome" where
  "handle_client os st chunks =
     obind (greeting st) (\<lambda>w. obind (serve_loop os (st\<lparr>curr_dir := []\<rparr>) chunks) (\<lambda>(out, st'). Done (w @ out, st')))"

section \<open>The working directory of a session\<close>

text \<open>
  CD and LIST agree on the directory. For a root without a trailing slash: when
  \<open>realpath\<close> resolves the argument to the root or to a path below it, the next LIST reads exactly that
  path; when it resolves to a path that is not an extension of the root's name, the working
  directory stays. A sibling whose name only extends the root's name passes the prefix test, and the
  working directory becomes a path below the root that the client did not name.
\<close>

theorem cd_enters_resolved_directory:
  assumes "realpath8 os (cd_target st arg) = Some real" "length real + 1 < PATH_MAX"
  shows "list_dir (cmd_cd os st arg) =
    (if real = sv_root st then sv_root st @ [slash]
     else if prefix (sv_root st @ [slash]) real then real
     else if prefix (sv_root st) real then sv_root st @ [slash] @ drop (length (sv_root st)) real
     else list_dir st)"
proof -
  have "list_dir (st\<lparr>curr_dir := p\<rparr>) = sv_root st @ [slash] @ p" if "length (sv_root st) + length p + 1 < PATH_MAX" for p
    using that by (simp add: list_dir_def)
  moreover have "hd x \<noteq> slash" if "real = sv_root st @ x" "x \<noteq> []" "\<not> prefix (sv_root st @ [slash]) real" for x
    using that by (cases x) (auto simp: prefix_def)
  ultimately show ?thesis
    using assms by (auto simp: cmd_cd_def Let_def elim!: prefixE)
qed

theorem cd_enters_resolved_directory_witness:
  "list_dir (cmd_cd \<lparr>realpath8 = (\<lambda>p. Some ''/srv/sub''), readdir8 = Map.empty, lstat8 = Map.empty, readlink8 = Map.empty, isreg8 = (\<lambda>p. False)\<rparr>
     \<lparr>sv_root = ''/srv'', sv_info = None, curr_dir = []\<rparr> ''sub'') = ''/srv/sub''"
  using cd_enters_resolved_directory[of "\<lparr>realpath8 = (\<lambda>p. Some ''/srv/sub''), readdir8 = Map.empty, lstat8 = Map.empty,
    readlink8 = Map.empty, isreg8 = (\<lambda>p. False)\<rparr>" "\<lparr>sv_root = ''/srv'', sv_info = None, curr_dir = []\<rparr>" "''sub''" "''/srv/sub''"]
  by simp

section \<open>Accepted descriptors\<close>

text \<open>
  \<open>cells\<close> are the allocated integers that hold a descriptor, \<open>nodes\<close> the list \<open>pending_fds\<close>, each node
  given by the integer it points to. \<open>due\<close> are the integers passed to threads that have not yet
  taken them over, \<open>preparing\<close> the one the accept loop works on, \<open>open_fds\<close> the open descriptors.
\<close>

record pend8 =
  cells :: "nat \<rightharpoonup> int"
  nodes :: "nat list"
  preparing :: "nat option"
  due :: "nat set"
  open_fds :: "int set"

definition pend_init :: pend8 where
  "pend_init = \<lparr>cells = Map.empty, nodes = [], preparing = None, due = {}, open_fds = {}\<rparr>"

text \<open>The loop of \<open>handle_client\<close> that removes the first node with this descriptor.\<close>

fun unlink_node :: "(nat \<rightharpoonup> int) \<Rightarrow> int \<Rightarrow> nat list \<Rightarrow> nat list outcome" where
  "unlink_node c fd [] = Done []"
| "unlink_node c fd (q # qs) =
     (case c q of None \<Rightarrow> Faults
      | Some v \<Rightarrow> if v = fd then Done qs else obind (unlink_node c fd qs) (\<lambda>qs'. Done (q # qs')))"

text \<open>The loop of \<open>handle_sigint\<close>: it closes the descriptors and frees integers and nodes.\<close>

fun close_all :: "(nat \<rightharpoonup> int) \<Rightarrow> nat list \<Rightarrow> ((nat \<rightharpoonup> int) \<times> int list) outcome" where
  "close_all c [] = Done (c, [])"
| "close_all c (q # qs) =
     (case c q of None \<Rightarrow> Faults
      | Some v \<Rightarrow> obind (close_all (c(q := None)) qs) (\<lambda>(c', fds). Done (c', if v \<ge> 0 then v # fds else fds)))"

text \<open>The steps of the accept loop and of the threads; \<open>fails\<close> counts the failed calls of \<open>accept\<close> and \<open>pthread_create\<close>.\<close>

inductive pstep :: "pend8 \<times> nat \<Rightarrow> pend8 \<times> nat \<Rightarrow> bool" where
  prepare: "preparing s = None \<Longrightarrow> cells s p = None \<Longrightarrow>
    pstep (s, k) (s\<lparr>cells := (cells s)(p \<mapsto> -1), nodes := p # nodes s, preparing := Some p\<rparr>, k)"
| accepted: "preparing s = Some p \<Longrightarrow> 0 \<le> fd \<Longrightarrow> fd \<notin> open_fds s \<Longrightarrow>
    pstep (s, k) (s\<lparr>cells := (cells s)(p \<mapsto> fd), preparing := None, due := insert p (due s), open_fds := insert fd (open_fds s)\<rparr>, k)"
| accept_fails: "preparing s = Some p \<Longrightarrow>
    pstep (s, k) (s\<lparr>cells := (cells s)(p := None), preparing := None\<rparr>, Suc k)"
| create_fails: "preparing s = Some p \<Longrightarrow> 0 \<le> fd \<Longrightarrow> fd \<notin> open_fds s \<Longrightarrow>
    pstep (s, k) (s\<lparr>cells := (cells s)(p := None), preparing := None\<rparr>, Suc k)"
| takes_over: "p \<in> due s \<Longrightarrow> cells s p = Some fd \<Longrightarrow> unlink_node (cells s) fd (nodes s) = Done ns \<Longrightarrow>
    pstep (s, k) (s\<lparr>cells := (cells s)(p := None), nodes := ns, due := due s - {p}\<rparr>, k)"
| ends: "fd \<in> open_fds s \<Longrightarrow> fd \<notin> {v. \<exists>p \<in> due s. cells s p = Some v} \<Longrightarrow> pstep (s, k) (s\<lparr>open_fds := open_fds s - {fd}\<rparr>, k)"

subsection \<open>Every live integer has a node, and only failed calls leave others\<close>

definition live8 :: "pend8 \<Rightarrow> nat \<Rightarrow> nat" where
  "live8 s p = (if cells s p = None then 0 else 1)"

definition cells_ok :: "pend8 \<Rightarrow> bool" where
  "cells_ok s \<longleftrightarrow> dom (cells s) = due s \<union> set_option (preparing s) \<and> (\<forall>p. preparing s = Some p \<longrightarrow> p \<notin> due s \<and> cells s p = Some (-1)) \<and>
     (\<forall>p \<in> due s. \<forall>v. cells s p = Some v \<longrightarrow> 0 \<le> v \<and> v \<in> open_fds s \<and> (\<forall>q \<in> due s. cells s q = Some v \<longrightarrow> q = p))"

definition nodes_ok :: "pend8 \<Rightarrow> nat \<Rightarrow> bool" where
  "nodes_ok s k \<longleftrightarrow> (\<forall>p. live8 s p \<le> count_list (nodes s) p) \<and>
     (if k = 0 then \<forall>p. count_list (nodes s) p = live8 s p else \<exists>p. live8 s p < count_list (nodes s) p)"

lemma unlink_node_remove1:
  assumes "unlink_node c fd qs = Done ns" "c p = Some fd" "\<And>q. c q = Some fd \<Longrightarrow> q = p"
  shows "ns = remove1 p qs"
  using assms(1)
proof (induction qs arbitrary: ns)
  case (Cons q qs)
  show ?case
  proof (cases "c q = Some fd")
    case True
    then show ?thesis using Cons(2) assms(3)[OF True] by simp
  next
    case False
    moreover from this have "q \<noteq> p" using assms(2) by auto
    ultimately show ?thesis using Cons by (auto split: option.splits)
  qed
qed simp

lemma unlink_node_total: "(\<And>q. q \<in> set qs \<Longrightarrow> c q \<noteq> None) \<Longrightarrow> \<exists>ns. unlink_node c fd qs = Done ns"
  by (induction qs) (auto split: option.splits)

lemma count_remove1: "count_list (remove1 p qs) x = (if x = p then count_list qs x - 1 else count_list qs x)"
  by (induction qs) (auto simp: count_list_0_iff)

lemma fd_unique: "cells_ok s \<Longrightarrow> p \<in> due s \<Longrightarrow> cells s p = Some fd \<Longrightarrow> cells s q = Some fd \<Longrightarrow> q = p"
proof -
  assume ok: "cells_ok s" and p: "p \<in> due s" "cells s p = Some fd" and q: "cells s q = Some fd"
  have fd: "0 \<le> fd" "\<And>r. r \<in> due s \<Longrightarrow> cells s r = Some fd \<Longrightarrow> r = p" using ok p unfolding cells_ok_def by blast+
  have "q \<in> due s \<or> preparing s = Some q" using ok q unfolding cells_ok_def by (auto simp: dom_def)
  moreover have "preparing s \<noteq> Some q" using ok q fd(1) unfolding cells_ok_def by fastforce
  ultimately show "q = p" using fd(2) q by blast
qed

lemma dangling_step:
  assumes "cells_ok s" "nodes_ok s k" "preparing s = Some p"
  shows "cells_ok (s\<lparr>cells := (cells s)(p := None), preparing := None\<rparr>) \<and>
    nodes_ok (s\<lparr>cells := (cells s)(p := None), preparing := None\<rparr>) (Suc k)"
proof -
  let ?t = "s\<lparr>cells := (cells s)(p := None), preparing := None\<rparr>"
  have "cells s p = Some (-1)" using assms(1,3) by (simp add: cells_ok_def)
  then have "live8 s p = 1" by (simp add: live8_def)
  then have "1 \<le> count_list (nodes s) p" using assms(2) by (metis nodes_ok_def)
  moreover have "live8 ?t x = (if x = p then 0 else live8 s x)" for x by (simp add: live8_def)
  ultimately have "nodes_ok ?t (Suc k)" using assms(2) by (auto simp: nodes_ok_def intro!: exI[of _ p])
  moreover have "cells_ok ?t" using assms(1,3) by (auto simp: cells_ok_def)
  ultimately show ?thesis by simp
qed

lemma takes_over_ok:
  assumes "cells_ok s" "nodes_ok s k" "p \<in> due s" "cells s p = Some fd" "unlink_node (cells s) fd (nodes s) = Done ns"
  shows "cells_ok (s\<lparr>cells := (cells s)(p := None), nodes := ns, due := due s - {p}\<rparr>) \<and>
    nodes_ok (s\<lparr>cells := (cells s)(p := None), nodes := ns, due := due s - {p}\<rparr>) k"
proof -
  let ?t = "s\<lparr>cells := (cells s)(p := None), nodes := ns, due := due s - {p}\<rparr>"
  have ns: "count_list ns x = (if x = p then count_list (nodes s) x - 1 else count_list (nodes s) x)" for x
    using unlink_node_remove1[OF assms(5,4)] fd_unique[OF assms(1,3,4)] count_remove1 by metis
  have lt: "live8 ?t x = (if x = p then 0 else live8 s x)" for x by (simp add: live8_def)
  have lp: "live8 s p = 1" using assms(4) by (simp add: live8_def)
  have "nodes_ok ?t k"
  proof (cases "k = 0")
    case True
    then show ?thesis using assms(2) ns lt lp by (simp add: nodes_ok_def)
  next
    case False
    then obtain x where "live8 s x < count_list (nodes s) x" using assms(2) by (auto simp: nodes_ok_def)
    then have "live8 ?t x < count_list (nodes ?t) x" using ns[of x] lt[of x] lp by (cases "x = p") auto
    moreover have "live8 ?t y \<le> count_list (nodes ?t) y" for y using assms(2) ns[of y] lt[of y] by (simp add: nodes_ok_def)
    ultimately show ?thesis using False unfolding nodes_ok_def by metis
  qed
  moreover have "p \<notin> set_option (preparing s)" using assms(1,3) by (auto simp: cells_ok_def)
  then have "cells_ok ?t" using assms(1) by (auto simp: cells_ok_def)
  ultimately show ?thesis by simp
qed

lemma prepare_ok:
  assumes "cells_ok s" "nodes_ok s k" "preparing s = None" "cells s p = None"
  shows "cells_ok (s\<lparr>cells := (cells s)(p \<mapsto> -1), nodes := p # nodes s, preparing := Some p\<rparr>) \<and>
    nodes_ok (s\<lparr>cells := (cells s)(p \<mapsto> -1), nodes := p # nodes s, preparing := Some p\<rparr>) k"
proof -
  let ?t = "s\<lparr>cells := (cells s)(p \<mapsto> -1), nodes := p # nodes s, preparing := Some p\<rparr>"
  have "live8 ?t x = (if x = p then Suc (live8 s x) else live8 s x)"
    "count_list (nodes ?t) x = (if x = p then Suc (count_list (nodes s) x) else count_list (nodes s) x)" for x
    using assms(4) by (simp_all add: live8_def)
  then have "live8 ?t x < count_list (nodes ?t) x \<longleftrightarrow> live8 s x < count_list (nodes s) x"
    "live8 ?t x \<le> count_list (nodes ?t) x \<longleftrightarrow> live8 s x \<le> count_list (nodes s) x"
    "count_list (nodes ?t) x = live8 ?t x \<longleftrightarrow> count_list (nodes s) x = live8 s x" for x by simp_all
  then have "nodes_ok ?t k" using assms(2) unfolding nodes_ok_def by presburger
  moreover have "p \<notin> due s" using assms(1,4) by (auto simp: cells_ok_def)
  then have "cells_ok ?t" using assms(1,3) by (auto simp: cells_ok_def)
  ultimately show ?thesis by simp
qed

lemma accepted_ok:
  assumes "cells_ok s" "nodes_ok s k" "preparing s = Some p" "0 \<le> fd" "fd \<notin> open_fds s"
  shows "cells_ok (s\<lparr>cells := (cells s)(p \<mapsto> fd), preparing := None, due := insert p (due s), open_fds := insert fd (open_fds s)\<rparr>) \<and>
    nodes_ok (s\<lparr>cells := (cells s)(p \<mapsto> fd), preparing := None, due := insert p (due s), open_fds := insert fd (open_fds s)\<rparr>) k"
proof -
  let ?t = "s\<lparr>cells := (cells s)(p \<mapsto> fd), preparing := None, due := insert p (due s), open_fds := insert fd (open_fds s)\<rparr>"
  have "cells s p = Some (-1)" using assms(1,3) by (simp add: cells_ok_def)
  then have "live8 ?t = live8 s" by (auto simp: live8_def)
  then have "nodes_ok ?t k" using assms(2) by (simp add: nodes_ok_def)
  moreover have "cells_ok ?t" using assms(1,3-5) by (auto simp: cells_ok_def)
  ultimately show ?thesis by simp
qed

lemma ends_ok:
  assumes "cells_ok s" "nodes_ok s k" "fd \<notin> {v. \<exists>p \<in> due s. cells s p = Some v}"
  shows "cells_ok (s\<lparr>open_fds := open_fds s - {fd}\<rparr>) \<and> nodes_ok (s\<lparr>open_fds := open_fds s - {fd}\<rparr>) k"
proof -
  have "cells_ok (s\<lparr>open_fds := open_fds s - {fd}\<rparr>)" using assms(1,3) by (simp add: cells_ok_def) blast
  moreover have "live8 (s\<lparr>open_fds := open_fds s - {fd}\<rparr>) = live8 s" by (auto simp: live8_def)
  ultimately show ?thesis using assms(2) by (simp add: nodes_ok_def)
qed

lemma pstep_ok:
  assumes "pstep (s, k) (t, j)" "cells_ok s" "nodes_ok s k"
  shows "cells_ok t \<and> nodes_ok t j"
  using assms(1)
proof (cases rule: pstep.cases)
  case (takes_over p fd ns)
  then show ?thesis using takes_over_ok[OF assms(2,3)] by blast
qed (use prepare_ok[OF assms(2,3)] accepted_ok[OF assms(2,3)] dangling_step[OF assms(2,3)] ends_ok[OF assms(2,3)] in blast)+

lemma psteps_ok: "pstep\<^sup>*\<^sup>* (pend_init, 0) (s, k) \<Longrightarrow> cells_ok s \<and> nodes_ok s k"
proof (induction "(s, k)" arbitrary: s k rule: rtranclp_induct)
  case base
  then show ?case by (simp add: cells_ok_def nodes_ok_def live8_def pend_init_def)
next
  case (step y)
  then show ?case using pstep_ok by (cases y) blast
qed

text \<open>The handler of \<open>SIGINT\<close> frees every integer exactly once or has undefined behaviour.\<close>

lemma close_all_ok:
  "(\<And>p. count_list qs p \<le> (if c p = None then 0 else 1)) \<Longrightarrow>
   \<exists>c' fds. close_all c qs = Done (c', fds) \<and> set fds = {v. 0 \<le> v \<and> (\<exists>p \<in> set qs. c p = Some v)}"
proof (induction qs arbitrary: c)
  case (Cons q qs)
  have "count_list (q # qs) q \<le> (if c q = None then 0 else 1)" by (rule Cons(2))
  then obtain v where v: "c q = Some v" "q \<notin> set qs" by (auto simp: count_list_0_iff split: if_splits)
  have "count_list qs p \<le> (if (c(q := None)) p = None then 0 else 1)" for p
    using Cons(2)[of p] v by (auto simp: count_list_0_iff split: if_splits)
  then obtain c' fds where "close_all (c(q := None)) qs = Done (c', fds)"
    "set fds = {v. 0 \<le> v \<and> (\<exists>p \<in> set qs. (c(q := None)) p = Some v)}"
    using Cons(1)[of "c(q := None)"] by blast
  then show ?case using v by (auto split: if_splits)
qed simp

lemma close_all_faults: "(if c p = None then 0 else 1) < count_list qs p \<Longrightarrow> close_all c qs = Faults"
proof (induction qs arbitrary: c)
  case (Cons q qs)
  show ?case
  proof (cases "c q")
    case (Some v)
    then have "close_all (c(q := None)) qs = Faults" using Cons(2) by (intro Cons(1)) (auto split: if_splits)
    then show ?thesis using Some by simp
  qed simp
qed simp

text \<open>
  C33. The list of pending descriptors. As long as every \<open>accept\<close> and \<open>pthread_create\<close> has succeeded,
  a thread that takes over its descriptor finds and removes exactly its own node without touching
  freed memory, and the handler of \<open>SIGINT\<close> closes exactly the descriptors not yet taken over. After a
  failed call a node points to freed memory, and the handler of \<open>SIGINT\<close> has undefined behaviour,
  whatever happens in between.
\<close>

theorem pending_list_safe:
  assumes "pstep\<^sup>*\<^sup>* (pend_init, 0) (s, k)"
  shows "if k = 0
    then (\<forall>p \<in> due s. \<exists>fd. cells s p = Some fd \<and> unlink_node (cells s) fd (nodes s) = Done (remove1 p (nodes s))) \<and>
      (\<exists>c fds. close_all (cells s) (nodes s) = Done (c, fds) \<and> set fds = {fd. \<exists>p \<in> due s. cells s p = Some fd})
    else close_all (cells s) (nodes s) = Faults"
proof (cases "k = 0")
  case True
  have ok: "cells_ok s" and cnt: "\<And>p. count_list (nodes s) p = (if cells s p = None then 0 else 1)"
    using psteps_ok[OF assms] True by (simp_all add: nodes_ok_def live8_def)
  have nodes: "set (nodes s) = dom (cells s)"
  proof -
    have "x \<in> set (nodes s) \<longleftrightarrow> cells s x \<noteq> None" for x using cnt[of x] count_list_0_iff[of "nodes s" x] by (auto split: if_splits)
    then show ?thesis by auto
  qed
  have "\<exists>fd. cells s p = Some fd \<and> unlink_node (cells s) fd (nodes s) = Done (remove1 p (nodes s))" if p: "p \<in> due s" for p
  proof -
    have "p \<in> dom (cells s)" using ok p by (simp add: cells_ok_def)
    then obtain fd where fd: "cells s p = Some fd" by blast
    then show ?thesis
      using unlink_node_total[of "nodes s" "cells s" fd] unlink_node_remove1[of "cells s" fd "nodes s" _ p] fd fd_unique[OF ok p fd] nodes by blast
  qed
  moreover have "{v. 0 \<le> v \<and> (\<exists>p \<in> set (nodes s). cells s p = Some v)} = {fd. \<exists>p \<in> due s. cells s p = Some fd}"
  proof (intro set_eqI iffI)
    fix v assume "v \<in> {v. 0 \<le> v \<and> (\<exists>p \<in> set (nodes s). cells s p = Some v)}"
    then obtain p where v: "0 \<le> v" "cells s p = Some v" by blast
    then have "p \<in> due s \<or> preparing s = Some p" using ok by (auto simp: cells_ok_def dom_def)
    moreover have "preparing s \<noteq> Some p" using ok v by (fastforce simp: cells_ok_def)
    ultimately show "v \<in> {fd. \<exists>p \<in> due s. cells s p = Some fd}" using v by blast
  next
    fix v assume "v \<in> {fd. \<exists>p \<in> due s. cells s p = Some fd}"
    then obtain p where v: "p \<in> due s" "cells s p = Some v" by blast
    then have "0 \<le> v" using ok unfolding cells_ok_def by blast
    then show "v \<in> {v. 0 \<le> v \<and> (\<exists>p \<in> set (nodes s). cells s p = Some v)}" using v nodes by blast
  qed
  ultimately show ?thesis using True close_all_ok[of "nodes s" "cells s"] cnt by auto
next
  case False
  then show ?thesis using psteps_ok[OF assms] close_all_faults[of "cells s" _ "nodes s"] by (auto simp: nodes_ok_def live8_def)
qed

theorem pending_list_safe_witness:
  "\<exists>s. pstep\<^sup>*\<^sup>* (pend_init, 0) (s, 1) \<and> close_all (cells s) (nodes s) = Faults"
proof -
  let ?a = "pend_init\<lparr>cells := [7 \<mapsto> -1], nodes := [7], preparing := Some 7\<rparr>"
  let ?b = "?a\<lparr>cells := Map.empty, preparing := None\<rparr>"
  have "pstep (pend_init, 0) (?a, 0)" using prepare[of pend_init 7 0] by (simp add: pend_init_def)
  moreover have "pstep (?a, 0) (?b, 1)" using accept_fails[of ?a 7 0] by simp
  ultimately have "pstep\<^sup>*\<^sup>* (pend_init, 0) (?b, 1)" by (meson r_into_rtranclp rtranclp.rtrancl_into_rtrancl)
  then show ?thesis using pending_list_safe[of ?b 1] by auto
qed

end
