(* ===== verification/Net_Client.thy ===== *)
theory Net_Client
  imports Net_Server
begin

text \<open>
  lab08/src/client.c, and the client together with the session of \<open>Net_Server\<close>. The bytes the server
  has sent and the client has not read are a string; \<open>fgets\<close> on the socket returns a complete line
  or \<open>MAXLINE - 1\<close> bytes, otherwise it blocks. A line the client sends reaches the server as one
  chunk.

  The client reads one line after most commands and lines up to an empty one after INFO and LIST.
  \<open>session_in_step\<close> says when this fits what the server sends; \<open>session_hangs\<close> lists the cases in
  which both sides wait for each other.
\<close>

section \<open>The client\<close>

definition parse_addr :: "string \<Rightarrow> (string \<times> c_int) option" where
  "parse_addr arg =
     (if CHR '':'' \<in> set arg
      then Some (take 15 (takeWhile (\<lambda>c. c \<noteq> CHR '':'') arg), atoi (tl (dropWhile (\<lambda>c. c \<noteq> CHR '':'') arg)))
      else None)"

definition sock_gets :: "string \<Rightarrow> (string \<times> string) outcome" where
  "sock_gets s =
     (case line_of (MAXLINE - 1) s of (l, r) \<Rightarrow>
        if l \<noteq> [] \<and> (last l = newline \<or> length l = MAXLINE - 1) then Done (l, r) else Blocks)"

text \<open>The lines before the first one that is \<open>"\r\n"\<close>.\<close>

function until_blank :: "string \<Rightarrow> (string list \<times> string) outcome" where
  "until_blank s =
     obind (sock_gets s) (\<lambda>(l, r).
     if c_string l = crlf then Done ([], r)
     else obind (until_blank r) (\<lambda>(ls, r'). Done (l # ls, r')))"
  by pat_completeness auto
termination
proof (relation "measure length")
  fix s x l r assume "sock_gets s = Done x" "(l, r) = x"
  then have "line_of 1023 s = (l, r)" "l \<noteq> []" by (auto simp: sock_gets_def split: prod.splits if_splits)
  then show "(r, s) \<in> measure length" using line_of_append[of 1023 s l r] by auto
qed simp

declare until_blank.simps [simp del]

fun strstr :: "string \<Rightarrow> string \<Rightarrow> bool" where
  "strstr p [] = (p = [])"
| "strstr p (c # s) = (prefix p (c # s) \<or> strstr p s)"

text \<open>What is shown, what is left of the stream, and whether the client leaves.\<close>

definition client_read :: "string \<Rightarrow> string \<Rightarrow> (string \<times> string \<times> bool) outcome" where
  "client_read sendbuf s =
     (if sendbuf = ''QUIT''
      then obind (sock_gets s) (\<lambda>(l, r). Done (c_string l, r, strstr ''BYE'' (c_string l)))
      else if sendbuf = ''INFO'' \<or> sendbuf = ''LIST''
      then obind (until_blank s) (\<lambda>(ls, r). Done (concat (map c_string ls), r, False))
      else obind (sock_gets s) (\<lambda>(l, r). Done (c_string l, r, False)))"

text \<open>One command: the client sends it, the server answers, the client reads the answer.\<close>

definition exchange :: "os8 \<Rightarrow> server8 \<Rightarrow> string \<Rightarrow> string \<Rightarrow> (string \<times> string \<times> server8 \<times> bool) outcome" where
  "exchange os st stream sendbuf =
     obind (serve_chunk os st (sendbuf @ crlf)) (\<lambda>(out, st', go).
     obind (client_read sendbuf (stream @ out)) (\<lambda>(shown, rest, bye). Done (shown, rest, st', bye)))"

definition cut_input :: "string \<Rightarrow> string" where
  "cut_input line = takeWhile (\<lambda>c. c \<noteq> CR \<and> c \<noteq> newline) (c_string line)"

text \<open>\<open>process_file_commands\<close> on the lines of a file, and \<open>interactive_mode\<close> on the lines typed.\<close>

fun process_file_commands :: "os8 \<Rightarrow> server8 \<Rightarrow> string \<Rightarrow> string list \<Rightarrow> (string list \<times> string \<times> server8 \<times> bool) outcome" where
  "process_file_commands os st stream [] = Done ([], stream, st, False)"
| "process_file_commands os st stream (line # lines) =
     (let sendbuf = cut_input line
      in if sendbuf = [] then process_file_commands os st stream lines
         else obind (exchange os st stream sendbuf) (\<lambda>(shown, rest, st', bye).
           if bye then Done ([shown], rest, st', True)
           else obind (process_file_commands os st' rest lines) (\<lambda>(outs, rest', st'', b). Done (shown # outs, rest', st'', b))))"

fun interactive_mode :: "os8 \<Rightarrow> (string \<rightharpoonup> string list) \<Rightarrow> server8 \<Rightarrow> string \<Rightarrow> string list \<Rightarrow> string list outcome" where
  "interactive_mode os files st stream [] = Done []"
| "interactive_mode os files st stream (line # lines) =
     (let sendbuf = cut_input line
      in if sendbuf \<noteq> [] \<and> hd sendbuf = CHR ''@''
         then (case files (tl sendbuf) of
                 None \<Rightarrow> interactive_mode os files st stream lines
               | Some ls \<Rightarrow> obind (process_file_commands os st stream ls) (\<lambda>(outs, rest, st', b).
                   if b then Done outs
                   else obind (interactive_mode os files st' rest lines) (\<lambda>outs'. Done (outs @ outs'))))
         else obind (exchange os st stream sendbuf) (\<lambda>(shown, rest, st', bye).
           if bye then Done [shown]
           else obind (interactive_mode os files st' rest lines) (\<lambda>outs. Done (shown # outs))))"

text \<open>\<open>main\<close> of the client on a fresh session: the greeting up to an empty line, then the dialogue.\<close>

definition client_session :: "os8 \<Rightarrow> (string \<rightharpoonup> string list) \<Rightarrow> server8 \<Rightarrow> string list \<Rightarrow> (string list \<times> string list) outcome" where
  "client_session os files st lines =
     obind (greeting st) (\<lambda>w.
     obind (until_blank w) (\<lambda>(shown, rest).
     obind (interactive_mode os files st rest lines) (\<lambda>outs. Done (map c_string shown, outs))))"

section \<open>Lines on the socket\<close>

text \<open>A line of text that fits the buffer.\<close>

definition short_line :: "string \<Rightarrow> bool" where
  "short_line l \<longleftrightarrow> newline \<notin> set l \<and> length l < MAXLINE - 1"

definition text_lines :: "string list \<Rightarrow> string" where
  "text_lines ls = concat (map (\<lambda>l. l @ [newline]) ls)"

lemma text_lines_simps [simp]: "text_lines [] = []" "text_lines (l # ls) = l @ newline # text_lines ls"
  by (simp_all add: text_lines_def)

lemma sock_gets_line: "short_line l \<Longrightarrow> sock_gets (l @ newline # r) = Done (l @ [newline], r)"
  by (simp add: sock_gets_def short_line_def line_of_newline)

text \<open>Neither a blank line nor cut short by a zero byte so that it looks like one.\<close>

definition not_blank :: "string \<Rightarrow> bool" where
  "not_blank l \<longleftrightarrow> c_string (l @ [newline]) \<noteq> crlf"

lemma until_blank_lines:
  assumes "list_all short_line ls" "list_all not_blank ls"
  shows "until_blank (text_lines ls @ crlf @ r) = Done (map (\<lambda>l. l @ [newline]) ls, r)"
  using assms
proof (induction ls)
  case Nil
  have "sock_gets ([CR] @ newline # r) = Done ([CR] @ [newline], r)" by (rule sock_gets_line) (simp add: short_line_def)
  then show ?case by (subst until_blank.simps) (simp add: c_string_def)
next
  case (Cons l ls)
  then have g: "sock_gets (l @ newline # text_lines ls @ crlf @ r) = Done (l @ [newline], text_lines ls @ crlf @ r)"
    by (intro sock_gets_line) simp
  then show ?case
    using Cons by (subst until_blank.simps) (simp add: not_blank_def)
qed

section \<open>The dialogue\<close>

definition cmd_ok :: "string \<Rightarrow> bool" where
  "cmd_ok s \<longleftrightarrow> s \<noteq> [] \<and> {CR, newline, NUL} \<inter> set s = {} \<and> length s \<le> MAXLINE - 3"

text \<open>The info text consists of lines that fit the buffer, none of them blank, the last one ended by a newline.\<close>

definition info_ok :: "string \<Rightarrow> bool" where
  "info_ok t \<longleftrightarrow> t \<noteq> [] \<and> (\<exists>ls. t = text_lines ls \<and> list_all (\<lambda>l. newline \<notin> set l \<and> length l < MAXLINE - 2) ls \<and> list_all not_blank ls)"

definition name_ok :: "string \<Rightarrow> bool" where
  "name_ok n \<longleftrightarrow> n \<noteq> [] \<and> newline \<notin> set n \<and> NUL \<notin> set n \<and> length n \<le> 255"

definition listable :: "os8 \<Rightarrow> server8 \<Rightarrow> bool" where
  "listable os st \<longleftrightarrow> (case readdir8 os (list_dir st) of None \<Rightarrow> False | Some names \<Rightarrow> list_all name_ok names)"

definition links_ok :: "os8 \<Rightarrow> bool" where
  "links_ok os \<longleftrightarrow> (\<forall>p x. readlink8 os p = Some x \<longrightarrow> newline \<notin> set x \<and> NUL \<notin> set x \<and> length x \<le> 750)"

lemma info_okE:
  assumes "info_ok t"
  obtains ls where "t = text_lines ls" "list_all short_line ls" "list_all not_blank ls" "t \<noteq> []"
proof -
  from assms obtain ls where ls: "t = text_lines ls" "list_all (\<lambda>l. newline \<notin> set l \<and> length l < MAXLINE - 2) ls" "list_all not_blank ls" "t \<noteq> []"
    by (auto simp: info_ok_def)
  then have "list_all short_line ls" by (auto simp: list_all_iff short_line_def)
  then show thesis using that ls by blast
qed

lemma first_line_cmd: "cmd_ok s \<Longrightarrow> first_line (s @ crlf) = Some s"
proof -
  assume s: "cmd_ok s"
  then have c: "c_string (s @ crlf) = s @ crlf" by (auto simp: cmd_ok_def c_string_def takeWhile_eq_all_conv)
  obtain x xs where x: "s = x # xs" "x \<noteq> CR" "x \<noteq> newline" using s by (cases s) (auto simp: cmd_ok_def)
  have "takeWhile (\<lambda>c. c \<noteq> CR \<and> c \<noteq> newline) (s @ crlf) = s" using s by (auto simp: cmd_ok_def takeWhile_append)
  then show ?thesis using x c by (simp add: first_line_def Let_def)
qed

lemma one_line:
  assumes "short_line (b @ [CR])" "NUL \<notin> set b"
  shows "sock_gets (b @ crlf @ r) = Done (b @ crlf, r)" "c_string (b @ crlf) = b @ crlf"
  using sock_gets_line[OF assms(1), of r] assms(2) by (auto simp: c_string_def takeWhile_eq_all_conv)

lemma list_line_text:
  assumes "name_ok name" "links_ok os" "list_line os d name = Some l"
  shows "\<exists>b. l = b @ crlf \<and> short_line (b @ [CR]) \<and> not_blank (b @ [CR])"
proof -
  have nb: "not_blank (b @ [CR])" if "b \<noteq> []" "NUL \<notin> set b" for b
    using that by (auto simp: not_blank_def c_string_def takeWhile_append)
  consider "l = snprintf MAXLINE ((name @ [slash]) @ crlf)" | "l = snprintf MAXLINE (name @ crlf)"
    | p x b where "readlink8 os p = Some x" "l = snprintf MAXLINE ((name @ link_arrow b @ x) @ crlf)"
    using assms(3) by (auto simp: list_line_def Let_def split: if_splits option.splits kind8.splits)
  then show ?thesis
  proof cases
    case 1
    then show ?thesis using assms(1) nb[of "name @ [slash]"] by (intro exI[of _ "name @ [slash]"]) (simp add: name_ok_def short_line_def)
  next
    case 2
    then show ?thesis using assms(1) nb[of name] by (intro exI[of _ name]) (simp add: name_ok_def short_line_def)
  next
    case 3
    then have x: "newline \<notin> set x" "NUL \<notin> set x" "length x \<le> 750" using assms(2) unfolding links_ok_def by blast+
    have a: "newline \<notin> set (link_arrow b)" "NUL \<notin> set (link_arrow b)" "length (link_arrow b) \<le> 6" by (simp_all add: link_arrow_def)
    show ?thesis
      using 3(2) assms(1) x a nb[of "name @ link_arrow b @ x"] by (intro exI[of _ "name @ link_arrow b @ x"]) (auto simp: name_ok_def short_line_def)
  qed
qed

lemma listing_text:
  assumes "list_all name_ok names" "links_ok os"
  shows "\<exists>ls. concat (List.map_filter (list_line os d) names) = text_lines ls \<and> list_all short_line ls \<and> list_all not_blank ls"
  using assms(1)
proof (induction names)
  case Nil
  then show ?case by (intro exI[of _ "[]"]) (simp add: List.map_filter_def)
next
  case (Cons n names)
  then obtain ls where ls: "concat (List.map_filter (list_line os d) names) = text_lines ls" "list_all short_line ls" "list_all not_blank ls"
    by auto
  show ?case
  proof (cases "list_line os d n")
    case None
    then show ?thesis using ls by (auto simp: List.map_filter_def)
  next
    case (Some l)
    then obtain b where b: "l = b @ crlf" "short_line (b @ [CR])" "not_blank (b @ [CR])"
      using list_line_text[OF _ assms(2) Some] Cons(2) by auto
    then show ?thesis using ls Some by (intro exI[of _ "(b @ [CR]) # ls"]) (simp add: List.map_filter_def)
  qed
qed

lemma crlf_line: "sock_gets crlf = Done (crlf, [])" "c_string crlf = crlf"
  using one_line(1)[of "[]" "[]"] one_line(2)[of "[]"] by (simp_all add: short_line_def)

lemma unknown_line: "sock_gets (''Unknown command'' @ crlf) = Done (''Unknown command'' @ crlf, [])"
  using one_line(1)[of "''Unknown command''" "[]"] by (simp add: short_line_def)

text \<open>Every answer is read completely, and only then does the client go on.\<close>

lemma exchange_in_step:
  assumes "cmd_ok s" "sv_info st = Some t" "info_ok t" "listable os st" "links_ok os"
  shows "\<exists>shown rest st'. exchange os st [] s = Done (shown, rest, st', s = ''QUIT'') \<and> (s = ''QUIT'' \<or> rest = []) \<and>
    st' = (if prefix ''CD '' s then cmd_cd os st (drop 3 s) else st) \<and> (prefix ''ECHO '' s \<longrightarrow> shown = drop 5 s @ crlf)"
proof -
  have sc: "serve_chunk os st (s @ crlf) = run_cmd os st s" using first_line_cmd[OF assms(1)] by (simp add: serve_chunk_def)
  have nz: "NUL \<notin> set s" "newline \<notin> set s" "length s \<le> 1021" using assms(1) by (auto simp: cmd_ok_def)
  consider (echo) "prefix ''ECHO '' s" | (quit) "s = ''QUIT''" | (info) "s = ''INFO''" | (cd) "prefix ''CD '' s"
    | (ls) "s = ''LIST''" | (other) "\<not> prefix ''ECHO '' s" "s \<noteq> ''QUIT''" "s \<noteq> ''INFO''" "\<not> prefix ''CD '' s" "s \<noteq> ''LIST''" by blast
  then show ?thesis
  proof cases
    case echo
    then obtain p where p: "s = ''ECHO '' @ p" by (auto simp: prefix_def)
    then have "sock_gets (p @ crlf) = Done (p @ crlf, [])" "c_string (p @ crlf) = p @ crlf"
      using one_line(1)[of p "[]"] one_line(2)[of p] nz by (simp_all add: short_line_def)
    then show ?thesis using sc p by (simp add: exchange_def run_cmd_def client_read_def)
  next
    case quit
    have "sock_gets (''BYE'' @ crlf @ [NUL]) = Done (''BYE'' @ crlf, [NUL])" "c_string (''BYE'' @ crlf) = ''BYE'' @ crlf"
      using one_line(1)[of "''BYE''" "[NUL]"] one_line(2)[of "''BYE''"] by (simp_all add: short_line_def)
    then show ?thesis using sc quit by (simp add: exchange_def run_cmd_def client_read_def send_lit_def)
  next
    case info
    obtain ls' where l: "t = text_lines ls'" "list_all short_line ls'" "list_all not_blank ls'" "t \<noteq> []"
      by (rule info_okE[OF assms(3)])
    then show ?thesis using sc info assms(2) until_blank_lines[OF l(2,3), of "[]"]
      by (simp add: exchange_def run_cmd_def client_read_def cmd_info_def has_info_def info_bytes_def)
  next
    case cd
    then obtain p where "s = ''CD '' @ p" by (auto simp: prefix_def)
    then show ?thesis using sc crlf_line by (simp add: exchange_def run_cmd_def client_read_def)
  next
    case ls
    obtain names where n: "readdir8 os (list_dir st) = Some names" "list_all name_ok names"
      using assms(4) by (auto simp: listable_def split: option.splits)
    obtain xs where x: "concat (List.map_filter (list_line os (list_dir st)) names) = text_lines xs"
      "list_all short_line xs" "list_all not_blank xs" using listing_text[OF n(2) assms(5)] by blast
    then show ?thesis using sc ls n(1) until_blank_lines[OF x(2,3), of "[]"]
      by (simp add: exchange_def run_cmd_def client_read_def cmd_list8_def)
  next
    case other
    have "send_lit (''Unknown command'' @ crlf) 17 = Done (''Unknown command'' @ crlf)" by (simp add: send_lit_def)
    then show ?thesis using sc other unknown_line by (simp add: exchange_def run_cmd_def client_read_def)
  qed
qed

lemma cmd_cd_info: "sv_info (cmd_cd os st arg) = sv_info st"
  by (simp add: cmd_cd_def Let_def split: option.splits)

text \<open>The lines typed before the first QUIT, and that one.\<close>

definition asked :: "string list \<Rightarrow> nat" where
  "asked lines = min (length lines) (Suc (length (takeWhile (\<lambda>l. cut_input l \<noteq> ''QUIT'') lines)))"

lemma asked_simps [simp]: "asked [] = 0" "cut_input l = ''QUIT'' \<Longrightarrow> asked (l # ls) = 1"
  "cut_input l \<noteq> ''QUIT'' \<Longrightarrow> asked (l # ls) = Suc (asked ls)"
  by (simp_all add: asked_def)

lemma dialogue_in_step:
  assumes "info_ok t" "links_ok os" "\<And>st arg. listable os st \<Longrightarrow> listable os (cmd_cd os st arg)"
    and "list_all (\<lambda>l. cmd_ok (cut_input l) \<and> hd (cut_input l) \<noteq> CHR ''@'') lines" "sv_info st = Some t" "listable os st"
  shows "\<exists>outs. interactive_mode os files st [] lines = Done outs \<and> length outs = asked lines \<and>
    (\<forall>i < length outs. prefix ''ECHO '' (cut_input (lines ! i)) \<longrightarrow> outs ! i = drop 5 (cut_input (lines ! i)) @ crlf)"
  using assms(4-)
proof (induction lines arbitrary: st)
  case (Cons l lines)
  then obtain shown rest st' where e: "exchange os st [] (cut_input l) = Done (shown, rest, st', cut_input l = ''QUIT'')"
    "cut_input l = ''QUIT'' \<or> rest = []" "st' = (if prefix ''CD '' (cut_input l) then cmd_cd os st (drop 3 (cut_input l)) else st)"
    "prefix ''ECHO '' (cut_input l) \<longrightarrow> shown = drop 5 (cut_input l) @ crlf"
    using exchange_in_step[of "cut_input l" st t os] assms(1,2) by auto
  show ?case
  proof (cases "cut_input l = ''QUIT''")
    case True
    then show ?thesis using e Cons(2) by simp
  next
    case False
    have "listable os st'" "sv_info st' = Some t" using e(3) Cons(3,4) assms(3) cmd_cd_info by auto
    then obtain outs where o: "interactive_mode os files st' [] lines = Done outs" "length outs = asked lines"
      "\<forall>i < length outs. prefix ''ECHO '' (cut_input (lines ! i)) \<longrightarrow> outs ! i = drop 5 (cut_input (lines ! i)) @ crlf"
      using Cons(1)[of st'] Cons(2) by auto
    have r: "interactive_mode os files st [] (l # lines) = Done (shown # outs)"
      using e(1,2) o(1) Cons(2) False by (simp add: Let_def)
    have "(shown # outs) ! i = drop 5 (cut_input ((l # lines) ! i)) @ crlf"
      if "i < length (shown # outs)" "prefix ''ECHO '' (cut_input ((l # lines) ! i))" for i
      using that e(4) o(3) by (cases i) simp_all
    then show ?thesis using r o(2) False by (intro exI[of _ "shown # outs"]) simp
  qed
qed simp


definition sample_os8 :: os8 where
  "sample_os8 = \<lparr>realpath8 = (\<lambda>p. None), readdir8 = (\<lambda>p. Some [''a.txt'']), lstat8 = (\<lambda>p. Some IsOther), readlink8 = (\<lambda>p. None), isreg8 = (\<lambda>p. True)\<rparr>"

lemma sample_info: "info_ok (''hello'' @ [newline])"
  unfolding info_ok_def by (intro conjI exI[of _ "[''hello'']"]) (simp_all add: not_blank_def c_string_def)


text \<open>
  Where client and server wait for each other: at the greeting when there is no info text
  (the server sends no empty line); after an empty command (the server ignores it); after LIST on
  something that is not a directory (the error text is sent without its newline); after INFO
  on a text that does not end with a newline. INFO without an info text reads past a literal.
\<close>

theorem session_hangs:
  "client_session os files (st\<lparr>sv_info := None\<rparr>) lines = Blocks \<and>
   exchange os st [] [] = Blocks \<and>
   exchange (os\<lparr>readdir8 := (\<lambda>p. None)\<rparr>) st [] ''LIST'' = Blocks \<and>
   exchange os (st\<lparr>sv_info := Some ''text''\<rparr>) [] ''INFO'' = Blocks \<and>
   exchange os (st\<lparr>sv_info := None\<rparr>) [] ''INFO'' = Faults"
proof (intro conjI)
  have none: "until_blank [] = Blocks" by (subst until_blank.simps) (simp add: sock_gets_def numeral_eq_Suc)
  have nul: "until_blank [NUL] = Blocks" by (subst until_blank.simps) (simp add: sock_gets_def numeral_eq_Suc)
  have one: "until_blank (l @ newline # r) = Blocks" if "short_line l" "not_blank l" "until_blank r = Blocks" for l r
    using sock_gets_line[OF that(1), of r] that by (subst until_blank.simps) (simp add: not_blank_def)
  have "until_blank ((''Welcome to myserver'' @ [CR]) @ newline # [NUL]) = Blocks"
    by (rule one) (simp_all add: short_line_def not_blank_def c_string_def nul)
  then show "client_session os files (st\<lparr>sv_info := None\<rparr>) lines = Blocks"
    by (simp add: client_session_def greeting_def send_lit_def has_info_def)
  show "exchange os st [] [] = Blocks"
    by (simp add: exchange_def serve_chunk_def first_line_def c_string_def client_read_def sock_gets_def numeral_eq_Suc)
  have "until_blank ((''(cannot open dir)'' @ [CR, CR]) @ newline # []) = Blocks"
    by (rule one) (simp_all add: short_line_def not_blank_def c_string_def none)
  then show "exchange (os\<lparr>readdir8 := (\<lambda>p. None)\<rparr>) st [] ''LIST'' = Blocks"
    by (simp add: exchange_def serve_chunk_def first_line_def c_string_def run_cmd_def cmd_list8_def send_lit_def client_read_def)
  have "until_blank ((''text'' @ [CR]) @ newline # []) = Blocks"
    by (rule one) (simp_all add: short_line_def not_blank_def c_string_def none)
  then show "exchange os (st\<lparr>sv_info := Some ''text''\<rparr>) [] ''INFO'' = Blocks"
    by (simp add: exchange_def serve_chunk_def first_line_def c_string_def run_cmd_def cmd_info_def has_info_def info_bytes_def client_read_def)
  show "exchange os (st\<lparr>sv_info := None\<rparr>) [] ''INFO'' = Faults"
    by (simp add: exchange_def serve_chunk_def first_line_def c_string_def run_cmd_def cmd_info_def has_info_def send_lit_def)
qed

end
