(* ===== verification/Net_Sessions.thy ===== *)
theory Net_Sessions
  imports Net_Client
begin

text \<open>
  lab08/src/server.c with any number of clients: the accept loop, one thread per client and the
  descriptors they share with the kernel. A thread knows its client only as a number; the table of
  open descriptors says which connection a \<open>send\<close> or \<open>recv\<close> on this number reaches. Descriptors
  are reused after \<open>close\<close>, connections are numbered in the order of \<open>accept\<close>.

  The threads run concurrently: every \<open>recv\<close> and every part of an answer is a step of its own. A
  \<open>send\<close> on a broken connection raises \<open>SIGPIPE\<close>, which the server does not handle.
\<close>

section \<open>Threads, connections and descriptors\<close>

text \<open>
  A thread waits in \<open>pthread_create\<close> with the integer \<open>p\<close>, is in \<open>recv\<close>, has bytes left to send
  (the flag says whether the loop goes on), or has closed its descriptor.
\<close>

datatype thread8 = Born nat | Talk int server8 | Sending int string server8 bool | Gone

text \<open>The kernel's view of a connection: what \<open>recv\<close> delivered and what \<open>send\<close> accepted.\<close>

record conn8 =
  got :: "string list"
  outb :: string
  broken :: bool

record net8 =
  n_pend :: pend8
  n_fails :: nat
  n_thr :: "thread8 list"
  n_conn :: "conn8 list"
  n_table :: "int \<rightharpoonup> nat"
  n_up :: bool

definition net_init :: net8 where
  "net_init = \<lparr>n_pend = pend_init, n_fails = 0, n_thr = [], n_conn = [], n_table = Map.empty, n_up = True\<rparr>"

definition thr8 :: "net8 \<Rightarrow> nat \<Rightarrow> thread8 \<Rightarrow> bool" where
  "thr8 s i x \<longleftrightarrow> n_up s \<and> i < length (n_thr s) \<and> n_thr s ! i = x"

definition goto8 :: "nat \<Rightarrow> thread8 \<Rightarrow> net8 \<Rightarrow> net8" where
  "goto8 i x s = s\<lparr>n_thr := (n_thr s)[i := x]\<rparr>"

definition upd_conn :: "nat \<Rightarrow> (conn8 \<Rightarrow> conn8) \<Rightarrow> net8 \<Rightarrow> net8" where
  "upd_conn j f s = s\<lparr>n_conn := (n_conn s)[j := f (n_conn s ! j)]\<rparr>"

definition server_accepts :: "nat \<Rightarrow> int \<Rightarrow> net8 \<Rightarrow> net8" where
  "server_accepts p fd s =
     s\<lparr>n_pend := (n_pend s)\<lparr>cells := (cells (n_pend s))(p \<mapsto> fd), preparing := None, due := insert p (due (n_pend s)),
         open_fds := insert fd (open_fds (n_pend s))\<rparr>,
       n_thr := n_thr s @ [Born p], n_conn := n_conn s @ [\<lparr>got = [], outb = [], broken = False\<rparr>],
       n_table := (n_table s)(fd \<mapsto> length (n_thr s))\<rparr>"

definition thread_takes :: "nat \<Rightarrow> nat list \<Rightarrow> net8 \<Rightarrow> net8" where
  "thread_takes p ns s =
     s\<lparr>n_pend := (n_pend s)\<lparr>cells := (cells (n_pend s))(p := None), nodes := ns, due := due (n_pend s) - {p}\<rparr>\<rparr>"

definition close_fd :: "int \<Rightarrow> net8 \<Rightarrow> net8" where
  "close_fd fd s = s\<lparr>n_pend := (n_pend s)\<lparr>open_fds := open_fds (n_pend s) - {fd}\<rparr>, n_table := (n_table s)(fd := None)\<rparr>"

definition server_dies :: "net8 \<Rightarrow> net8" where
  "server_dies s = s\<lparr>n_up := False\<rparr>"

inductive nstep :: "os8 \<Rightarrow> server8 \<Rightarrow> net8 \<Rightarrow> net8 \<Rightarrow> bool" for os st0 where
  loop: "n_up s \<Longrightarrow> pstep (n_pend s, n_fails s) (p', k') \<Longrightarrow> due p' = due (n_pend s) \<Longrightarrow> open_fds p' = open_fds (n_pend s) \<Longrightarrow>
    nstep os st0 s (s\<lparr>n_pend := p', n_fails := k'\<rparr>)"
| accepts: "n_up s \<Longrightarrow> preparing (n_pend s) = Some p \<Longrightarrow> 0 \<le> fd \<Longrightarrow> fd \<notin> open_fds (n_pend s) \<Longrightarrow>
    nstep os st0 s (server_accepts p fd s)"
| takes: "thr8 s i (Born p) \<Longrightarrow> cells (n_pend s) p = Some fd \<Longrightarrow> unlink_node (cells (n_pend s)) fd (nodes (n_pend s)) = Done ns \<Longrightarrow>
    greeting st0 = Done w \<Longrightarrow> nstep os st0 s (goto8 i (Sending fd w (st0\<lparr>curr_dir := []\<rparr>) True) (thread_takes p ns s))"
| takes_dangling: "thr8 s i (Born p) \<Longrightarrow> cells (n_pend s) p = Some fd \<Longrightarrow>
    unlink_node (cells (n_pend s)) fd (nodes (n_pend s)) = Faults \<Longrightarrow> nstep os st0 s (server_dies s)"
| sends: "thr8 s i (Sending fd (w @ rest) st go) \<Longrightarrow> w \<noteq> [] \<Longrightarrow> n_table s fd = Some j \<Longrightarrow> \<not> broken (n_conn s ! j) \<Longrightarrow>
    nstep os st0 s (goto8 i (Sending fd rest st go) (upd_conn j (\<lambda>c. c\<lparr>outb := outb c @ w\<rparr>) s))"
| sigpipe: "thr8 s i (Sending fd (w @ rest) st go) \<Longrightarrow> w \<noteq> [] \<Longrightarrow> n_table s fd = Some j \<Longrightarrow> broken (n_conn s ! j) \<Longrightarrow>
    nstep os st0 s (server_dies s)"
| sent: "thr8 s i (Sending fd [] st True) \<Longrightarrow> nstep os st0 s (goto8 i (Talk fd st) s)"
| receives: "thr8 s i (Talk fd st) \<Longrightarrow> n_table s fd = Some j \<Longrightarrow> chunk \<noteq> [] \<Longrightarrow> length chunk < MAXLINE \<Longrightarrow>
    serve_chunk os st chunk = Done (out, st', go) \<Longrightarrow>
    nstep os st0 s (goto8 i (Sending fd out st' go) (upd_conn j (\<lambda>c. c\<lparr>got := got c @ [chunk]\<rparr>) s))"
| overreads: "thr8 s i (Talk fd st) \<Longrightarrow> serve_chunk os st chunk = Faults \<Longrightarrow> nstep os st0 s (server_dies s)"
| hangs_up: "thr8 s i (Talk fd st) \<Longrightarrow> nstep os st0 s (goto8 i Gone (close_fd fd s))"
| quits: "thr8 s i (Sending fd [] st False) \<Longrightarrow> nstep os st0 s (goto8 i Gone (close_fd fd s))"
| breaks: "n_up s \<Longrightarrow> j < length (n_conn s) \<Longrightarrow> nstep os st0 s (upd_conn j (\<lambda>c. c\<lparr>broken := True\<rparr>) s)"
| interrupted: "n_up s \<Longrightarrow> nstep os st0 s (server_dies s)"

section \<open>The state of each thread determines the state of its connection\<close>

text \<open>The session has answered the chunks \<open>xs\<close> with \<open>out\<close> and goes on in state \<open>st\<close>.\<close>

definition goes_on :: "os8 \<Rightarrow> server8 \<Rightarrow> string list \<Rightarrow> string \<Rightarrow> server8 \<Rightarrow> bool" where
  "goes_on os st0 xs out st \<longleftrightarrow>
     (\<forall>ys. handle_client os st0 (xs @ ys) = obind (serve_loop os st ys) (\<lambda>(o', t). Done (out @ o', t)))"

lemma goes_on_done: "goes_on os st0 xs out st \<Longrightarrow> handle_client os st0 xs = Done (out, st)"
  unfolding goes_on_def by (drule spec[of _ "[]"]) simp

lemma goes_on_greeting: "greeting st0 = Done w \<Longrightarrow> goes_on os st0 [] w (st0\<lparr>curr_dir := []\<rparr>)"
  by (simp add: goes_on_def handle_client_def)

lemma goes_on_chunk:
  assumes "goes_on os st0 xs out st" "chunk \<noteq> []" "serve_chunk os st chunk = Done (w, st', go)"
  shows "if go then goes_on os st0 (xs @ [chunk]) (out @ w) st' else handle_client os st0 (xs @ [chunk]) = Done (out @ w, st')"
proof -
  have h: "handle_client os st0 (xs @ chunk # ys) = obind (serve_loop os st (chunk # ys)) (\<lambda>(o', t). Done (out @ o', t))" for ys
    using assms(1) by (simp add: goes_on_def)
  show ?thesis
  proof (cases go)
    case True
    then have "handle_client os st0 ((xs @ [chunk]) @ ys) = obind (serve_loop os st' ys) (\<lambda>(o', t). Done ((out @ w) @ o', t))" for ys
      using h[of ys] assms(2,3) by (cases "serve_loop os st' ys") auto
    then show ?thesis using True unfolding goes_on_def by simp
  next
    case False
    then show ?thesis using h[of "[]"] assms(2,3) by simp
  qed
qed

fun conn_ok :: "os8 \<Rightarrow> server8 \<Rightarrow> net8 \<Rightarrow> nat \<Rightarrow> thread8 \<Rightarrow> conn8 \<Rightarrow> bool" where
  "conn_ok os st0 s i (Born p) c \<longleftrightarrow>
     got c = [] \<and> outb c = [] \<and> p \<in> due (n_pend s) \<and> (\<exists>fd. cells (n_pend s) p = Some fd \<and> n_table s fd = Some i)"
| "conn_ok os st0 s i (Talk fd st) c \<longleftrightarrow> n_table s fd = Some i \<and> goes_on os st0 (got c) (outb c) st"
| "conn_ok os st0 s i (Sending fd rest st go) c \<longleftrightarrow> n_table s fd = Some i \<and>
     (if go then goes_on os st0 (got c) (outb c @ rest) st else handle_client os st0 (got c) = Done (outb c @ rest, st))"
| "conn_ok os st0 s i Gone c \<longleftrightarrow> (\<exists>st. handle_client os st0 (got c) = Done (outb c, st))"

definition net_ok :: "os8 \<Rightarrow> server8 \<Rightarrow> net8 \<Rightarrow> bool" where
  "net_ok os st0 s \<longleftrightarrow> length (n_conn s) = length (n_thr s) \<and> dom (n_table s) = open_fds (n_pend s) \<and>
     cells_ok (n_pend s) \<and> nodes_ok (n_pend s) (n_fails s) \<and>
     (\<forall>fd i. n_table s fd = Some i \<longrightarrow> i < length (n_thr s)) \<and>
     (\<forall>p \<in> due (n_pend s). \<exists>i < length (n_thr s). n_thr s ! i = Born p) \<and>
     (\<forall>i < length (n_thr s). conn_ok os st0 s i (n_thr s ! i) (n_conn s ! i))"


lemma net_okD:
  assumes "net_ok os st0 s"
  shows "length (n_conn s) = length (n_thr s)" "dom (n_table s) = open_fds (n_pend s)"
    "cells_ok (n_pend s)" "nodes_ok (n_pend s) (n_fails s)"
    "n_table s fd = Some i \<Longrightarrow> i < length (n_thr s)"
    "p \<in> due (n_pend s) \<Longrightarrow> \<exists>i < length (n_thr s). n_thr s ! i = Born p"
    "i < length (n_thr s) \<Longrightarrow> conn_ok os st0 s i (n_thr s ! i) (n_conn s ! i)"
  using assms unfolding net_ok_def by blast+

lemma conn_ok_keep:
  assumes "conn_ok os st0 s i x c" "\<And>fd. n_table s fd = Some i \<Longrightarrow> n_table t fd = Some i"
    and "\<And>p. x = Born p \<Longrightarrow> p \<in> due (n_pend s) \<Longrightarrow> p \<in> due (n_pend t) \<and> cells (n_pend t) p = cells (n_pend s) p"
  shows "conn_ok os st0 t i x c"
proof (cases x)
  case (Born p)
  then show ?thesis using assms(1,2) assms(3)[OF Born] by auto
qed (use assms(1,2) in auto)

lemma sel_simps [simp]:
  "n_pend (goto8 i x s) = n_pend s" "n_fails (goto8 i x s) = n_fails s" "n_conn (goto8 i x s) = n_conn s" "n_table (goto8 i x s) = n_table s"
  "n_thr (goto8 i x s) = (n_thr s)[i := x]" "n_up (goto8 i x s) = n_up s"
  "n_pend (upd_conn j f s) = n_pend s" "n_fails (upd_conn j f s) = n_fails s" "n_thr (upd_conn j f s) = n_thr s" "n_table (upd_conn j f s) = n_table s"
  "n_conn (upd_conn j f s) = (n_conn s)[j := f (n_conn s ! j)]" "n_up (upd_conn j f s) = n_up s"
  "n_thr (thread_takes p ns s) = n_thr s" "n_fails (thread_takes p ns s) = n_fails s" "n_conn (thread_takes p ns s) = n_conn s" "n_table (thread_takes p ns s) = n_table s"
  "n_thr (close_fd fd s) = n_thr s" "n_fails (close_fd fd s) = n_fails s" "n_conn (close_fd fd s) = n_conn s" "n_table (close_fd fd s) = (n_table s)(fd := None)"
  by (simp_all add: goto8_def upd_conn_def thread_takes_def close_fd_def)

text \<open>Steps that only move one thread on, with a new state of its own connection.\<close>

lemma own_step:
  assumes ok: "net_ok os st0 s" and i: "thr8 s i x" "\<And>p. x \<noteq> Born p"
    and new: "conn_ok os st0 s i y (f (n_conn s ! i))" "\<And>p. y \<noteq> Born p"
  shows "net_ok os st0 (goto8 i y (upd_conn i f s))"
proof -
  have il: "i < length (n_thr s)" "n_thr s ! i = x" using i(1) by (simp_all add: thr8_def)
  have keep: "conn_ok os st0 (goto8 i y (upd_conn i f s)) k z c" if "conn_ok os st0 s k z c" for k z c
    using that by (rule conn_ok_keep) simp_all
  have "conn_ok os st0 (goto8 i y (upd_conn i f s)) k ((n_thr s)[i := y] ! k) ((n_conn s)[i := f (n_conn s ! i)] ! k)"
    if "k < length (n_thr s)" for k
    using keep[OF new(1)] keep[OF net_okD(7)[OF ok that]] il(1) net_okD(1)[OF ok] by (cases "k = i") simp_all
  moreover have "\<exists>k < length (n_thr s). (n_thr s)[i := y] ! k = Born p" if p: "p \<in> due (n_pend s)" for p
  proof -
    obtain k where k: "k < length (n_thr s)" "n_thr s ! k = Born p" using net_okD(6)[OF ok p] by blast
    then have "k \<noteq> i" using il(2) i(2) by blast
    then show ?thesis using k by (intro exI[of _ k]) simp
  qed
  ultimately show ?thesis using net_okD(1-5)[OF ok] by (simp add: net_ok_def)
qed

lemma upd_conn_same: "j < length (n_conn s) \<Longrightarrow> upd_conn j (\<lambda>c. c) s = s"
  by (simp add: upd_conn_def)

lemma break_step: "net_ok os st0 s \<Longrightarrow> net_ok os st0 (upd_conn j (\<lambda>c. c\<lparr>broken := b\<rparr>) s)"
proof -
  assume ok: "net_ok os st0 s"
  have c: "conn_ok os st0 t k x (d\<lparr>broken := b\<rparr>) = conn_ok os st0 t k x d" for t k x d by (cases x) simp_all
  have keep: "conn_ok os st0 (upd_conn j g s) k z d" if "conn_ok os st0 s k z d" for k z d g
    using that by (rule conn_ok_keep) simp_all
  have "conn_ok os st0 (upd_conn j (\<lambda>c. c\<lparr>broken := b\<rparr>) s) k (n_thr s ! k) ((n_conn s)[j := (n_conn s ! j)\<lparr>broken := b\<rparr>] ! k)"
    if "k < length (n_thr s)" for k
    using keep[OF net_okD(7)[OF ok that]] c net_okD(1)[OF ok] that by (cases "k = j") simp_all
  then show ?thesis using net_okD(1-6)[OF ok] by (simp add: net_ok_def)
qed

lemma close_step:
  assumes ok: "net_ok os st0 s" and i: "thr8 s i x" "\<And>p. x \<noteq> Born p" "n_table s fd = Some i"
    and fin: "handle_client os st0 (got (n_conn s ! i)) = Done (outb (n_conn s ! i), st)"
  shows "net_ok os st0 (goto8 i Gone (close_fd fd s))"
proof -
  have il: "i < length (n_thr s)" "n_thr s ! i = x" using i(1) by (simp_all add: thr8_def)
  have born: "\<exists>k < length (n_thr s). k \<noteq> i \<and> n_thr s ! k = Born p \<and> (\<exists>v. cells (n_pend s) p = Some v \<and> n_table s v = Some k)"
    if p: "p \<in> due (n_pend s)" for p
  proof -
    obtain k where k: "k < length (n_thr s)" "n_thr s ! k = Born p" using net_okD(6)[OF ok p] by blast
    moreover have "k \<noteq> i" using k(2) il(2) i(2) by blast
    ultimately show ?thesis using net_okD(7)[OF ok k(1)] by auto
  qed
  have "fd \<notin> {v. \<exists>p \<in> due (n_pend s). cells (n_pend s) p = Some v}" using born i(3) by fastforce
  from ends_ok[OF net_okD(3,4)[OF ok] this]
  have pend: "cells_ok (n_pend (close_fd fd s))" "nodes_ok (n_pend (close_fd fd s)) (n_fails s)" by (simp_all add: close_fd_def)
  have keep: "conn_ok os st0 (goto8 i Gone (close_fd fd s)) k (n_thr s ! k) (n_conn s ! k)" if "k < length (n_thr s)" "k \<noteq> i" for k
    using net_okD(7)[OF ok that(1)] by (rule conn_ok_keep) (use that i(3) in \<open>auto simp: close_fd_def\<close>)
  have "conn_ok os st0 (goto8 i Gone (close_fd fd s)) k ((n_thr s)[i := Gone] ! k) (n_conn s ! k)" if "k < length (n_thr s)" for k
    using keep[OF that] fin il(1) by (cases "k = i") auto
  moreover have "\<exists>k < length (n_thr s). (n_thr s)[i := Gone] ! k = Born p" if "p \<in> due (n_pend (close_fd fd s))" for p
    using born[of p] that by (auto simp: close_fd_def)
  moreover have "dom ((n_table s)(fd := None)) = open_fds (n_pend (close_fd fd s))"
    using net_okD(2)[OF ok] by (auto simp: close_fd_def)
  ultimately show ?thesis using net_okD(1,5)[OF ok] pend by (simp add: net_ok_def split: if_splits)
qed

text \<open>Steps of the accept loop, and of a thread that takes over its descriptor.\<close>

lemma loop_keeps_cells:
  assumes "pstep (s, k) (t, j)" "due t = due s" "cells_ok s" "q \<in> due s"
  shows "cells t q = cells s q"
  using assms(1)
proof (cases rule: pstep.cases)
  case (prepare p)
  then have "q \<noteq> p" using assms(3,4) by (auto simp: cells_ok_def)
  then show ?thesis using prepare by simp
next
  case (accept_fails p)
  then have "q \<noteq> p" using assms(3,4) by (auto simp: cells_ok_def)
  then show ?thesis using accept_fails by simp
next
  case (create_fails p fd)
  then have "q \<noteq> p" using assms(3,4) by (auto simp: cells_ok_def)
  then show ?thesis using create_fails by simp
next
  case (accepted p fd)
  then show ?thesis using assms(2,3) by (auto simp: cells_ok_def)
next
  case (takes_over p fd ns)
  then show ?thesis using assms(2) by auto
qed simp

lemma loop_step:
  assumes ok: "net_ok os st0 s" and p: "pstep (n_pend s, n_fails s) (p', k')" "due p' = due (n_pend s)" "open_fds p' = open_fds (n_pend s)"
  shows "net_ok os st0 (s\<lparr>n_pend := p', n_fails := k'\<rparr>)"
proof -
  have "conn_ok os st0 (s\<lparr>n_pend := p', n_fails := k'\<rparr>) i (n_thr s ! i) (n_conn s ! i)" if "i < length (n_thr s)" for i
    using net_okD(7)[OF ok that] by (rule conn_ok_keep) (use loop_keeps_cells[OF p(1,2) net_okD(3)[OF ok]] p(2) in auto)
  then show ?thesis using net_okD(1,2,5,6)[OF ok] pstep_ok[OF p(1) net_okD(3,4)[OF ok]] p(2,3) by (simp add: net_ok_def)
qed

lemma accepts_step:
  assumes ok: "net_ok os st0 s" and p: "preparing (n_pend s) = Some p" "0 \<le> fd" "fd \<notin> open_fds (n_pend s)"
  shows "net_ok os st0 (server_accepts p fd s)"
proof -
  let ?t = "server_accepts p fd s"
  have free: "n_table s fd = None" using net_okD(2)[OF ok] p(3) by auto
  have new: "p \<notin> due (n_pend s)" using net_okD(3)[OF ok] p(1) by (simp add: cells_ok_def)
  have t: "n_thr ?t = n_thr s @ [Born p]" "n_conn ?t = n_conn s @ [\<lparr>got = [], outb = [], broken = False\<rparr>]"
    "n_table ?t = (n_table s)(fd \<mapsto> length (n_thr s))" "due (n_pend ?t) = insert p (due (n_pend s))"
    "cells (n_pend ?t) = (cells (n_pend s))(p \<mapsto> fd)" "open_fds (n_pend ?t) = insert fd (open_fds (n_pend s))" "n_fails ?t = n_fails s"
    by (simp_all add: server_accepts_def)
  have pend: "cells_ok (n_pend ?t)" "nodes_ok (n_pend ?t) (n_fails ?t)"
    using accepted_ok[OF net_okD(3,4)[OF ok] p] by (simp_all add: server_accepts_def)
  have "conn_ok os st0 ?t i (n_thr ?t ! i) (n_conn ?t ! i)" if "i < length (n_thr ?t)" for i
  proof (cases "i < length (n_thr s)")
    case True
    have "conn_ok os st0 ?t i (n_thr s ! i) (n_conn s ! i)"
      using net_okD(7)[OF ok True] by (rule conn_ok_keep) (use free new t in auto)
    then show ?thesis using True net_okD(1)[OF ok] t by (simp add: nth_append)
  next
    case False
    then have "i = length (n_thr s)" using that t by simp
    then show ?thesis using t net_okD(1)[OF ok] by (simp add: nth_append)
  qed
  moreover have "\<exists>i < length (n_thr ?t). n_thr ?t ! i = Born q" if q: "q \<in> due (n_pend ?t)" for q
  proof (cases "q = p")
    case True
    then show ?thesis using t by (intro exI[of _ "length (n_thr s)"]) simp
  next
    case False
    then obtain i where "i < length (n_thr s)" "n_thr s ! i = Born q" using net_okD(6)[OF ok, of q] q t by auto
    then show ?thesis using t by (intro exI[of _ i]) (simp add: nth_append)
  qed
  moreover have "dom (n_table ?t) = open_fds (n_pend ?t)" using net_okD(2)[OF ok] t by auto
  moreover have "i < length (n_thr ?t)" if "n_table ?t v = Some i" for v i
    using that t net_okD(5)[OF ok, of v i] by (auto split: if_splits)
  moreover have "length (n_conn ?t) = length (n_thr ?t)" using net_okD(1)[OF ok] t by simp
  ultimately show ?thesis using pend unfolding net_ok_def by blast
qed

lemma takes_step:
  assumes ok: "net_ok os st0 s" and i: "thr8 s i (Born p)" "cells (n_pend s) p = Some fd"
    and u: "unlink_node (cells (n_pend s)) fd (nodes (n_pend s)) = Done ns" and w: "greeting st0 = Done w"
  shows "net_ok os st0 (goto8 i (Sending fd w (st0\<lparr>curr_dir := []\<rparr>) True) (thread_takes p ns s))"
proof -
  let ?y = "Sending fd w (st0\<lparr>curr_dir := []\<rparr>) True" and ?t = "thread_takes p ns s"
  have il: "i < length (n_thr s)" "n_thr s ! i = Born p" using i(1) by (simp_all add: thr8_def)
  have b: "got (n_conn s ! i) = []" "outb (n_conn s ! i) = []" "p \<in> due (n_pend s)" "n_table s fd = Some i"
    using net_okD(7)[OF ok il(1)] il(2) i(2) by auto
  have pend: "cells_ok (n_pend ?t)" "nodes_ok (n_pend ?t) (n_fails s)"
    using takes_over_ok[OF net_okD(3,4)[OF ok] b(3) i(2) u] by (simp_all add: thread_takes_def)
  have other: "n_thr s ! k \<noteq> Born p" if "k < length (n_thr s)" "k \<noteq> i" for k
    using net_okD(7)[OF ok that(1)] i(2) b(4) that(2) by auto
  have "conn_ok os st0 (goto8 i ?y ?t) k ((n_thr s)[i := ?y] ! k) (n_conn s ! k)" if k: "k < length (n_thr s)" for k
  proof (cases "k = i")
    case True
    then show ?thesis using il b goes_on_greeting[OF w] by simp
  next
    case False
    have "conn_ok os st0 (goto8 i ?y ?t) k (n_thr s ! k) (n_conn s ! k)"
      using net_okD(7)[OF ok k] by (rule conn_ok_keep) (use other[OF k False] in \<open>auto simp: thread_takes_def\<close>)
    then show ?thesis using False by simp
  qed
  moreover have "\<exists>k < length (n_thr s). (n_thr s)[i := ?y] ! k = Born q" if q: "q \<in> due (n_pend ?t)" for q
  proof -
    have q': "q \<in> due (n_pend s)" "q \<noteq> p" using q by (simp_all add: thread_takes_def)
    obtain k where k: "k < length (n_thr s)" "n_thr s ! k = Born q" using net_okD(6)[OF ok q'(1)] by blast
    then have "k \<noteq> i" using il(2) q'(2) by auto
    then show ?thesis using k by (intro exI[of _ k]) simp
  qed
  moreover have "open_fds (n_pend ?t) = open_fds (n_pend s)" by (simp add: thread_takes_def)
  ultimately show ?thesis using net_okD(1,2,5)[OF ok] pend by (simp add: net_ok_def)
qed

lemma dies_step: "net_ok os st0 s \<Longrightarrow> net_ok os st0 (server_dies s)"
proof -
  assume ok: "net_ok os st0 s"
  have "conn_ok os st0 (server_dies s) i (n_thr s ! i) (n_conn s ! i)" if "i < length (n_thr s)" for i
    using net_okD(7)[OF ok that] by (rule conn_ok_keep) (simp_all add: server_dies_def)
  then show ?thesis using net_okD(1-6)[OF ok] by (simp add: net_ok_def server_dies_def)
qed

lemma nstep_ok:
  assumes "nstep os st0 s t" "net_ok os st0 s"
  shows "net_ok os st0 t"
  using assms(1)
proof (cases rule: nstep.cases)
  case (loop p' k')
  then show ?thesis using loop_step[OF assms(2)] by blast
next
  case (accepts p fd)
  then show ?thesis using accepts_step[OF assms(2)] by blast
next
  case (takes i p fd ns w)
  then show ?thesis using takes_step[OF assms(2)] by blast
next
  case (sends i fd w rest st go j)
  have c: "conn_ok os st0 s i (Sending fd (w @ rest) st go) (n_conn s ! i)"
    using net_okD(7)[OF assms(2)] sends(2) by (metis thr8_def)
  then have "j = i" using sends(4) by simp
  then show ?thesis
    using own_step[OF assms(2) sends(2), of "Sending fd rest st go" "\<lambda>c. c\<lparr>outb := outb c @ w\<rparr>"] c sends(1) by simp
next
  case (sent i fd st)
  have c: "conn_ok os st0 s i (Sending fd [] st True) (n_conn s ! i)" using net_okD(7)[OF assms(2)] sent(2) by (metis thr8_def)
  have "i < length (n_conn s)" using sent(2) net_okD(1)[OF assms(2)] by (simp add: thr8_def)
  then show ?thesis
    using own_step[OF assms(2) sent(2), of "Talk fd st" "\<lambda>c. c"] c sent(1) by (simp add: upd_conn_same)
next
  case (receives i fd st j chunk out st' go)
  have c: "conn_ok os st0 s i (Talk fd st) (n_conn s ! i)" using net_okD(7)[OF assms(2)] receives(2) by (metis thr8_def)
  then have j: "j = i" using receives(3) by simp
  have "goes_on os st0 (got (n_conn s ! i)) (outb (n_conn s ! i)) st" using c by simp
  from goes_on_chunk[OF this receives(4,6)] show ?thesis
    using own_step[OF assms(2) receives(2), of "Sending fd out st' go" "\<lambda>c. c\<lparr>got := got c @ [chunk]\<rparr>"] c receives(1) j by simp
next
  case (hangs_up i fd st)
  have "conn_ok os st0 s i (Talk fd st) (n_conn s ! i)" using net_okD(7)[OF assms(2)] hangs_up(2) by (metis thr8_def)
  then show ?thesis using close_step[OF assms(2) hangs_up(2)] goes_on_done hangs_up(1) by fastforce
next
  case (quits i fd st)
  have "conn_ok os st0 s i (Sending fd [] st False) (n_conn s ! i)" using net_okD(7)[OF assms(2)] quits(2) by (metis thr8_def)
  then show ?thesis using close_step[OF assms(2) quits(2)] quits(1) by fastforce
next
  case (breaks j)
  then show ?thesis using break_step[OF assms(2)] by blast
qed (use dies_step[OF assms(2)] in blast)+

lemma net_reach_ok: "(nstep os st0)\<^sup>*\<^sup>* net_init s \<Longrightarrow> net_ok os st0 s"
proof (induction rule: rtranclp_induct)
  case base
  then show ?case by (simp add: net_ok_def net_init_def cells_ok_def nodes_ok_def live8_def pend_init_def)
qed (rule nstep_ok)

text \<open>
  C32. The server keeps its clients apart. However the threads are interleaved, however TCP cuts the input and
  however descriptors are reused, at every moment each client has been sent a beginning of exactly
  the bytes \<open>handle_client\<close> sends a single client for the same input, the session (with
  its working directory) is the one of that client, and a thread that still uses its descriptor
  reaches its own client through it.
\<close>

theorem server_sessions_isolated:
  assumes "(nstep os st0)\<^sup>*\<^sup>* net_init s" "i < length (n_thr s)"
  shows "case n_thr s ! i of
      Born p \<Rightarrow> got (n_conn s ! i) = [] \<and> outb (n_conn s ! i) = []
    | Talk fd st \<Rightarrow> n_table s fd = Some i \<and> handle_client os st0 (got (n_conn s ! i)) = Done (outb (n_conn s ! i), st)
    | Sending fd rest st go \<Rightarrow> n_table s fd = Some i \<and> handle_client os st0 (got (n_conn s ! i)) = Done (outb (n_conn s ! i) @ rest, st)
    | Gone \<Rightarrow> \<exists>st. handle_client os st0 (got (n_conn s ! i)) = Done (outb (n_conn s ! i), st)"
  using net_okD(7)[OF net_reach_ok[OF assms(1)] assms(2)] goes_on_done
  by (cases "n_thr s ! i") (auto split: if_splits)

text \<open>A server with one client that has been greeted and has sent ECHO, and a second one that has just been accepted.\<close>

definition sample_server :: server8 where
  "sample_server = \<lparr>sv_root = ''/srv'', sv_info = None, curr_dir = []\<rparr>"

definition welcome8 :: string where
  "welcome8 = ''Welcome to myserver'' @ crlf @ [NUL]"

definition prepared :: "nat \<Rightarrow> net8 \<Rightarrow> net8" where
  "prepared p s = s\<lparr>n_pend := (n_pend s)\<lparr>cells := (cells (n_pend s))(p \<mapsto> -1), nodes := p # nodes (n_pend s), preparing := Some p\<rparr>, n_fails := n_fails s\<rparr>"

definition greeted :: net8 where
  "greeted = goto8 0 (Sending 4 welcome8 sample_server True) (thread_takes 7 [] (server_accepts 7 4 (prepared 7 net_init)))"

definition echoing :: net8 where
  "echoing = goto8 0 (Sending 4 (''hi'' @ crlf) sample_server True) (upd_conn 0 (\<lambda>c. c\<lparr>got := got c @ [''ECHO hi'' @ crlf]\<rparr>)
     (goto8 0 (Talk 4 sample_server) (goto8 0 (Sending 4 [] sample_server True) (upd_conn 0 (\<lambda>c. c\<lparr>outb := outb c @ welcome8\<rparr>) greeted))))"

lemma sample_greeting: "greeting sample_server = Done welcome8"
  by (simp add: greeting_def sample_server_def welcome8_def send_lit_def has_info_def)

lemma prepared_step: "n_up s \<Longrightarrow> preparing (n_pend s) = None \<Longrightarrow> cells (n_pend s) p = None \<Longrightarrow> nstep os st0 s (prepared p s)"
  unfolding prepared_def by (rule loop, assumption, rule prepare) simp_all

lemma greeted_reached: "(nstep os sample_server)\<^sup>*\<^sup>* net_init greeted"
proof -
  have "nstep os sample_server net_init (prepared 7 net_init)" by (rule prepared_step) (simp_all add: net_init_def pend_init_def)
  moreover have "nstep os sample_server (prepared 7 net_init) (server_accepts 7 4 (prepared 7 net_init))"
    by (rule accepts) (simp_all add: prepared_def net_init_def pend_init_def)
  moreover have "nstep os sample_server (server_accepts 7 4 (prepared 7 net_init)) greeted"
    using takes[of "server_accepts 7 4 (prepared 7 net_init)" 0 7 4 "[]" sample_server welcome8 os] sample_greeting
    by (simp add: thr8_def server_accepts_def prepared_def net_init_def pend_init_def greeted_def sample_server_def)
  ultimately show ?thesis by (meson converse_rtranclp_into_rtranclp rtranclp.rtrancl_refl)
qed

lemma greeted_facts:
  "n_up greeted" "n_thr greeted = [Sending 4 welcome8 sample_server True]" "n_conn greeted = [\<lparr>got = [], outb = [], broken = False\<rparr>]"
  "n_table greeted = [4 \<mapsto> 0]" "preparing (n_pend greeted) = None" "cells (n_pend greeted) = Map.empty"
  by (auto simp: greeted_def goto8_def thread_takes_def server_accepts_def prepared_def net_init_def pend_init_def)

lemma echoing_reached: "(nstep os sample_server)\<^sup>*\<^sup>* net_init echoing"
proof -
  let ?a = "goto8 0 (Sending 4 [] sample_server True) (upd_conn 0 (\<lambda>c. c\<lparr>outb := outb c @ welcome8\<rparr>) greeted)"
  let ?b = "goto8 0 (Talk 4 sample_server) ?a"
  have "nstep os sample_server greeted ?a"
    by (rule sends[of _ _ _ welcome8]) (simp_all add: thr8_def greeted_facts welcome8_def)
  moreover have "nstep os sample_server ?a ?b"
    by (rule sent) (simp add: thr8_def greeted_facts)
  moreover have "nstep os sample_server ?b echoing"
    unfolding echoing_def by (rule receives) (simp_all add: thr8_def greeted_facts serve_chunk_def first_line_def c_string_def run_cmd_def)
  ultimately show ?thesis using greeted_reached by (meson rtranclp.rtrancl_into_rtrancl)
qed

theorem server_sessions_isolated_witness:
  "\<exists>s. (nstep sample_os8 sample_server)\<^sup>*\<^sup>* net_init s \<and> length (n_thr s) = 2 \<and>
    handle_client sample_os8 sample_server [''ECHO hi'' @ crlf] = Done (outb (n_conn s ! 0) @ ''hi'' @ crlf, sample_server) \<and>
    outb (n_conn s ! 0) = welcome8 \<and> outb (n_conn s ! 1) = []"
proof -
  let ?s = "server_accepts 8 5 (prepared 8 echoing)"
  have e: "n_up echoing" "preparing (n_pend echoing) = None" "cells (n_pend echoing) = Map.empty"
    "n_thr echoing = [Sending 4 (''hi'' @ crlf) sample_server True]" "open_fds (n_pend echoing) = {4}"
    "n_conn echoing = [\<lparr>got = [''ECHO hi'' @ crlf], outb = welcome8, broken = False\<rparr>]"
    by (simp_all add: echoing_def greeted_facts)
      (simp add: greeted_def goto8_def thread_takes_def server_accepts_def prepared_def net_init_def pend_init_def)
  have "nstep sample_os8 sample_server echoing (prepared 8 echoing)" by (rule prepared_step) (simp_all add: e)
  moreover have "nstep sample_os8 sample_server (prepared 8 echoing) ?s" by (rule accepts) (simp_all add: prepared_def e)
  ultimately have r: "(nstep sample_os8 sample_server)\<^sup>*\<^sup>* net_init ?s"
    using echoing_reached by (meson rtranclp.rtrancl_into_rtrancl)
  have s: "n_thr ?s = [Sending 4 (''hi'' @ crlf) sample_server True, Born 8]"
    "n_conn ?s = [\<lparr>got = [''ECHO hi'' @ crlf], outb = welcome8, broken = False\<rparr>, \<lparr>got = [], outb = [], broken = False\<rparr>]"
    by (simp_all add: server_accepts_def prepared_def e)
  from server_sessions_isolated[OF r, of 0] r s show ?thesis by (intro exI[of _ ?s]) simp
qed

text \<open>
  One client can end the service for all: if it leaves while the server still has something to
  send it, the next \<open>send\<close> raises \<open>SIGPIPE\<close>, the process dies and no session ever continues.
\<close>

theorem broken_client_stops_server:
  assumes "(nstep os st0)\<^sup>*\<^sup>* net_init s" "thr8 s i (Sending fd rest st go)" "rest \<noteq> []"
  shows "\<exists>t. (nstep os st0)\<^sup>*\<^sup>* s t \<and> \<not> n_up t \<and> (\<forall>u. \<not> nstep os st0 t u)"
proof -
  have i: "n_up s" "i < length (n_thr s)" "n_thr s ! i = Sending fd rest st go" using assms(2) by (simp_all add: thr8_def)
  have ok: "net_ok os st0 s" by (rule net_reach_ok[OF assms(1)])
  have tab: "n_table s fd = Some i" "i < length (n_conn s)" using net_okD(1)[OF ok] net_okD(7)[OF ok i(2)] i(2,3) by simp_all
  let ?b = "upd_conn i (\<lambda>c. c\<lparr>broken := True\<rparr>) s"
  have "nstep os st0 s ?b" by (rule breaks[OF i(1) tab(2)])
  moreover have "nstep os st0 ?b (server_dies ?b)"
    by (rule sigpipe[of _ i fd rest "[]" st go i]) (use i tab assms(3) in \<open>simp_all add: thr8_def\<close>)
  moreover have "\<not> nstep os st0 (server_dies ?b) u" for u
    by (auto simp: thr8_def server_dies_def elim!: nstep.cases)
  ultimately show ?thesis by (intro exI[of _ "server_dies ?b"]) (auto simp: server_dies_def)
qed

theorem broken_client_stops_server_witness:
  "\<exists>t. (nstep sample_os8 sample_server)\<^sup>*\<^sup>* greeted t \<and> \<not> n_up t \<and> (\<forall>u. \<not> nstep sample_os8 sample_server t u)"
  by (rule broken_client_stops_server[OF greeted_reached, of 0 4 welcome8 sample_server True])
    (simp_all add: thr8_def greeted_facts welcome8_def)

text \<open>
  The server takes the first line of a chunk for the command: line ends before it are skipped (so it does not matter
  whether TCP delivers the end of the last line with the next one), and whatever follows it
  in the same chunk is lost.
\<close>

lemma one_command_per_chunk:
  assumes "cmd_ok cmd" "set pre \<subseteq> {CR, newline}"
  shows "serve_chunk os st (pre @ cmd @ crlf @ post) = run_cmd os st cmd"
proof -
  have c: "cmd \<noteq> []" "CR \<notin> set cmd" "newline \<notin> set cmd" "NUL \<notin> set cmd" using assms(1) by (auto simp: cmd_ok_def)
  have z: "NUL \<notin> set pre" using assms(2) by auto
  obtain x xs where x: "cmd = x # xs" by (cases cmd) (use c in auto)
  have "c_string (pre @ cmd @ crlf @ post) = pre @ cmd @ crlf @ c_string post"
    using c(4) z by (simp add: c_string_def takeWhile_append)
  moreover have "dropWhile (\<lambda>c. c = CR \<or> c = newline) (pre @ cmd @ crlf @ c_string post) = cmd @ crlf @ c_string post"
    using assms(2) c x by (subst dropWhile_append2) auto
  moreover have "takeWhile (\<lambda>c. c \<noteq> CR \<and> c \<noteq> newline) (cmd @ crlf @ c_string post) = cmd"
    using c by (subst takeWhile_append2) auto
  ultimately show ?thesis using c(1) by (simp add: serve_chunk_def first_line_def Let_def)
qed

end
