(* ===== verification/Net_Signals.thy ===== *)
theory Net_Signals
  imports Net_Sessions
begin

text \<open>
  lab08/src/server.c: \<open>SIGINT\<close>. The handler clears \<open>server_running\<close>, takes \<open>list_mutex\<close>, closes the pending
  descriptors (\<open>close_all\<close> of theory \<open>Net_Server\<close>) and calls \<open>exit\<close>; it never returns. The kernel gives the signal to any thread,
  at any point, also while the thread itself holds \<open>list_mutex\<close>.

  Thread 0 is \<open>main\<close> with the accept loop, the others run \<open>handle_client\<close>. A thread is inside or outside its
  section under \<open>list_mutex\<close>, or in the handler, on top of the point where the signal found it. The handler of
  lab08/src/client.c is at the end.
\<close>

section \<open>Threads, the mutex and the handler\<close>

datatype point8 = Outside | Inside
datatype gpc8 = At point8 | Handling point8 | Closing point8

record sig8 =
  list_mutex :: "nat option"
  server_running :: bool
  g_pcs :: "gpc8 list"
  g_exited :: bool

abbreviation pc8 :: "sig8 \<Rightarrow> nat \<Rightarrow> gpc8 \<Rightarrow> bool" where
  "pc8 s i x \<equiv> at_pc (g_pcs s) i x"

abbreviation jump8 :: "nat \<Rightarrow> gpc8 \<Rightarrow> sig8 \<Rightarrow> sig8" where
  "jump8 i x s \<equiv> s\<lparr>g_pcs := (g_pcs s)[i := x]\<rparr>"

text \<open>
  The mutex is not recursive: it is given only when nobody has it, also to the handler of the thread that has it.
  \<open>main\<close> leaves its loop when it finds the flag cleared; returning from it ends the process, like \<open>exit\<close>.
  The accept loop starts a thread for each client.
\<close>

inductive sstep8 :: "sig8 \<Rightarrow> sig8 \<Rightarrow> bool" where
  enters: "\<not> g_exited s \<Longrightarrow> pc8 s i (At Outside) \<Longrightarrow> list_mutex s = None \<Longrightarrow>
    sstep8 s (jump8 i (At Inside) (s\<lparr>list_mutex := Some i\<rparr>))"
| leaves: "\<not> g_exited s \<Longrightarrow> pc8 s i (At Inside) \<Longrightarrow> sstep8 s (jump8 i (At Outside) (s\<lparr>list_mutex := None\<rparr>))"
| starts: "\<not> g_exited s \<Longrightarrow> pc8 s 0 (At Outside) \<Longrightarrow> sstep8 s (s\<lparr>g_pcs := g_pcs s @ [At Outside]\<rparr>)"
| loop_ends: "\<not> g_exited s \<Longrightarrow> pc8 s 0 (At Outside) \<Longrightarrow> \<not> server_running s \<Longrightarrow> sstep8 s (s\<lparr>g_exited := True\<rparr>)"
| sigint: "\<not> g_exited s \<Longrightarrow> pc8 s i (At x) \<Longrightarrow> sstep8 s (jump8 i (Handling x) (s\<lparr>server_running := False\<rparr>))"
| handler_locks: "\<not> g_exited s \<Longrightarrow> pc8 s i (Handling x) \<Longrightarrow> list_mutex s = None \<Longrightarrow>
    sstep8 s (jump8 i (Closing x) (s\<lparr>list_mutex := Some i\<rparr>))"
| handler_exits: "\<not> g_exited s \<Longrightarrow> pc8 s i (Closing x) \<Longrightarrow> sstep8 s (s\<lparr>list_mutex := None, g_exited := True\<rparr>)"

inductive_cases sstep8E: "sstep8 s t"

definition sig8_start :: sig8 where
  "sig8_start = \<lparr>list_mutex = None, server_running = True, g_pcs = [At Outside], g_exited = False\<rparr>"

definition reachable8 :: "sig8 \<Rightarrow> bool" where
  "reachable8 s \<longleftrightarrow> sstep8\<^sup>*\<^sup>* sig8_start s"

section \<open>Who has the mutex\<close>

fun holds8 :: "gpc8 \<Rightarrow> bool" where
  "holds8 (At x) \<longleftrightarrow> x = Inside"
| "holds8 (Handling x) \<longleftrightarrow> x = Inside"
| "holds8 (Closing x) \<longleftrightarrow> True"

text \<open>The mutex belongs to the one thread that holds it, and the flag is cleared when a handler runs.\<close>

definition mutex8 :: "sig8 \<Rightarrow> bool" where
  "mutex8 s \<longleftrightarrow> (\<forall>i x. pc8 s i x \<longrightarrow> (holds8 x \<longleftrightarrow> list_mutex s = Some i)) \<and>
     (\<forall>i. list_mutex s = Some i \<longrightarrow> i < length (g_pcs s))"

lemma mutex8D: "mutex8 s \<Longrightarrow> pc8 s i x \<Longrightarrow> holds8 x \<longleftrightarrow> list_mutex s = Some i"
  by (simp add: mutex8_def)

lemma mutex8_jump:
  assumes "mutex8 s" "pc8 s i x" "g_pcs t = (g_pcs s)[i := y]"
    and "list_mutex t = (if holds8 y then Some i else if holds8 x then None else list_mutex s)"
    and "holds8 y \<Longrightarrow> holds8 x \<or> list_mutex s = None"
  shows "mutex8 t"
  unfolding mutex8_def
proof (intro conjI allI impI)
  have x: "holds8 x \<longleftrightarrow> list_mutex s = Some i" by (rule mutex8D[OF assms(1,2)])
  have i: "i < length (g_pcs s)" using assms(2) by (simp add: at_pc_def)
  show "holds8 z \<longleftrightarrow> list_mutex t = Some k" if z: "pc8 t k z" for k z
  proof (cases "k = i")
    case True
    then have "z = y" using z assms(2,3) by (simp add: at_pc_update)
    then show ?thesis using True assms(4) x by auto
  next
    case False
    then have "pc8 s k z" using z assms(2,3) by (simp add: at_pc_update)
    then have "holds8 z \<longleftrightarrow> list_mutex s = Some k" by (rule mutex8D[OF assms(1)])
    then show ?thesis using False assms(4,5) x by auto
  qed
  show "k < length (g_pcs t)" if "list_mutex t = Some k" for k
    using that assms(1,3,4) i by (auto simp: mutex8_def split: if_splits)
qed

lemma step8_mutex:
  assumes "sstep8 s t" "mutex8 s"
  shows "g_exited t \<or> mutex8 t"
  using assms(1)
proof (cases rule: sstep8.cases)
  case (enters i)
  then have "mutex8 t" by (intro mutex8_jump[OF assms(2) enters(3)]) auto
  then show ?thesis ..
next
  case (leaves i)
  then have "mutex8 t" by (intro mutex8_jump[OF assms(2) leaves(3)]) auto
  then show ?thesis ..
next
  case starts
  then have "mutex8 t" using assms(2) by (force simp: mutex8_def at_pc_snoc)
  then show ?thesis ..
next
  case (sigint i x)
  have "holds8 (At x) \<longleftrightarrow> list_mutex s = Some i" by (rule mutex8D[OF assms(2) sigint(3)])
  then have "mutex8 t" using sigint(1) by (intro mutex8_jump[OF assms(2) sigint(3)]) auto
  then show ?thesis ..
next
  case (handler_locks i x)
  then have "mutex8 t" by (intro mutex8_jump[OF assms(2) handler_locks(3)]) auto
  then show ?thesis ..
qed simp_all

lemma exited_stays: "sstep8 s t \<Longrightarrow> \<not> g_exited s"
  by (cases rule: sstep8.cases) simp_all

lemma reachable8_mutex: "reachable8 s \<Longrightarrow> g_exited s \<or> mutex8 s"
  unfolding reachable8_def
proof (induction rule: rtranclp_induct)
  case base
  then show ?case by (auto simp: mutex8_def sig8_start_def at_pc_def)
next
  case (step y z)
  then show ?case using step8_mutex exited_stays by blast
qed

section \<open>When the handler can finish\<close>

text \<open>
  \<open>main\<close> is in the handler, and some thread is in the handler on top of its own critical section. Nobody will ever
  unlock the mutex, and \<open>main\<close> never gets back to its loop.
\<close>

definition wedged8 :: "nat \<Rightarrow> sig8 \<Rightarrow> bool" where
  "wedged8 i s \<longleftrightarrow> \<not> g_exited s \<and> mutex8 s \<and> (\<exists>x. pc8 s 0 (Handling x)) \<and> pc8 s i (Handling Inside)"

lemma wedged8_owner: "wedged8 i s \<Longrightarrow> list_mutex s = Some i"
  using mutex8D[of s i "Handling Inside"] by (simp add: wedged8_def)

lemma wedged8_step:
  assumes "wedged8 i s" "sstep8 s t"
  shows "wedged8 i t"
proof -
  note own = wedged8_owner[OF assms(1)]
  obtain x where w: "\<not> g_exited s" "mutex8 s" "pc8 s 0 (Handling x)" "pc8 s i (Handling Inside)"
    using assms(1) by (auto simp: wedged8_def)
  have other: "j \<noteq> i \<and> j \<noteq> 0" if "pc8 s j (At y)" for j y using that w(3,4) by (metis at_pc_def gpc8.distinct(1))
  have only: "\<not> holds8 y" if "pc8 s j y" "j \<noteq> i" for j y using mutex8D[OF w(2) that(1)] own that(2) by simp
  show ?thesis
    using assms(2)
  proof (cases rule: sstep8.cases)
    case (leaves j)
    then show ?thesis using only[of j "At Inside"] other by auto
  next
    case starts
    then show ?thesis using other by blast
  next
    case loop_ends
    then show ?thesis using other by blast
  next
    case (sigint j y)
    then have "mutex8 t" using step8_mutex[OF assms(2) w(2)] w(1) by auto
    then show ?thesis using sigint other[of j y] w by (auto simp: wedged8_def at_pc_update)
  next
    case (handler_exits j y)
    then have "j \<noteq> i" using w(4) by (auto simp: at_pc_def)
    then show ?thesis using handler_exits only[of j "Closing y"] by simp
  qed (use own in simp_all)
qed

lemma wedged8_run: "sstep8\<^sup>*\<^sup>* s t \<Longrightarrow> wedged8 i s \<Longrightarrow> \<not> g_exited t"
proof -
  assume "sstep8\<^sup>*\<^sup>* s t" "wedged8 i s"
  then have "wedged8 i t" by (induction rule: rtranclp_induct) (auto intro: wedged8_step)
  then show ?thesis by (simp add: wedged8_def)
qed

lemma closing_exits: "\<not> g_exited s \<Longrightarrow> pc8 s i (Closing x) \<Longrightarrow> \<exists>t. sstep8\<^sup>*\<^sup>* s t \<and> g_exited t"
  using r_into_rtranclp[of sstep8, OF handler_exits[of s i x]] by fastforce

lemma free_exits:
  assumes "\<not> g_exited s" "pc8 s i (Handling x)" "list_mutex s = None"
  shows "\<exists>t. sstep8\<^sup>*\<^sup>* s t \<and> g_exited t"
proof -
  let ?u = "jump8 i (Closing x) (s\<lparr>list_mutex := Some i\<rparr>)"
  have "sstep8 s ?u" by (rule handler_locks[OF assms])
  moreover have "pc8 ?u i (Closing x)" using assms(2) by (simp add: at_pc_update)
  then obtain t where "sstep8\<^sup>*\<^sup>* ?u t" "g_exited t" using closing_exits[of ?u i x] assms(1) by auto
  ultimately show ?thesis by (meson converse_rtranclp_into_rtranclp)
qed

lemma owner_exits:
  assumes "\<not> g_exited s" "mutex8 s" "pc8 s 0 (Handling x)" "list_mutex s = Some j" "\<not> pc8 s j (Handling Inside)"
  shows "\<exists>t. sstep8\<^sup>*\<^sup>* s t \<and> g_exited t"
proof -
  have "j < length (g_pcs s)" using assms(2,4) by (simp add: mutex8_def)
  then have pj: "pc8 s j (g_pcs s ! j)" by (simp add: at_pc_def)
  have "holds8 (g_pcs s ! j)" using mutex8D[OF assms(2) pj] assms(4) by simp
  then consider "pc8 s j (At Inside)" | y where "pc8 s j (Closing y)"
    using pj assms(5) by (cases "g_pcs s ! j") auto
  then show ?thesis
  proof cases
    case 1
    let ?u = "jump8 j (At Outside) (s\<lparr>list_mutex := None\<rparr>)"
    have u: "sstep8 s ?u" by (rule leaves[OF assms(1) 1])
    have "j \<noteq> 0" using assms(3) 1 by (metis at_pc_def gpc8.distinct(1))
    then have "pc8 ?u 0 (Handling x)" using assms(3) 1 by (simp add: at_pc_update)
    then obtain t where "sstep8\<^sup>*\<^sup>* ?u t" "g_exited t" using free_exits[of ?u 0 x] assms(1) by auto
    then show ?thesis using u by (meson converse_rtranclp_into_rtranclp)
  next
    case 2
    then show ?thesis by (rule closing_exits[OF assms(1)])
  qed
qed

text \<open>
  C34. When Ctrl-C ends the server. Once \<open>main\<close> has been interrupted, the process can still end if and only if no
  thread was interrupted inside its critical section on the list of pending descriptors. If one was, its
  handler waits for the mutex the thread itself holds, and the server hangs for ever with
  its port closed.
\<close>

theorem sigint_exits_iff:
  assumes "reachable8 s" "\<not> g_exited s" "pc8 s 0 (Handling x)"
  shows "(\<exists>t. sstep8\<^sup>*\<^sup>* s t \<and> g_exited t) \<longleftrightarrow> (\<forall>i. \<not> pc8 s i (Handling Inside))"
proof
  have m: "mutex8 s" using reachable8_mutex[OF assms(1)] assms(2) by simp
  show "\<forall>i. \<not> pc8 s i (Handling Inside)" if "\<exists>t. sstep8\<^sup>*\<^sup>* s t \<and> g_exited t"
  proof (intro allI notI)
    fix i assume "pc8 s i (Handling Inside)"
    then have "wedged8 i s" using m assms(2,3) by (auto simp: wedged8_def)
    then show False using wedged8_run that by blast
  qed
  show "\<exists>t. sstep8\<^sup>*\<^sup>* s t \<and> g_exited t" if "\<forall>i. \<not> pc8 s i (Handling Inside)"
  proof (cases "list_mutex s")
    case None
    then show ?thesis by (rule free_exits[OF assms(2,3)])
  next
    case (Some j)
    then show ?thesis using owner_exits[OF assms(2) m assms(3)] that by blast
  qed
qed

text \<open>The signal arrives between lock and unlock in the accept loop.\<close>

theorem sigint_exits_iff_witness:
  "\<exists>s. reachable8 s \<and> \<not> server_running s \<and> (\<nexists>t. sstep8\<^sup>*\<^sup>* s t \<and> g_exited t)"
proof -
  let ?a = "jump8 0 (At Inside) (sig8_start\<lparr>list_mutex := Some 0\<rparr>)"
  let ?b = "jump8 0 (Handling Inside) (?a\<lparr>server_running := False\<rparr>)"
  have "sstep8 sig8_start ?a" by (rule enters) (simp_all add: sig8_start_def at_pc_def)
  moreover have "sstep8 ?a ?b" by (rule sigint) (simp_all add: sig8_start_def at_pc_def)
  ultimately have r: "reachable8 ?b" unfolding reachable8_def by (meson r_into_rtranclp rtranclp.rtrancl_into_rtrancl)
  have b: "\<not> g_exited ?b" "pc8 ?b 0 (Handling Inside)" by (simp_all add: sig8_start_def at_pc_def)
  have "\<nexists>t. sstep8\<^sup>*\<^sup>* ?b t \<and> g_exited t" using sigint_exits_iff[OF r b] b(2) by blast
  then show ?thesis using r by (intro exI[of _ ?b]) simp
qed

section \<open>The client\<close>

text \<open>
  lab08/src/client.c: \<open>handle_sigint\<close>. Before the connection has its stream, or in a second handler, nothing happens;
  otherwise the client sends its last line and ends without waiting for an answer.
\<close>

definition client_sigint :: "bool \<Rightarrow> bool \<Rightarrow> string option" where
  "client_sigint connected sigint_received =
     (if connected \<and> \<not> sigint_received then Some (''QUIT'' @ crlf) else None)"

text \<open>
  The session ends when the line arrives on its own. Behind a command the server has not read yet it is
  lost like any second line of a chunk; then the session goes on until the server sees the closed socket.
\<close>

lemma client_sigint_ends_session:
  "serve_loop os st (the (client_sigint True False) # chunks) = Done (''BYE'' @ crlf @ [NUL], st)"
  using one_command_per_chunk[of "''QUIT''" "[]" os st "[]"]
  by (simp add: client_sigint_def cmd_ok_def run_cmd_def send_lit_def)

lemma client_sigint_lost:
  "cmd_ok cmd \<Longrightarrow> serve_loop os st ((cmd @ crlf @ the (client_sigint True False)) # chunks) = serve_loop os st ((cmd @ crlf) # chunks)"
  using one_command_per_chunk[of cmd "[]" os st "''QUIT'' @ crlf"] one_command_per_chunk[of cmd "[]" os st "[]"]
  by (simp add: client_sigint_def)

end
