(* ===== verification/Dirwalk.thy ===== *)
theory Dirwalk
  imports C_Strings
begin

text \<open>
  lab01: dirwalk, the recursive listing of a directory (dirwalkFunc.c) and its command line
  (mainDirwalk.c). \<open>scandir\<close> (with and without sorting) and \<open>lstat\<close> are parameters; the recursion
  is bounded by fuel, and \<open>None\<close> means that the fuel did not suffice.

  The specification is a tree of named nodes: if \<open>scandir\<close> and \<open>lstat\<close> describe the tree, the program
  prints exactly the paths of the nodes the options ask for, in preorder, and fuel of the
  tree's height is enough.
\<close>

section \<open>The program\<close>

datatype kind1 = Lnk | Directory | Reg | OtherKind

record os1 =
  scandir1 :: "bool \<Rightarrow> string \<Rightarrow> string list option"
  lstat1 :: "string \<Rightarrow> kind1 option"

record options =
  show_links :: bool
  show_dirs :: bool
  show_files :: bool
  sort_output :: bool

definition full_path :: "string \<Rightarrow> string \<Rightarrow> string" where
  "full_path path name =
     snprintf PATH_MAX
       (if path = ''.'' then ''./'' @ name
        else if path \<noteq> [] \<and> last path = slash then path @ name
        else path @ ''/'' @ name)"

definition wanted :: "options \<Rightarrow> bool \<Rightarrow> kind1 \<Rightarrow> bool" where
  "wanted opts flt k \<longleftrightarrow>
     (if flt then show_links opts \<and> k = Lnk \<or> show_dirs opts \<and> k = Directory \<or> show_files opts \<and> k = Reg else True)"

definition dot_name :: "string \<Rightarrow> bool" where
  "dot_name n \<longleftrightarrow> n = ''.'' \<or> n = ''..''"

function walk_directory :: "nat \<Rightarrow> os1 \<Rightarrow> options \<Rightarrow> bool \<Rightarrow> string \<Rightarrow> string list option"
  and walk_entries :: "nat \<Rightarrow> os1 \<Rightarrow> options \<Rightarrow> bool \<Rightarrow> string \<Rightarrow> string list \<Rightarrow> string list option" where
  "walk_directory 0 os opts flt path = None"
| "walk_directory (Suc k) os opts flt path =
     (case scandir1 os (sort_output opts) path of
        None \<Rightarrow> Some []
      | Some names \<Rightarrow> walk_entries k os opts flt path names)"
| "walk_entries k os opts flt path [] = Some []"
| "walk_entries k os opts flt path (name # names) =
     (if dot_name name then walk_entries k os opts flt path names
      else case lstat1 os (full_path path name) of
             None \<Rightarrow> walk_entries k os opts flt path names
           | Some kd \<Rightarrow>
               (case (if kd = Directory then walk_directory k os opts flt (full_path path name) else Some []) of
                  None \<Rightarrow> None
                | Some below \<Rightarrow>
                    (case walk_entries k os opts flt path names of
                       None \<Rightarrow> None
                     | Some rest \<Rightarrow> Some ((if wanted opts flt kd then [full_path path name] else []) @ below @ rest))))"
  by pat_completeness auto
termination
  by (relation "measures [\<lambda>x. case x of Inl (k, _) \<Rightarrow> 2 * k | Inr (k, _) \<Rightarrow> Suc (2 * k),
    \<lambda>x. case x of Inl _ \<Rightarrow> 0 | Inr (_, _, _, _, _, ns) \<Rightarrow> length ns]") auto

text \<open>The options of one argument, and the loop over all of them; \<open>None\<close> is the usage message.\<close>

fun parse_flags :: "string \<Rightarrow> options \<times> bool \<Rightarrow> (options \<times> bool) option" where
  "parse_flags [] st = Some st"
| "parse_flags (c # cs) (opts, flt) =
     (if c = CHR ''l'' then parse_flags cs (opts\<lparr>show_links := True\<rparr>, True)
      else if c = CHR ''d'' then parse_flags cs (opts\<lparr>show_dirs := True\<rparr>, True)
      else if c = CHR ''f'' then parse_flags cs (opts\<lparr>show_files := True\<rparr>, True)
      else if c = CHR ''s'' then parse_flags cs (opts\<lparr>sort_output := True\<rparr>, flt)
      else None)"

fun parse_args :: "string list \<Rightarrow> options \<times> bool \<Rightarrow> string \<Rightarrow> (options \<times> bool \<times> string) option" where
  "parse_args [] (opts, flt) path = Some (opts, flt, path)"
| "parse_args (arg # args) st path =
     (if arg \<noteq> [] \<and> hd arg = CHR ''-''
      then (case parse_flags (tl arg) st of None \<Rightarrow> None | Some st' \<Rightarrow> parse_args args st' path)
      else parse_args args st arg)"

abbreviation no_options :: options where
  "no_options \<equiv> \<lparr>show_links = False, show_dirs = False, show_files = False, sort_output = False\<rparr>"

text \<open>\<open>main\<close>: the exit status and what is printed.\<close>

definition main1 :: "nat \<Rightarrow> os1 \<Rightarrow> string list \<Rightarrow> (int \<times> string list) option" where
  "main1 fuel os args =
     (case parse_args args (no_options, False) ''.'' of
        None \<Rightarrow> Some (1, [])
      | Some (opts, flt, path) \<Rightarrow>
          (case walk_directory fuel os opts flt path of
             None \<Rightarrow> None
           | Some out \<Rightarrow> Some (0, (if show_dirs opts \<or> \<not> flt then [path] else []) @ out)))"

section \<open>The tree\<close>

datatype ftree = LinkT | FileT | OtherT | DirT "(string \<times> ftree) list"

fun kind_of :: "ftree \<Rightarrow> kind1" where
  "kind_of LinkT = Lnk" | "kind_of FileT = Reg" | "kind_of OtherT = OtherKind" | "kind_of (DirT es) = Directory"

abbreviation entries_size :: "(string \<times> ftree) list \<Rightarrow> nat" where
  "entries_size es \<equiv> size_list (size_prod (\<lambda>_. 0) size) es"

text \<open>All nodes below a directory with their kinds, in preorder.\<close>

function nodes_below :: "string \<Rightarrow> (string \<times> ftree) list \<Rightarrow> (string \<times> kind1) list" where
  "nodes_below path [] = []"
| "nodes_below path ((n, t) # es) =
     (full_path path n, kind_of t) #
     (case t of DirT sub \<Rightarrow> nodes_below (full_path path n) sub | _ \<Rightarrow> []) @ nodes_below path es"
  by pat_completeness auto
termination
  by (relation "measure (\<lambda>(p, es). entries_size es)") auto

function tree_height :: "(string \<times> ftree) list \<Rightarrow> nat" where
  "tree_height [] = 1"
| "tree_height ((n, t) # es) = max (case t of DirT sub \<Rightarrow> Suc (tree_height sub) | _ \<Rightarrow> 1) (tree_height es)"
  by pat_completeness auto
termination
  by (relation "measure entries_size") auto

text \<open>The system calls describe these entries of the directory \<open>path\<close>, and everything below.\<close>

function entries_at :: "os1 \<Rightarrow> bool \<Rightarrow> string \<Rightarrow> (string \<times> ftree) list \<Rightarrow> bool" where
  "entries_at os srt path [] = True"
| "entries_at os srt path ((n, t) # es) =
     (lstat1 os (full_path path n) = Some (kind_of t) \<and> \<not> dot_name n \<and>
      (case t of
         DirT sub \<Rightarrow> (case scandir1 os srt (full_path path n) of None \<Rightarrow> False | Some names \<Rightarrow> filter (\<lambda>n. \<not> dot_name n) names = map fst sub) \<and>
           entries_at os srt (full_path path n) sub
       | _ \<Rightarrow> True) \<and> entries_at os srt path es)"
  by pat_completeness auto
termination
  by (relation "measure (\<lambda>(os, srt, p, es). entries_size es)") auto

lemma tree_height_pos: "0 < tree_height es"
  by (induction es rule: tree_height.induct) auto

lemma walk_dots:
  "walk_entries k os opts flt path names = walk_entries k os opts flt path (filter (\<lambda>n. \<not> dot_name n) names)"
  by (induction names) (auto split: option.splits)

lemma walk_entries_ok:
  assumes "entries_at os (sort_output opts) path es" "tree_height es \<le> Suc k"
  shows "walk_entries k os opts flt path (map fst es) = Some (map fst (filter (\<lambda>x. wanted opts flt (snd x)) (nodes_below path es)))"
  using assms
proof (induction path es arbitrary: k rule: nodes_below.induct)
  case (2 path n t es)
  have rest: "walk_entries k os opts flt path (map fst es) = Some (map fst (filter (\<lambda>x. wanted opts flt (snd x)) (nodes_below path es)))"
    using "2.IH"(2)[of k] "2.prems" by simp
  show ?case
  proof (cases t)
    case (DirT sub)
    obtain names where nm: "scandir1 os (sort_output opts) (full_path path n) = Some names" "filter (\<lambda>n. \<not> dot_name n) names = map fst sub"
      "entries_at os (sort_output opts) (full_path path n) sub"
      using "2.prems"(1) DirT by (auto split: option.splits)
    obtain k' where k: "k = Suc k'" "tree_height sub \<le> Suc k'"
      using "2.prems"(2) DirT tree_height_pos[of sub] by (cases k) auto
    have "walk_directory k os opts flt (full_path path n) =
        Some (map fst (filter (\<lambda>x. wanted opts flt (snd x)) (nodes_below (full_path path n) sub)))"
      using "2.IH"(1)[OF DirT nm(3) k(2)] nm(1,2) k(1) walk_dots[of k' os opts flt "full_path path n" names] by simp
    then show ?thesis using rest DirT "2.prems"(1) by simp
  qed (use rest "2.prems"(1) in simp_all)
qed simp

text \<open>With fuel of at least the height of the tree the walk ends and gives the wanted nodes in preorder.\<close>

lemma walk_directory_ok:
  assumes "scandir1 os (sort_output opts) path = Some names" "filter (\<lambda>n. \<not> dot_name n) names = map fst es"
    and "entries_at os (sort_output opts) path es" "tree_height es \<le> fuel"
  shows "walk_directory fuel os opts flt path = Some (map fst (filter (\<lambda>x. wanted opts flt (snd x)) (nodes_below path es)))"
proof -
  obtain k where "fuel = Suc k" using assms(4) tree_height_pos[of es] by (cases fuel) auto
  then show ?thesis
    using walk_entries_ok[OF assms(3), of k flt] assms walk_dots[of k os opts flt path names] by simp
qed

section \<open>The command line\<close>

lemma parse_flags_spec:
  assumes "set cs \<subseteq> {CHR ''l'', CHR ''d'', CHR ''f'', CHR ''s''}"
  shows "parse_flags cs (opts, flt) = Some (\<lparr>show_links = show_links opts \<or> CHR ''l'' \<in> set cs, show_dirs = show_dirs opts \<or> CHR ''d'' \<in> set cs,
    show_files = show_files opts \<or> CHR ''f'' \<in> set cs, sort_output = sort_output opts \<or> CHR ''s'' \<in> set cs, \<dots> = options.more opts\<rparr>,
    flt \<or> set cs \<inter> {CHR ''l'', CHR ''d'', CHR ''f''} \<noteq> {})"
  using assms by (induction cs arbitrary: opts flt) auto

lemma parse_flags_usage: "\<not> set cs \<subseteq> {CHR ''l'', CHR ''d'', CHR ''f'', CHR ''s''} \<Longrightarrow> parse_flags cs st = None"
  by (induction cs st rule: parse_flags.induct) (simp_all split: if_splits, blast)

lemma parse_flags_append:
  "parse_flags (a @ b) st = (case parse_flags a st of None \<Rightarrow> None | Some st' \<Rightarrow> parse_flags b st')"
  by (induction a st rule: parse_flags.induct) auto

definition is_option :: "string \<Rightarrow> bool" where
  "is_option arg \<longleftrightarrow> arg \<noteq> [] \<and> hd arg = CHR ''-''"

definition letters :: "string list \<Rightarrow> string" where
  "letters args = concat (map tl (filter is_option args))"

definition dirs_of :: "string list \<Rightarrow> string list" where
  "dirs_of args = filter (\<lambda>a. \<not> is_option a) args"

lemma parse_args_flags:
  "parse_args args st path =
    (case parse_flags (letters args) st of None \<Rightarrow> None | Some (opts, flt) \<Rightarrow> Some (opts, flt, last (path # dirs_of args)))"
proof (induction args arbitrary: st path)
  case Nil
  then show ?case by (cases st) (simp add: letters_def dirs_of_def)
next
  case (Cons arg args)
  show ?case
  proof (cases "is_option arg")
    case True
    then have "letters (arg # args) = tl arg @ letters args" "dirs_of (arg # args) = dirs_of args"
      by (simp_all add: letters_def dirs_of_def)
    then show ?thesis using True Cons.IH by (simp add: parse_flags_append is_option_def split: option.splits)
  next
    case False
    then have "letters (arg # args) = letters args" "dirs_of (arg # args) = arg # dirs_of args"
      by (simp_all add: letters_def dirs_of_def)
    moreover have "parse_args (arg # args) st path = parse_args args st arg" using False by (auto simp: is_option_def)
    ultimately show ?thesis using Cons.IH[of st arg] by (simp only: last.simps list.distinct if_False)
  qed
qed

lemma parse_args_spec:
  "parse_args args (no_options, False) ''.'' =
    (if set (letters args) \<subseteq> {CHR ''l'', CHR ''d'', CHR ''f'', CHR ''s''}
     then Some (\<lparr>show_links = CHR ''l'' \<in> set (letters args), show_dirs = CHR ''d'' \<in> set (letters args),
         show_files = CHR ''f'' \<in> set (letters args), sort_output = CHR ''s'' \<in> set (letters args)\<rparr>,
       set (letters args) \<inter> {CHR ''l'', CHR ''d'', CHR ''f''} \<noteq> {}, last (''.'' # dirs_of args))
     else None)"
  using parse_flags_spec[of "letters args" no_options False] parse_flags_usage[of "letters args" "(no_options, False)"]
  by (simp add: parse_args_flags)

text \<open>
  The command line: options may stand before or after the directory and be combined or repeated
  in any way; only which letters occur counts. The last argument that is not an option is the
  directory, the current one if there is none, and a letter other than l, d, f, s ends the
  program with the usage message. A type option switches the filter on; -s alone does not.
\<close>

theorem dirwalk_options:
  "parse_args args (no_options, False) ''.'' =
    (if set (letters args) \<subseteq> {CHR ''l'', CHR ''d'', CHR ''f'', CHR ''s''}
     then Some (\<lparr>show_links = CHR ''l'' \<in> set (letters args), show_dirs = CHR ''d'' \<in> set (letters args),
         show_files = CHR ''f'' \<in> set (letters args), sort_output = CHR ''s'' \<in> set (letters args)\<rparr>,
       set (letters args) \<inter> {CHR ''l'', CHR ''d'', CHR ''f''} \<noteq> {}, last (''.'' # dirs_of args))
     else None)"
  by (rule parse_args_spec)

section \<open>The whole program\<close>

text \<open>Whether the letters ask for a node of this type.\<close>

definition asked_for :: "string \<Rightarrow> kind1 \<Rightarrow> bool" where
  "asked_for ls k \<longleftrightarrow> set ls \<inter> {CHR ''l'', CHR ''d'', CHR ''f''} = {} \<or>
     k = Lnk \<and> CHR ''l'' \<in> set ls \<or> k = Directory \<and> CHR ''d'' \<in> set ls \<or> k = Reg \<and> CHR ''f'' \<in> set ls"

text \<open>
  C25. dirwalk lists the tree. If all option letters are known and the system calls describe the tree below
  the directory named last (the current one if none is named), then with fuel of at least the
  height of the tree the program ends with status 0 and prints, in preorder and starting with the
  directory itself, exactly the paths of the nodes whose type the letters ask for, or of all nodes
  if they name no type; links are not followed.
\<close>

theorem dirwalk_lists_tree:
  assumes "set (letters args) \<subseteq> {CHR ''l'', CHR ''d'', CHR ''f'', CHR ''s''}"
    and "scandir1 os (CHR ''s'' \<in> set (letters args)) (last (''.'' # dirs_of args)) = Some names"
    and "filter (\<lambda>n. \<not> dot_name n) names = map fst es"
    and "entries_at os (CHR ''s'' \<in> set (letters args)) (last (''.'' # dirs_of args)) es" "tree_height es \<le> fuel"
  shows "main1 fuel os args = Some (0, map fst (filter (\<lambda>x. asked_for (letters args) (snd x))
    ((last (''.'' # dirs_of args), Directory) # nodes_below (last (''.'' # dirs_of args)) es)))"
proof -
  let ?opts = "\<lparr>show_links = CHR ''l'' \<in> set (letters args), show_dirs = CHR ''d'' \<in> set (letters args),
    show_files = CHR ''f'' \<in> set (letters args), sort_output = CHR ''s'' \<in> set (letters args)\<rparr>"
  let ?flt = "set (letters args) \<inter> {CHR ''l'', CHR ''d'', CHR ''f''} \<noteq> {}"
  have w: "wanted ?opts ?flt k \<longleftrightarrow> asked_for (letters args) k" for k by (auto simp: wanted_def asked_for_def)
  then have top: "show_dirs ?opts \<or> \<not> ?flt \<longleftrightarrow> asked_for (letters args) Directory" by (auto simp: asked_for_def)
  have "walk_directory fuel os ?opts ?flt (last (''.'' # dirs_of args)) =
      Some (map fst (filter (\<lambda>x. asked_for (letters args) (snd x)) (nodes_below (last (''.'' # dirs_of args)) es)))"
    using walk_directory_ok[of os ?opts "last (''.'' # dirs_of args)" names es fuel ?flt] assms(2-5) unfolding w by simp
  then show ?thesis unfolding main1_def parse_args_spec using assms(1) top by (simp del: last.simps)
qed

definition sample_os1 :: os1 where
  "sample_os1 = \<lparr>scandir1 = (\<lambda>srt. [''.'' \<mapsto> [''.'', ''..'', ''a'', ''b''], ''./b'' \<mapsto> [''c'']]),
     lstat1 = [''./a'' \<mapsto> Lnk, ''./b'' \<mapsto> Directory, ''./b/c'' \<mapsto> Reg]\<rparr>"

theorem dirwalk_lists_tree_witness:
  "main1 2 sample_os1 [''.'', ''-lf''] = Some (0, [''./a'', ''./b/c''])"
  using dirwalk_lists_tree[of "[''.'', ''-lf'']" sample_os1 "[''.'', ''..'', ''a'', ''b'']" "[(''a'', LinkT), (''b'', DirT [(''c'', FileT)])]" 2]
  by (simp add: sample_os1_def dot_name_def full_path_def letters_def dirs_of_def is_option_def asked_for_def)

end
