(* ===== verification/Child_Env.thy ===== *)
theory Child_Env
  imports C_Strings "HOL-Library.Sublist"
begin

text \<open>
  lab02: parent.c builds an environment for its children from the names in env.txt and starts
  them; child.c prints what it was given. An environment is the list of its strings, as \<open>environ\<close>
  and \<open>envp\<close> are. Storing beyond the array of \<open>MAX_ENV_VARS\<close> pointers is a fault.
\<close>

section \<open>The environment\<close>

definition entry_for :: "string \<Rightarrow> string \<Rightarrow> bool" where
  "entry_for name e \<longleftrightarrow> prefix (name @ ''='') e"

fun getenv :: "string list \<Rightarrow> string \<Rightarrow> string option" where
  "getenv [] name = None"
| "getenv (e # es) name = (if entry_for name e then Some (drop (Suc (length name)) e) else getenv es name)"

text \<open>\<open>setenv(name, value, 1)\<close> replaces the entry or adds one.\<close>

fun setenv :: "string \<Rightarrow> string \<Rightarrow> string list \<Rightarrow> string list" where
  "setenv name v [] = [name @ ''='' @ v]"
| "setenv name v (e # es) = (if entry_for name e then (name @ ''='' @ v) # es else e # setenv name v es)"

section \<open>parent.c\<close>

definition MAX_ENV_VARS :: nat where
  "MAX_ENV_VARS = 100"

definition EvcCmp :: "string \<Rightarrow> string \<Rightarrow> int" where
  "EvcCmp s1 s2 = strcmp s1 s2"

definition PrintEnvSorted :: "string list \<Rightarrow> string list" where
  "PrintEnvSorted environ = qsort_cmp EvcCmp (take MAX_ENV_VARS environ)"

text \<open>The lines of env.txt as \<open>fgets\<close> with 256 bytes delivers them, cut at the end of the line.\<close>

function env_lines :: "string \<Rightarrow> string list" where
  "env_lines inp =
     (case fgets 256 inp of None \<Rightarrow> []
      | Some (l, r) \<Rightarrow> takeWhile (\<lambda>c. c \<noteq> CHR 0x0D \<and> c \<noteq> newline) (c_string l) # env_lines r)"
  by pat_completeness auto
termination
  by (relation "measure length") (auto dest!: fgets_split(3))

declare env_lines.simps [simp del]

definition value_of :: "string list \<Rightarrow> string \<Rightarrow> string" where
  "value_of environ name = (case getenv environ name of None \<Rightarrow> [] | Some v \<Rightarrow> v)"

text \<open>The loop over the lines: it stops when the array is full.\<close>

fun collect_env :: "string list \<Rightarrow> string list \<Rightarrow> string list \<Rightarrow> string list" where
  "collect_env environ [] acc = acc"
| "collect_env environ (line # lines) acc =
     (if length acc \<ge> MAX_ENV_VARS then acc
      else if line = [] then collect_env environ lines acc
      else collect_env environ lines (acc @ [line @ ''='' @ value_of environ line]))"

definition store_entry :: "string list \<Rightarrow> string \<Rightarrow> string list outcome" where
  "store_entry acc e = (if length acc < MAX_ENV_VARS then Done (acc @ [e]) else Faults)"

text \<open>\<open>None\<close>: there is no file env.txt. The terminating null pointer needs a place of the array, too.\<close>

definition CreateChildEnv :: "string list \<Rightarrow> string option \<Rightarrow> string list outcome" where
  "CreateChildEnv environ file =
     (case file of None \<Rightarrow> Exits
      | Some txt \<Rightarrow>
          obind (let acc = collect_env environ (env_lines txt) []
                 in case getenv environ ''CHILD_PATH'' of
                      Some v \<Rightarrow> store_entry acc (''CHILD_PATH='' @ v)
                    | None \<Rightarrow> Done acc) (\<lambda>acc.
          if length acc < MAX_ENV_VARS then Done acc else Faults))"

definition FindChildPath :: "char \<Rightarrow> string list \<Rightarrow> string list \<Rightarrow> string option" where
  "FindChildPath mode child_env environ =
     (if mode = CHR ''+'' then getenv environ ''CHILD_PATH''
      else if mode = CHR ''*'' then getenv child_env ''CHILD_PATH''
      else if mode = CHR ''&'' then getenv environ ''CHILD_PATH''
      else None)"

text \<open>What the child process executes: path, arguments, environment; \<open>None\<close> when it exits before.\<close>

definition StartChild2 :: "(string \<Rightarrow> bool) \<Rightarrow> string list \<Rightarrow> string list \<Rightarrow> char \<Rightarrow> nat \<Rightarrow> (string \<times> string list \<times> string list) option" where
  "StartChild2 executable environ child_env mode child_count =
     (case FindChildPath mode child_env environ of
        None \<Rightarrow> None
      | Some p \<Rightarrow>
          if executable p
          then Some (p, snprintf 16 (''child_'' @ dec02 child_count) # (if mode = CHR ''+'' then [''env''] else []), child_env)
          else None)"

text \<open>The command loop: the children started, with the running number of each.\<close>

fun parent_loop :: "(string \<Rightarrow> bool) \<Rightarrow> string list \<Rightarrow> string list \<Rightarrow> nat \<Rightarrow> string \<Rightarrow> (string \<times> string list \<times> string list) option list" where
  "parent_loop executable environ child_env nr [] = []"
| "parent_loop executable environ child_env nr (c # cs) =
     (if c = CHR ''q'' then []
      else if c = CHR ''+'' \<or> c = CHR ''*'' \<or> c = CHR ''&''
      then StartChild2 executable environ child_env c nr # parent_loop executable environ child_env (Suc nr) cs
      else parent_loop executable environ child_env nr cs)"

definition parent_environ :: "string option \<Rightarrow> string list \<Rightarrow> string list" where
  "parent_environ hostname environ =
     (let e = setenv ''LC_COLLATE'' ''C'' environ
      in if getenv e ''HOSTNAME'' = None
         then (case hostname of Some h \<Rightarrow> setenv ''HOSTNAME'' h e | None \<Rightarrow> e)
         else e)"

definition parent_main :: "(string \<Rightarrow> bool) \<Rightarrow> string option \<Rightarrow> string option \<Rightarrow> string list \<Rightarrow> string \<Rightarrow>
    (string list \<times> (string \<times> string list \<times> string list) option list) outcome" where
  "parent_main executable hostname file environ input =
     (let e = parent_environ hostname environ
      in obind (CreateChildEnv e file) (\<lambda>child_env.
         Done (PrintEnvSorted e, parent_loop executable e child_env 0 (filter (\<lambda>c. \<not> is_space c) input))))"

section \<open>child.c\<close>

definition child_main :: "string option \<Rightarrow> string list \<Rightarrow> string list \<Rightarrow> string list outcome" where
  "child_main file argv envp =
     (if length argv > 1 \<and> argv ! 1 = ''env''
      then (case file of None \<Rightarrow> Exits
            | Some txt \<Rightarrow> Done (map (\<lambda>l. l @ ''='' @ value_of envp l) (filter (\<lambda>l. l \<noteq> []) (env_lines txt))))
      else Done envp)"

section \<open>Properties\<close>

abbreviation names_of :: "string \<Rightarrow> string list" where
  "names_of txt \<equiv> filter (\<lambda>l. l \<noteq> []) (env_lines txt)"

lemma collect_env_spec:
  "length acc \<le> MAX_ENV_VARS \<Longrightarrow> collect_env environ lines acc =
    acc @ take (MAX_ENV_VARS - length acc) (map (\<lambda>l. l @ ''='' @ value_of environ l) (filter (\<lambda>l. l \<noteq> []) lines))"
proof (induction lines arbitrary: acc)
  case (Cons l lines)
  show ?case
  proof (cases "length acc \<ge> MAX_ENV_VARS")
    case False
    then have "MAX_ENV_VARS - length acc = Suc (MAX_ENV_VARS - Suc (length acc))" by simp
    then show ?thesis using Cons False by simp
  qed (use Cons in simp)
qed simp

lemma child_env_entries:
  "CreateChildEnv environ (Some txt) =
    (let es = map (\<lambda>l. l @ ''='' @ value_of environ l) (names_of txt) @
       (case getenv environ ''CHILD_PATH'' of Some v \<Rightarrow> [''CHILD_PATH='' @ v] | None \<Rightarrow> [])
     in if length es < MAX_ENV_VARS then Done es else Faults)"
proof -
  let ?m = "map (\<lambda>l. l @ ''='' @ value_of environ l) (names_of txt)"
  have c: "collect_env environ (env_lines txt) [] = take MAX_ENV_VARS ?m" using collect_env_spec[of "[]" environ "env_lines txt"] by simp
  show ?thesis
    by (cases "length ?m < MAX_ENV_VARS"; cases "getenv environ ''CHILD_PATH''") (auto simp: CreateChildEnv_def c store_entry_def Let_def)
qed

text \<open>
  The environment for the children has one entry per name in env.txt, with the parent's value, and
  CHILD_PATH at the end if the parent has it, as long as this fits in 99 entries; with more names
  the array is overrun.
\<close>

theorem create_child_env_spec:
  "CreateChildEnv environ (Some txt) =
    (let es = map (\<lambda>l. l @ ''='' @ value_of environ l) (names_of txt) @
       (case getenv environ ''CHILD_PATH'' of Some v \<Rightarrow> [''CHILD_PATH='' @ v] | None \<Rightarrow> [])
     in if length es < MAX_ENV_VARS then Done es else Faults)"
  by (rule child_env_entries)

text \<open>Names without \<open>=\<close> are found again among the entries made from them.\<close>

lemma entry_for_equal:
  assumes "CHR ''='' \<notin> set n" "CHR ''='' \<notin> set m"
  shows "entry_for n (m @ ''='' @ v) \<longleftrightarrow> n = m"
proof
  assume "entry_for n (m @ ''='' @ v)"
  then obtain w where "n @ CHR ''='' # w = m @ CHR ''='' # v" by (auto simp: entry_for_def prefix_def)
  then have "takeWhile (\<lambda>c. c \<noteq> CHR ''='') (n @ CHR ''='' # w) = takeWhile (\<lambda>c. c \<noteq> CHR ''='') (m @ CHR ''='' # v)" by simp
  moreover have "takeWhile (\<lambda>c. c \<noteq> CHR ''='') (k @ CHR ''='' # u) = k" if "CHR ''='' \<notin> set k" for k u
    using that by (subst takeWhile_append2) auto
  ultimately show "n = m" using assms by simp
qed (simp add: entry_for_def)

lemma getenv_entry:
  assumes "CHR ''='' \<notin> set n" "\<forall>m \<in> set names. CHR ''='' \<notin> set m" "n \<in> set names"
  shows "getenv (map (\<lambda>l. l @ ''='' @ f l) names @ rest) n = Some (f n)"
  using assms(2,3)
proof (induction names)
  case (Cons m names)
  then show ?case using entry_for_equal[OF assms(1), of m "f m"] by auto
qed simp

lemma getenv_no_entry:
  assumes "CHR ''='' \<notin> set n" "\<forall>m \<in> set names. CHR ''='' \<notin> set m" "n \<notin> set names"
  shows "getenv (map (\<lambda>l. l @ ''='' @ f l) names @ rest) n = getenv rest n"
  using assms(2,3)
proof (induction names)
  case (Cons m names)
  then show ?case using entry_for_equal[OF assms(1), of m "f m"] by auto
qed simp

lemma created_env:
  "CreateChildEnv environ (Some txt) = Done env \<Longrightarrow>
    env = map (\<lambda>l. l @ ''='' @ value_of environ l) (names_of txt) @
      (case getenv environ ''CHILD_PATH'' of Some v \<Rightarrow> [''CHILD_PATH='' @ v] | None \<Rightarrow> [])"
  using child_env_entries[of environ "txt"] by (simp add: Let_def split: if_splits)

lemma created_value:
  assumes "CreateChildEnv environ (Some txt) = Done env" "\<forall>n \<in> set (names_of txt). CHR ''='' \<notin> set n" "n \<in> set (names_of txt)"
  shows "value_of env n = value_of environ n"
  using created_env[OF assms(1)] getenv_entry[OF _ assms(2,3), of "value_of environ"] assms(2,3) by (simp add: value_of_def)

text \<open>
  C39. The children see the parent's values. A child that the parent starts with the command + reads
  env.txt itself and prints, for every name there, exactly the value the name has in the parent,
  the empty one if it is not set; the names have no equality sign in them.
\<close>

theorem child_prints_parent_values:
  assumes "CreateChildEnv environ (Some txt) = Done env" "\<forall>n \<in> set (names_of txt). CHR ''='' \<notin> set n"
    and "StartChild2 executable environ env CHR ''+'' nr = Some (path, argv, envp)"
  shows "child_main (Some txt) argv envp = Done (map (\<lambda>n. n @ ''='' @ value_of environ n) (names_of txt))"
proof -
  have st: "envp = env" "length argv > 1" "argv ! 1 = ''env''"
    using assms(3) by (auto simp: StartChild2_def split: option.splits if_splits)
  have "map (\<lambda>n. n @ ''='' @ value_of env n) (names_of txt) = map (\<lambda>n. n @ ''='' @ value_of environ n) (names_of txt)"
    using created_value[OF assms(1,2)] by (intro map_cong) simp_all
  then show ?thesis using st by (simp add: child_main_def)
qed

theorem child_prints_parent_values_witness:
  "child_main (Some (''LANG'' @ [newline] @ ''X'' @ [newline])) [''child_00'', ''env''] [''LANG=en'', ''X='', ''CHILD_PATH=./c''] =
    Done [''LANG=en'', ''X='']"
proof -
  let ?txt = "''LANG'' @ [newline] @ ''X'' @ [newline]" and ?e = "[''CHILD_PATH=./c'', ''LANG=en'']"
  have l: "env_lines ?txt = [''LANG'', ''X'']"
    by (subst env_lines.simps, simp add: fgets_def numeral_eq_Suc c_string_def,
        subst env_lines.simps, simp add: fgets_def numeral_eq_Suc c_string_def,
        subst env_lines.simps, simp add: fgets_def)
  have v: "value_of ?e ''LANG'' = ''en''" "value_of ?e ''X'' = []" "getenv ?e ''CHILD_PATH'' = Some ''./c''"
    by (simp_all add: value_of_def entry_for_def)
  have c: "CreateChildEnv ?e (Some ?txt) = Done [''LANG=en'', ''X='', ''CHILD_PATH=./c'']"
    unfolding child_env_entries l using v by (simp add: MAX_ENV_VARS_def)
  have s: "StartChild2 (\<lambda>p. True) ?e [''LANG=en'', ''X='', ''CHILD_PATH=./c''] CHR ''+'' 0 =
      Some (''./c'', [''child_00'', ''env''], [''LANG=en'', ''X='', ''CHILD_PATH=./c''])"
    using v(3) by (simp add: StartChild2_def FindChildPath_def snprintf_def dec02_def dec.simps digit_def char_of_def bit_0)
  show ?thesis using child_prints_parent_values[OF c _ s] v unfolding l by simp
qed

text \<open>
  The three ways to find the program agree. If the parent has CHILD_PATH, then getenv, the
  environment made for the children and the global environment all give its value, also when
  env.txt names CHILD_PATH itself.
\<close>

theorem child_path_modes_agree:
  assumes "CreateChildEnv environ (Some txt) = Done env" "\<forall>n \<in> set (names_of txt). CHR ''='' \<notin> set n"
    and "getenv environ ''CHILD_PATH'' = Some v" "mode \<in> {CHR ''+'', CHR ''*'', CHR ''&''}"
  shows "FindChildPath mode env environ = Some v"
proof -
  have "getenv env ''CHILD_PATH'' = Some v"
  proof (cases "''CHILD_PATH'' \<in> set (names_of txt)")
    case True
    then show ?thesis using created_env[OF assms(1)] getenv_entry[OF _ assms(2) True, of "value_of environ"] assms(3) by (simp add: value_of_def)
  next
    case False
    then show ?thesis
      using created_env[OF assms(1)] getenv_no_entry[OF _ assms(2) False, of "value_of environ"] assms(3) by (simp add: entry_for_def)
  qed
  then show ?thesis using assms(3,4) by (auto simp: FindChildPath_def)
qed

theorem child_path_modes_agree_witness:
  "FindChildPath CHR ''*'' [''CHILD_PATH=./c''] [''CHILD_PATH=./c''] = Some ''./c''"
proof -
  have l: "env_lines [] = []" by (simp add: env_lines.simps fgets_def)
  have c: "CreateChildEnv [''CHILD_PATH=./c''] (Some []) = Done [''CHILD_PATH=./c'']"
    unfolding child_env_entries l by (simp add: MAX_ENV_VARS_def entry_for_def)
  show ?thesis using child_path_modes_agree[OF c, of "''./c''" "CHR ''*''"] by (simp add: l entry_for_def)
qed

end
